(* ===== verification/Rust_Str.thy ===== *)
theory Rust_Str
  imports Prelude "HOL-Library.Word"
begin

text \<open>
  What the program uses of Rust's strings and number parsing.

  A \<open>String\<close> is the list of its Unicode scalar values (\<open>rstr\<close>), so \<open>chars()\<close> is the list itself
  and \<open>len()\<close>, which counts UTF-8 bytes, is \<open>byte_len\<close>. Rust compares strings by their UTF-8
  bytes, which is the order of the scalar values, i.e. the lexicographic order of
  \<^theory_text>\<open>HOL-Library.List_Lexorder\<close>. Static ASCII strings that only label something
  (\<open>&'static str\<close>) stay Isabelle strings; \<open>lit\<close> turns one into an \<open>rstr\<close>.

  An \<open>f64\<close> is its 64-bit pattern. \<open>parse_f64\<close> is \<open>str::parse::<f64>\<close>: Rust's grammar and the
  correctly rounded (nearest, ties to even) double of the decimal value.
\<close>

type_synonym uchar = nat
type_synonym rstr = "uchar list"
type_synonym f64 = "64 word"

section \<open>Characters and strings\<close>

definition lit :: "string \<Rightarrow> rstr" where
  "lit s = map of_char s"

lemma lit_simps [simp]: "lit [] = []" "lit (c # cs) = of_char c # lit cs"
  by (simp_all add: lit_def)

definition utf8_len :: "uchar \<Rightarrow> nat" where
  "utf8_len c = (if c < 0x80 then 1 else if c < 0x800 then 2 else if c < 0x10000 then 3 else 4)"

definition byte_len :: "rstr \<Rightarrow> nat" where
  "byte_len s = sum_list (map utf8_len s)"

text \<open>\<open>as_bytes\<close>: the UTF-8 encoding.\<close>

definition utf8_char :: "uchar \<Rightarrow> 8 word list" where
  "utf8_char c =
     (if c < 0x80 then [of_nat c]
      else if c < 0x800 then [of_nat (0xC0 + c div 0x40), of_nat (0x80 + c mod 0x40)]
      else if c < 0x10000 then
        [of_nat (0xE0 + c div 0x1000), of_nat (0x80 + c div 0x40 mod 0x40), of_nat (0x80 + c mod 0x40)]
      else
        [of_nat (0xF0 + c div 0x40000), of_nat (0x80 + c div 0x1000 mod 0x40),
         of_nat (0x80 + c div 0x40 mod 0x40), of_nat (0x80 + c mod 0x40)])"

definition utf8_bytes :: "rstr \<Rightarrow> 8 word list" where
  "utf8_bytes s = concat (map utf8_char s)"

lemma length_utf8_bytes: "length (utf8_bytes s) = byte_len s"
  by (induction s) (auto simp: utf8_bytes_def byte_len_def utf8_char_def utf8_len_def)

definition is_control :: "uchar \<Rightarrow> bool" where
  "is_control c \<longleftrightarrow> c < 0x20 \<or> (0x7F \<le> c \<and> c < 0xA0)"

definition is_ascii_lowercase :: "uchar \<Rightarrow> bool" where
  "is_ascii_lowercase c \<longleftrightarrow> 97 \<le> c \<and> c \<le> 122"

definition is_ascii_digit :: "uchar \<Rightarrow> bool" where
  "is_ascii_digit c \<longleftrightarrow> 48 \<le> c \<and> c \<le> 57"

text \<open>The Unicode property \<open>White_Space\<close>, which \<open>str::trim\<close> removes at both ends.\<close>

definition is_whitespace :: "uchar \<Rightarrow> bool" where
  "is_whitespace c \<longleftrightarrow>
     (if c < 0x80 then (9 \<le> c \<and> c \<le> 13) \<or> c = 0x20
      else c \<in> {0x85, 0xA0, 0x1680, 0x2028, 0x2029, 0x202F, 0x205F, 0x3000} \<or> (0x2000 \<le> c \<and> c \<le> 0x200A))"

definition trim :: "rstr \<Rightarrow> rstr" where
  "trim s = rev (dropWhile is_whitespace (rev (dropWhile is_whitespace s)))"

fun strip_prefix :: "rstr \<Rightarrow> rstr \<Rightarrow> rstr option" where
  "strip_prefix [] s = Some s"
| "strip_prefix (p # ps) [] = None"
| "strip_prefix (p # ps) (c # s) = (if p = c then strip_prefix ps s else None)"

definition strip_suffix :: "rstr \<Rightarrow> rstr \<Rightarrow> rstr option" where
  "strip_suffix p s = map_option rev (strip_prefix (rev p) (rev s))"

definition starts_with :: "rstr \<Rightarrow> rstr \<Rightarrow> bool" where
  "starts_with p s \<longleftrightarrow> strip_prefix p s \<noteq> None"

text \<open>\<open>s.split(c)\<close>: the pieces between the separators, one more than there are separators.\<close>

fun split_on :: "uchar \<Rightarrow> rstr \<Rightarrow> rstr list" where
  "split_on c [] = [[]]"
| "split_on c (x # xs) =
     (if x = c then [] # split_on c xs
      else (case split_on c xs of [] \<Rightarrow> [[x]] | p # ps \<Rightarrow> (x # p) # ps))"

lemma byte_len_simps [simp]: "byte_len [] = 0" "byte_len (c # s) = utf8_len c + byte_len s"
  "byte_len (s @ t) = byte_len s + byte_len t"
  by (simp_all add: byte_len_def)

lemma utf8_len_bounds: "1 \<le> utf8_len c" "utf8_len c \<le> 4"
  by (simp_all add: utf8_len_def)

lemma length_le_byte_len: "length s \<le> byte_len s"
proof (induction s)
  case (Cons c s)
  then show ?case using utf8_len_bounds(1)[of c] by simp
qed simp

lemma byte_len_ascii: "(\<forall>c \<in> set s. c < 0x80) \<Longrightarrow> byte_len s = length s"
  by (induction s) (auto simp: utf8_len_def)

lemma is_ascii_alnum_lt: "is_ascii_lowercase c \<Longrightarrow> c < 0x80" "is_ascii_digit c \<Longrightarrow> c < 0x80"
  by (auto simp: is_ascii_lowercase_def is_ascii_digit_def)

lemma strip_prefix_Some_iff: "strip_prefix p s = Some r \<longleftrightarrow> s = p @ r"
  by (induction p s rule: strip_prefix.induct) auto

lemma strip_prefix_append [simp]: "strip_prefix p (p @ r) = Some r"
  by (simp add: strip_prefix_Some_iff)

lemma strip_suffix_Some_iff: "strip_suffix p s = Some r \<longleftrightarrow> s = r @ p"
  unfolding strip_suffix_def
  by (auto simp: strip_prefix_Some_iff rev_swap intro: exI[of _ "rev r"])

lemma split_on_nonempty [simp]: "split_on c s \<noteq> []"
  by (induction s) (auto split: list.splits)

lemma split_on_no_sep: "c \<notin> set s \<Longrightarrow> split_on c s = [s]"
  by (induction s) auto

lemma split_on_append: "c \<notin> set s \<Longrightarrow> split_on c (s @ c # t) = s # split_on c t"
  by (induction s) auto

lemma split_on_pieces: "p \<in> set (split_on c s) \<Longrightarrow> c \<notin> set p"
  by (induction s arbitrary: p) (auto split: if_splits list.splits)

text \<open>A string without whitespace at either end is what \<open>trim\<close> leaves alone.\<close>

lemma trim_id_iff:
  "trim s = s \<longleftrightarrow> s = [] \<or> (\<not> is_whitespace (hd s) \<and> \<not> is_whitespace (last s))"
proof (cases s rule: rev_cases)
  case Nil
  then show ?thesis by (simp add: trim_def)
next
  case (snoc ys y)
  have drop_len: "length (dropWhile is_whitespace xs) \<le> length xs" for xs
    by (rule length_dropWhile_le)
  show ?thesis
  proof (cases "is_whitespace (hd s)")
    case True
    have "length (trim s) \<le> length (dropWhile is_whitespace s)"
      unfolding trim_def using drop_len[of "rev (dropWhile is_whitespace s)"] by simp
    also have "\<dots> < length s"
    proof -
      have "s \<noteq> []" using snoc by simp
      then obtain x xs where s: "s = x # xs" by (cases s) auto
      with True show ?thesis using drop_len[of xs] by simp
    qed
    finally have "trim s \<noteq> s" by auto
    with True snoc show ?thesis by auto
  next
    case False
    then have d: "dropWhile is_whitespace s = s"
      by (simp add: dropWhile_eq_self_iff)
    show ?thesis
    proof (cases "is_whitespace y")
      case True
      have "length (trim s) \<le> length ys"
        unfolding trim_def d using True snoc drop_len[of "rev ys"] by simp
      with snoc True show ?thesis by auto
    next
      case F: False
      then show ?thesis unfolding trim_def d using snoc False by auto
    qed
  qed
qed

section \<open>Decimal numbers\<close>

text \<open>\<open>to_string\<close> of an unsigned integer.\<close>

fun dec :: "nat \<Rightarrow> rstr" where
  "dec n = (if n < 10 then [48 + n] else dec (n div 10) @ [48 + n mod 10])"

declare dec.simps [simp del]

definition dec_int :: "int \<Rightarrow> rstr" where
  "dec_int i = (if i < 0 then 45 # dec (nat (- i)) else dec (nat i))"

definition digits_value :: "rstr \<Rightarrow> nat" where
  "digits_value s = foldl (\<lambda>n c. 10 * n + (c - 48)) 0 s"

definition all_digits :: "rstr \<Rightarrow> bool" where
  "all_digits s \<longleftrightarrow> s \<noteq> [] \<and> list_all is_ascii_digit s"

text \<open>
  \<open>str::parse\<close> of an unsigned integer with largest value \<open>mx\<close>: digits, optionally after a single
  \<open>+\<close>; anything else, and a value out of range, is an error.
\<close>

definition parse_unsigned :: "int \<Rightarrow> rstr \<Rightarrow> nat option" where
  "parse_unsigned mx s =
     (let t = (case s of c # r \<Rightarrow> if c = 43 then r else s | [] \<Rightarrow> s)
      in if all_digits t \<and> int (digits_value t) \<le> mx then Some (digits_value t) else None)"

text \<open>\<open>str::parse::<i64>\<close>: an optional sign, then digits; the value has to fit.\<close>

definition parse_i64 :: "rstr \<Rightarrow> int option" where
  "parse_i64 s =
     (case s of
        [] \<Rightarrow> None
      | c # r \<Rightarrow>
          if c = 45 then (if all_digits r \<and> int (digits_value r) \<le> 2 ^ 63 then Some (- int (digits_value r)) else None)
          else let t = (if c = 43 then r else s)
               in if all_digits t \<and> int (digits_value t) < 2 ^ 63 then Some (int (digits_value t)) else None)"

lemma dec_nonempty [simp]: "dec n \<noteq> []"
  by (subst dec.simps) simp

lemma dec_digits: "list_all is_ascii_digit (dec n)"
proof (induction n rule: dec.induct)
  case (1 n)
  show ?case
  proof (cases "n < 10")
    case True
    then show ?thesis by (subst dec.simps) (simp add: is_ascii_digit_def)
  next
    case False
    moreover have "n mod 10 < 10" by simp
    then have "is_ascii_digit (48 + n mod 10)"
      unfolding is_ascii_digit_def by linarith
    ultimately show ?thesis using 1 by (subst dec.simps) simp
  qed
qed

lemma dec_chars: "c \<in> set (dec n) \<Longrightarrow> 48 \<le> c \<and> c \<le> 57"
  using dec_digits[of n] by (auto simp: list_all_iff is_ascii_digit_def)

lemma digits_value_snoc: "digits_value (s @ [c]) = 10 * digits_value s + (c - 48)"
  by (simp add: digits_value_def)

lemma digits_value_dec [simp]: "digits_value (dec n) = n"
proof (induction n rule: dec.induct)
  case (1 n)
  show ?case
  proof (cases "n < 10")
    case True
    then show ?thesis by (subst dec.simps) (simp add: digits_value_def)
  next
    case False
    then have "digits_value (dec n) = 10 * (n div 10) + n mod 10"
      using 1 by (subst dec.simps) (simp add: digits_value_snoc)
    then show ?thesis by simp
  qed
qed

lemma dec_inj [simp]: "dec m = dec n \<longleftrightarrow> m = n"
  by (metis digits_value_dec)

lemma all_digits_dec [simp]: "all_digits (dec n)"
  by (simp add: all_digits_def dec_digits)

text \<open>Printing a number and parsing it back is the identity.\<close>

lemma parse_unsigned_dec: "int n \<le> mx \<Longrightarrow> parse_unsigned mx (dec n) = Some n"
proof -
  assume n: "int n \<le> mx"
  obtain c r where d: "dec n = c # r" by (cases "dec n") auto
  then have "c \<noteq> 43" using dec_chars[of c n] by auto
  then have "(case dec n of c # r \<Rightarrow> if c = 43 then r else dec n | [] \<Rightarrow> dec n) = dec n"
    using d by simp
  then show ?thesis using n by (simp add: parse_unsigned_def Let_def)
qed

lemma parse_unsigned_bound: "parse_unsigned mx s = Some n \<Longrightarrow> int n \<le> mx"
  by (auto simp: parse_unsigned_def Let_def split: if_splits)

section \<open>Floating point\<close>

definition f64_is_finite :: "f64 \<Rightarrow> bool" where
  "f64_is_finite x \<longleftrightarrow> (unat x div 2 ^ 52) mod 2 ^ 11 \<noteq> 2047"

fun bit_len :: "nat \<Rightarrow> nat" where
  "bit_len n = (if n = 0 then 0 else Suc (bit_len (n div 2)))"

declare bit_len.simps [simp del]

text \<open>\<open>n / d\<close> rounded to an integer, ties to even.\<close>

definition round_half_even :: "nat \<Rightarrow> nat \<Rightarrow> nat" where
  "round_half_even n d =
     (let q = n div d; r = n mod d
      in if 2 * r < d then q else if 2 * r > d then q + 1 else if even q then q else q + 1)"

text \<open>\<open>n / (d * 2 ^ e)\<close>, as a fraction of naturals.\<close>

definition scale2 :: "nat \<Rightarrow> nat \<Rightarrow> int \<Rightarrow> nat \<times> nat" where
  "scale2 n d e = (if 0 \<le> e then (n, d * 2 ^ nat e) else (n * 2 ^ nat (- e), d))"

text \<open>
  The magnitude bits of the double nearest to \<open>n / d\<close>. The exponent \<open>e\<close> is the one that brings the
  quotient into \<open>[2^52, 2^53)\<close>, but never below the subnormal exponent; a carry out of the mantissa
  runs into the exponent field by itself, and what exceeds the largest finite pattern is infinity.
\<close>

definition f64_magnitude :: "nat \<Rightarrow> nat \<Rightarrow> nat" where
  "f64_magnitude n d =
     (if n = 0 then 0
      else let e0 = int (bit_len n) - int (bit_len d) - 53;
               (n0, d0) = scale2 n d e0;
               e = max (if n0 div d0 < 2 ^ 53 then e0 else e0 + 1) (- 1074);
               (n1, d1) = scale2 n d e;
               bits = nat (e + 1074) * 2 ^ 52 + round_half_even n1 d1
           in min bits (2047 * 2 ^ 52))"

definition f64_of_decimal :: "bool \<Rightarrow> nat \<Rightarrow> int \<Rightarrow> f64" where
  "f64_of_decimal neg m e10 =
     (let mag = (if 0 \<le> e10 then f64_magnitude (m * 10 ^ nat e10) 1
                 else f64_magnitude m (10 ^ nat (- e10)))
      in word_of_nat ((if neg then 2 ^ 63 else 0) + mag))"

definition ascii_lower :: "uchar \<Rightarrow> uchar" where
  "ascii_lower c = (if 65 \<le> c \<and> c \<le> 90 then c + 32 else c)"

text \<open>The exponent part after the digits: nothing, or \<open>e\<close>, an optional sign, and digits.\<close>

definition parse_exponent :: "rstr \<Rightarrow> int option" where
  "parse_exponent s =
     (case s of
        [] \<Rightarrow> Some 0
      | c # r \<Rightarrow>
          if ascii_lower c \<noteq> 101 then None
          else (case r of
                  [] \<Rightarrow> None
                | d # t \<Rightarrow>
                    if d = 45 then (if all_digits t then Some (- int (digits_value t)) else None)
                    else let u = (if d = 43 then t else r)
                         in if all_digits u then Some (int (digits_value u)) else None))"

definition parse_decimal :: "bool \<Rightarrow> rstr \<Rightarrow> f64 option" where
  "parse_decimal neg s =
     (let whole = takeWhile is_ascii_digit s; rest = dropWhile is_ascii_digit s;
          (frac, tail) = (case rest of
              c # r \<Rightarrow> if c = 46 then (takeWhile is_ascii_digit r, dropWhile is_ascii_digit r) else ([], rest)
            | [] \<Rightarrow> ([], rest))
      in if whole = [] \<and> frac = [] then None
         else map_option (\<lambda>e. f64_of_decimal neg (digits_value (whole @ frac)) (e - int (length frac)))
                (parse_exponent tail))"

definition parse_f64 :: "rstr \<Rightarrow> f64 option" where
  "parse_f64 s =
     (let neg = (case s of c # _ \<Rightarrow> c = 45 | [] \<Rightarrow> False);
          t = (case s of c # r \<Rightarrow> if c = 45 \<or> c = 43 then r else s | [] \<Rightarrow> s);
          l = map ascii_lower t;
          sign = (if neg then 2 ^ 63 else 0 :: nat)
      in if l = lit ''inf'' \<or> l = lit ''infinity'' then Some (word_of_nat (sign + 2047 * 2 ^ 52))
         else if l = lit ''nan'' then Some (word_of_nat (sign + 4095 * 2 ^ 51))
         else parse_decimal neg t)"

end
