(* ===== verification/BTree_Map.thy ===== *)
theory BTree_Map
  imports Prelude
begin

text \<open>
  The ordered maps the program uses: \<open>std::collections::BTreeMap\<close> and \<open>serde_json::Map\<close> (which is a
  \<open>BTreeMap\<close> too, as the workspace does not enable serde_json's \<open>preserve_order\<close>). A map is the list
  of its entries in key order, so iterating it is iterating the list, which matters wherever the
  first problem found is the one reported.

  The locale \<open>ordered_map\<close> is what its clients rely on; \<open>bt\<close> interprets it for the map below.
\<close>

type_synonym ('k, 'v) btree = "('k \<times> 'v) list"

fun bt_insert :: "'k::linorder \<Rightarrow> 'v \<Rightarrow> ('k, 'v) btree \<Rightarrow> ('k, 'v) btree" where
  "bt_insert k v [] = [(k, v)]"
| "bt_insert k v ((a, b) # m) =
     (if k < a then (k, v) # (a, b) # m else if k = a then (k, v) # m else (a, b) # bt_insert k v m)"

definition bt_get :: "'k \<Rightarrow> ('k, 'v) btree \<Rightarrow> 'v option" where
  "bt_get k m = map_of m k"

definition bt_ok :: "('k::linorder, 'v) btree \<Rightarrow> bool" where
  "bt_ok m \<longleftrightarrow> sorted_wrt (<) (map fst m)"

text \<open>\<open>collect()\<close> from an iterator of entries: later entries replace earlier ones.\<close>

definition bt_extend :: "('k::linorder, 'v) btree \<Rightarrow> ('k \<times> 'v) list \<Rightarrow> ('k, 'v) btree" where
  "bt_extend m kvs = foldl (\<lambda>acc (k, v). bt_insert k v acc) m kvs"

lemma sorted_entries_unique:
  fixes xs ys :: "('k::linorder \<times> 'v) list"
  assumes "sorted_wrt (<) (map fst xs)" and "sorted_wrt (<) (map fst ys)" and "set xs = set ys"
  shows "xs = ys"
proof (rule map_sorted_distinct_set_unique[where f = fst])
  show "inj_on fst (set xs \<union> set ys)"
    using assms by (simp add: strict_sorted_iff distinct_map)
qed (use assms in \<open>simp_all add: strict_sorted_iff\<close>)

section \<open>The interface\<close>

locale ordered_map =
  fixes empty :: "'m"
    and insert :: "'k::linorder \<Rightarrow> 'v \<Rightarrow> 'm \<Rightarrow> 'm"
    and get :: "'k \<Rightarrow> 'm \<Rightarrow> 'v option"
    and entries :: "'m \<Rightarrow> ('k \<times> 'v) list"
    and invar :: "'m \<Rightarrow> bool"
  assumes entries_empty: "entries empty = []"
    and invar_empty: "invar empty"
    and invar_insert: "invar m \<Longrightarrow> invar (insert k v m)"
    and get_insert: "invar m \<Longrightarrow> get k' (insert k v m) = (if k' = k then Some v else get k' m)"
    and entries_sorted: "invar m \<Longrightarrow> sorted_wrt (<) (map fst (entries m))"
    and get_entries: "invar m \<Longrightarrow> get k m = map_of (entries m) k"
begin

lemma get_empty: "get k empty = None"
  by (simp add: get_entries invar_empty entries_empty)

lemma keys_distinct: "invar m \<Longrightarrow> distinct (map fst (entries m))"
  using entries_sorted strict_sorted_iff by blast

lemma get_Some_iff: "invar m \<Longrightarrow> get k m = Some v \<longleftrightarrow> (k, v) \<in> set (entries m)"
  by (simp add: get_entries keys_distinct)

lemma get_None_iff: "invar m \<Longrightarrow> get k m = None \<longleftrightarrow> k \<notin> fst ` set (entries m)"
  by (simp add: get_entries map_of_eq_None_iff)

text \<open>An ordered map is determined by its lookups.\<close>

lemma entries_ext:
  assumes "invar m" and "invar n" and "\<And>k. get k m = get k n"
  shows "entries m = entries n"
proof (rule sorted_entries_unique)
  show "set (entries m) = set (entries n)"
    using assms get_Some_iff[OF assms(1)] get_Some_iff[OF assms(2)] by auto
qed (simp_all add: assms entries_sorted)

lemma fold_insert_invar: "invar m \<Longrightarrow> invar (foldl (\<lambda>acc (k, v). insert k v acc) m kvs)"
  by (induction kvs arbitrary: m) (auto simp: invar_insert split: prod.splits)

lemma fold_insert_get:
  "invar m \<Longrightarrow> get k (foldl (\<lambda>acc (k, v). insert k v acc) m kvs) =
     (case map_of (rev kvs) k of Some v \<Rightarrow> Some v | None \<Rightarrow> get k m)"
  by (induction kvs arbitrary: m)
     (auto simp: invar_insert get_insert map_add_def split: prod.splits option.splits)

end

section \<open>The map provides it\<close>

lemma bt_insert_keys: "fst ` set (bt_insert k v m) = insert k (fst ` set m)"
  by (induction k v m rule: bt_insert.induct) auto

lemma bt_insert_ok: "bt_ok m \<Longrightarrow> bt_ok (bt_insert k v m)"
  unfolding bt_ok_def
proof (induction k v m rule: bt_insert.induct)
  case (2 k v a b m)
  show ?case
  proof (cases "k < a \<or> k = a")
    case True
    with 2 show ?thesis by (auto dest: order.strict_trans)
  next
    case False
    then have "a < k" by auto
    with False 2 bt_insert_keys[of k v m] show ?thesis by auto
  qed
qed simp

lemma bt_get_insert: "bt_ok m \<Longrightarrow> bt_get k' (bt_insert k v m) = (if k' = k then Some v else bt_get k' m)"
  unfolding bt_ok_def bt_get_def
  by (induction k v m rule: bt_insert.induct) auto

interpretation bt: ordered_map "[]" bt_insert bt_get "\<lambda>m. m" bt_ok
  by unfold_locales (simp_all add: bt_insert_ok bt_get_insert, simp_all add: bt_ok_def bt_get_def)

lemma bt_ok_Nil [simp]: "bt_ok []"
  by (simp add: bt_ok_def)

lemma bt_extend_ok: "bt_ok m \<Longrightarrow> bt_ok (bt_extend m kvs)"
  unfolding bt_extend_def by (rule bt.fold_insert_invar)

lemma bt_get_extend:
  "bt_ok m \<Longrightarrow> bt_get k (bt_extend m kvs) =
     (case map_of (rev kvs) k of Some v \<Rightarrow> Some v | None \<Rightarrow> bt_get k m)"
  unfolding bt_extend_def by (rule bt.fold_insert_get)

lemma bt_insert_set: "set (bt_insert k v m) \<subseteq> insert (k, v) (set m)"
  by (induction k v m rule: bt_insert.induct) auto

lemma bt_extend_set: "set (bt_extend m kvs) \<subseteq> set m \<union> set kvs"
proof (induction kvs arbitrary: m)
  case Nil
  then show ?case by (simp add: bt_extend_def)
next
  case (Cons kv kvs)
  obtain k v where kv: "kv = (k, v)" by (cases kv)
  have "bt_extend m (kv # kvs) = bt_extend (bt_insert k v m) kvs"
    by (simp add: bt_extend_def kv)
  with Cons[of "bt_insert k v m"] bt_insert_set[of k v m] show ?case
    by (auto simp: kv)
qed

text \<open>Inserting past the largest key appends: rebuilding a map in its own order changes nothing.\<close>

lemma bt_insert_last: "(\<And>a. a \<in> fst ` set m \<Longrightarrow> a < k) \<Longrightarrow> bt_insert k v m = m @ [(k, v)]"
  by (induction m) force+

lemma bt_ok_append_iff:
  "bt_ok (m @ [(k, v)]) \<longleftrightarrow> bt_ok m \<and> (\<forall>a \<in> fst ` set m. a < k)"
  by (auto simp: bt_ok_def sorted_wrt_append)

lemma bt_ok_filter: "bt_ok m \<Longrightarrow> bt_ok (filter P m)"
  unfolding bt_ok_def by (induction m) auto

lemma bt_ok_map_filter:
  "(\<And>x y. f x = Some y \<Longrightarrow> fst y = fst x) \<Longrightarrow> bt_ok m \<Longrightarrow> bt_ok (List.map_filter f m)"
proof (induction m)
  case (Cons a m)
  then have "\<And>y. y \<in> set (List.map_filter f m) \<Longrightarrow> fst a < fst y"
    by (force simp: set_map_filter bt_ok_def)
  with Cons show ?case by (cases "f a") (auto simp: bt_ok_def)
qed simp

lemma bt_extend_self: "bt_ok m \<Longrightarrow> bt_extend [] m = m"
proof (induction m rule: rev_induct)
  case Nil
  then show ?case by (simp add: bt_extend_def)
next
  case (snoc x m)
  then have "bt_ok m" "\<forall>a \<in> fst ` set m. a < fst x"
    using bt_ok_append_iff[of m "fst x" "snd x"] by auto
  with snoc.IH show ?case by (cases x) (auto simp: bt_extend_def intro: bt_insert_last)
qed

end
