(* ===== verification/Json.thy ===== *)
theory Json
  imports Rust_Str BTree_Map
begin

text \<open>
  \<open>serde_json::Value\<close>, the document model of the program. Numbers keep serde_json's three forms at
  their widths: \<open>PosInt\<close> is a \<open>u64\<close>, \<open>NegInt\<close> a negative \<open>i64\<close>, \<open>Float\<close> a finite \<open>f64\<close>. Objects
  are ordered maps from keys to values.
\<close>

datatype number = PosInt "64 word" | NegInt "64 word" | Float f64

datatype json =
    JNull
  | JBool bool
  | JNumber number
  | JString rstr
  | JArray "json list"
  | JObject "(rstr \<times> json) list"

text \<open>\<open>Value::as_object\<close>, \<open>Value::as_array\<close> and the shape tests.\<close>

definition as_object :: "json \<Rightarrow> (rstr \<times> json) list option" where
  "as_object v = (case v of JObject m \<Rightarrow> Some m | _ \<Rightarrow> None)"

definition as_array :: "json \<Rightarrow> json list option" where
  "as_array v = (case v of JArray vs \<Rightarrow> Some vs | _ \<Rightarrow> None)"

definition is_string :: "json \<Rightarrow> bool" where
  "is_string v = (case v of JString _ \<Rightarrow> True | _ \<Rightarrow> False)"

definition is_number :: "json \<Rightarrow> bool" where
  "is_number v = (case v of JNumber _ \<Rightarrow> True | _ \<Rightarrow> False)"

definition is_boolean :: "json \<Rightarrow> bool" where
  "is_boolean v = (case v of JBool _ \<Rightarrow> True | _ \<Rightarrow> False)"

definition is_object :: "json \<Rightarrow> bool" where
  "is_object v \<longleftrightarrow> as_object v \<noteq> None"

definition is_array :: "json \<Rightarrow> bool" where
  "is_array v \<longleftrightarrow> as_array v \<noteq> None"

text \<open>\<open>Number::is_i64\<close> and \<open>Number::is_u64\<close>, and \<open>to_string\<close> for the two integer forms.\<close>

fun number_is_i64 :: "number \<Rightarrow> bool" where
  "number_is_i64 (PosInt u) = (uint u < 2 ^ 63)"
| "number_is_i64 (NegInt i) = True"
| "number_is_i64 (Float f) = False"

fun number_is_u64 :: "number \<Rightarrow> bool" where
  "number_is_u64 (PosInt u) = True"
| "number_is_u64 (NegInt i) = False"
| "number_is_u64 (Float f) = False"

fun integer_to_string :: "number \<Rightarrow> rstr" where
  "integer_to_string (PosInt u) = dec (unat u)"
| "integer_to_string (NegInt i) = dec_int (sint i)"
| "integer_to_string (Float f) = []"

text \<open>\<open>Number::from(i64)\<close> and \<open>Number::from_f64\<close>.\<close>

definition number_of_i64 :: "int \<Rightarrow> number" where
  "number_of_i64 i = (if i < 0 then NegInt (word_of_int i) else PosInt (word_of_int i))"

definition number_of_f64 :: "f64 \<Rightarrow> number option" where
  "number_of_f64 f = (if f64_is_finite f then Some (Float f) else None)"

text \<open>
  What holds of every \<open>Value\<close>: object keys are in order and distinct at every level, and a number
  is in the form serde_json builds.
\<close>

fun number_ok :: "number \<Rightarrow> bool" where
  "number_ok (PosInt u) = True"
| "number_ok (NegInt i) = (sint i < 0)"
| "number_ok (Float f) = f64_is_finite f"

fun json_ok :: "json \<Rightarrow> bool" where
  "json_ok JNull = True"
| "json_ok (JBool b) = True"
| "json_ok (JNumber n) = number_ok n"
| "json_ok (JString s) = True"
| "json_ok (JArray vs) = list_all json_ok vs"
| "json_ok (JObject m) = (bt_ok m \<and> list_all (\<lambda>kv. json_ok (snd kv)) m)"

lemma as_object_simps [simp]:
  "as_object JNull = None" "as_object (JBool b) = None" "as_object (JNumber n) = None"
  "as_object (JString s) = None" "as_object (JArray vs) = None" "as_object (JObject m) = Some m"
  by (simp_all add: as_object_def)

lemma as_array_simps [simp]:
  "as_array JNull = None" "as_array (JBool b) = None" "as_array (JNumber n) = None"
  "as_array (JString s) = None" "as_array (JArray vs) = Some vs" "as_array (JObject m) = None"
  by (simp_all add: as_array_def)

lemma as_object_Some_iff [simp]: "as_object v = Some m \<longleftrightarrow> v = JObject m"
  by (cases v) auto

lemma as_array_Some_iff [simp]: "as_array v = Some vs \<longleftrightarrow> v = JArray vs"
  by (cases v) auto

lemma number_of_i64_ok: "- (2 ^ 63) \<le> i \<Longrightarrow> i < 2 ^ 63 \<Longrightarrow> number_ok (number_of_i64 i)"
  by (auto simp: number_of_i64_def sint_sbintrunc' signed_take_bit_int_eq_self)

end
