(* ===== verification/Ident.thy ===== *)
theory Ident
  imports Rust_Str
begin

text \<open>
  \<open>crates/core/src/ident.rs\<close>: source and collection names, record ids, feed positions and record
  keys. The macro \<open>ident_type!\<close> gives every identifier the same conversions; here that is the locale
  \<open>ident_type\<close>, whose lemmas (what construction accepts, printing and parsing) are proved once and
  interpreted for each of the three types.
\<close>

section \<open>Errors and limits\<close>

definition MAX_NAME_LEN :: nat where "MAX_NAME_LEN = 128"

definition MAX_ID_LEN :: nat where "MAX_ID_LEN = 512"

datatype ident_error =
    IEmpty string
  | ITooLong string nat nat
  | IChar string uchar
  | IBoundary string

section \<open>The two grammars\<close>

definition name_char :: "uchar \<Rightarrow> bool" where
  "name_char c \<longleftrightarrow> is_ascii_lowercase c \<or> is_ascii_digit c \<or> c = 46 \<or> c = 45 \<or> c = 95"

definition ascii_alnum :: "uchar \<Rightarrow> bool" where
  "ascii_alnum c \<longleftrightarrow> is_ascii_lowercase c \<or> is_ascii_digit c"

definition validate_name :: "string \<Rightarrow> rstr \<Rightarrow> ident_error + unit" where
  "validate_name kind value =
     (if value = [] then Inl (IEmpty kind)
      else if byte_len value > MAX_NAME_LEN then Inl (ITooLong kind (byte_len value) MAX_NAME_LEN)
      else (case find (\<lambda>c. \<not> name_char c) value of
              Some ch \<Rightarrow> Inl (IChar kind ch)
            | None \<Rightarrow>
                if \<not> ascii_alnum (hd value) \<or> \<not> ascii_alnum (last value) then Inl (IBoundary kind)
                else Inr ()))"

definition id_char_refused :: "uchar \<Rightarrow> bool" where
  "id_char_refused c \<longleftrightarrow> is_control c \<or> c = 47 \<or> c = 63 \<or> c = 35"

definition validate_id :: "string \<Rightarrow> rstr \<Rightarrow> ident_error + unit" where
  "validate_id kind value =
     (if value = [] then Inl (IEmpty kind)
      else if byte_len value > MAX_ID_LEN then Inl (ITooLong kind (byte_len value) MAX_ID_LEN)
      else (case find id_char_refused value of
              Some ch \<Rightarrow> Inl (IChar kind ch)
            | None \<Rightarrow> if trim value \<noteq> value then Inl (IBoundary kind) else Inr ()))"

section \<open>The identifier types\<close>

datatype source_name = SourceName (source_str: rstr)
datatype collection_name = CollectionName (collection_str: rstr)
datatype record_id = RecordId (id_str: rstr)

definition source_name_new :: "rstr \<Rightarrow> ident_error + source_name" where
  "source_name_new value = ok_then (validate_name ''source name'' value) (\<lambda>_. Inr (SourceName value))"

definition collection_name_new :: "rstr \<Rightarrow> ident_error + collection_name" where
  "collection_name_new value = ok_then (validate_name ''collection name'' value) (\<lambda>_. Inr (CollectionName value))"

definition record_id_new :: "rstr \<Rightarrow> ident_error + record_id" where
  "record_id_new value = ok_then (validate_id ''record id'' value) (\<lambda>_. Inr (RecordId value))"

text \<open>A value of the type exists only through \<open>new\<close>; the predicates say so of a model value.\<close>

definition source_ok :: "source_name \<Rightarrow> bool" where
  "source_ok s \<longleftrightarrow> source_name_new (source_str s) = Inr s"

definition collection_ok :: "collection_name \<Rightarrow> bool" where
  "collection_ok c \<longleftrightarrow> collection_name_new (collection_str c) = Inr c"

definition record_id_ok :: "record_id \<Rightarrow> bool" where
  "record_id_ok i \<longleftrightarrow> record_id_new (id_str i) = Inr i"

text \<open>The derived orders compare the strings.\<close>

instantiation source_name :: linorder
begin

definition less_eq_source_name :: "source_name \<Rightarrow> source_name \<Rightarrow> bool" where
  "less_eq_source_name a b \<longleftrightarrow> source_str a \<le> source_str b"

definition less_source_name :: "source_name \<Rightarrow> source_name \<Rightarrow> bool" where
  "less_source_name a b \<longleftrightarrow> source_str a < source_str b"

instance
  by standard (auto simp: less_eq_source_name_def less_source_name_def source_name.expand)

end

instantiation collection_name :: linorder
begin

definition less_eq_collection_name :: "collection_name \<Rightarrow> collection_name \<Rightarrow> bool" where
  "less_eq_collection_name a b \<longleftrightarrow> collection_str a \<le> collection_str b"

definition less_collection_name :: "collection_name \<Rightarrow> collection_name \<Rightarrow> bool" where
  "less_collection_name a b \<longleftrightarrow> collection_str a < collection_str b"

instance
  by standard (auto simp: less_eq_collection_name_def less_collection_name_def collection_name.expand)

end

instantiation record_id :: linorder
begin

definition less_eq_record_id :: "record_id \<Rightarrow> record_id \<Rightarrow> bool" where
  "less_eq_record_id a b \<longleftrightarrow> id_str a \<le> id_str b"

definition less_record_id :: "record_id \<Rightarrow> record_id \<Rightarrow> bool" where
  "less_record_id a b \<longleftrightarrow> id_str a < id_str b"

instance
  by standard (auto simp: less_eq_record_id_def less_record_id_def record_id.expand)

end

section \<open>Feed positions and record keys\<close>

datatype seq = Seq (seq_get: "64 word")

definition seq_ZERO :: seq where "seq_ZERO = Seq 0"

definition seq_new :: "64 word \<Rightarrow> seq" where "seq_new v = Seq v"

definition seq_to_string :: "seq \<Rightarrow> rstr" where "seq_to_string s = dec (unat (seq_get s))"

instantiation seq :: linorder
begin

definition less_eq_seq :: "seq \<Rightarrow> seq \<Rightarrow> bool" where "less_eq_seq a b \<longleftrightarrow> seq_get a \<le> seq_get b"

definition less_seq :: "seq \<Rightarrow> seq \<Rightarrow> bool" where "less_seq a b \<longleftrightarrow> seq_get a < seq_get b"

instance
  by standard (auto simp: less_eq_seq_def less_seq_def seq.expand)

end

record record_key =
  key_source :: source_name
  key_collection :: collection_name
  key_id :: record_id

definition record_key_new :: "source_name \<Rightarrow> collection_name \<Rightarrow> record_id \<Rightarrow> record_key" where
  "record_key_new s c i = \<lparr>key_source = s, key_collection = c, key_id = i\<rparr>"

definition record_key_to_string :: "record_key \<Rightarrow> rstr" where
  "record_key_to_string k =
     source_str (key_source k) @ lit ''/'' @ collection_str (key_collection k) @ lit ''/'' @ id_str (key_id k)"

definition record_key_ok :: "record_key \<Rightarrow> bool" where
  "record_key_ok k \<longleftrightarrow> source_ok (key_source k) \<and> collection_ok (key_collection k) \<and> record_id_ok (key_id k)"

section \<open>What the grammars accept\<close>

lemma validate_name_iff:
  "validate_name kind v = Inr u \<longleftrightarrow>
     v \<noteq> [] \<and> length v \<le> MAX_NAME_LEN \<and> list_all name_char v \<and> ascii_alnum (hd v) \<and> ascii_alnum (last v)"
proof (cases "find (\<lambda>c. \<not> name_char c) v")
  case None
  then have n: "list_all name_char v" by (simp add: find_None_iff list_all_iff)
  then have "byte_len v = length v"
    by (intro byte_len_ascii) (auto simp: list_all_iff name_char_def dest: is_ascii_alnum_lt)
  with None n show ?thesis by (auto simp: validate_name_def)
next
  case (Some c)
  then have "\<not> list_all name_char v" by (auto simp: list_all_iff dest: find_SomeD)
  with Some show ?thesis by (auto simp: validate_name_def)
qed

lemma validate_id_iff:
  "validate_id kind v = Inr u \<longleftrightarrow>
     v \<noteq> [] \<and> byte_len v \<le> MAX_ID_LEN \<and> (\<forall>c \<in> set v. \<not> id_char_refused c) \<and>
     \<not> is_whitespace (hd v) \<and> \<not> is_whitespace (last v)"
proof (cases "find id_char_refused v")
  case None
  then have "\<forall>c \<in> set v. \<not> id_char_refused c" by (auto simp: find_None_iff)
  with None show ?thesis by (auto simp: validate_id_def trim_id_iff)
next
  case (Some c)
  then have "\<exists>c \<in> set v. id_char_refused c" by (auto dest: find_SomeD)
  with Some show ?thesis by (auto simp: validate_id_def)
qed

lemma name_char_no_slash: "list_all name_char v \<Longrightarrow> 47 \<notin> set v"
  by (auto simp: list_all_iff name_char_def is_ascii_lowercase_def is_ascii_digit_def)

section \<open>The contract of the macro\<close>

locale ident_type =
  fixes validate :: "rstr \<Rightarrow> ident_error + unit"
    and wrap :: "rstr \<Rightarrow> 'n"
    and as_str :: "'n \<Rightarrow> rstr"
    and new :: "rstr \<Rightarrow> ident_error + 'n"
  assumes as_str_wrap: "as_str (wrap v) = v"
    and wrap_as_str: "wrap (as_str n) = n"
    and new_eq: "new v = ok_then (validate v) (\<lambda>_. Inr (wrap v))"
begin

lemma new_Inr_iff: "new v = Inr n \<longleftrightarrow> validate v = Inr () \<and> n = wrap v"
  by (auto simp: new_eq result_simps)

lemma new_Inl_iff: "new v = Inl e \<longleftrightarrow> validate v = Inl e"
  by (auto simp: new_eq result_simps)

lemma new_as_str: "new v = Inr n \<Longrightarrow> as_str n = v"
  by (simp add: new_Inr_iff as_str_wrap)

lemma constructed_iff: "new (as_str n) = Inr n \<longleftrightarrow> validate (as_str n) = Inr ()"
  by (auto simp: new_Inr_iff wrap_as_str)

lemma new_constructed: "new v = Inr n \<Longrightarrow> new (as_str n) = Inr n"
  by (simp add: new_as_str)

lemma as_str_inj: "as_str m = as_str n \<longleftrightarrow> m = n"
  by (metis wrap_as_str)

end

interpretation source_ident: ident_type "validate_name ''source name''" SourceName source_str source_name_new
  by unfold_locales (simp_all add: source_name_new_def)

interpretation collection_ident: ident_type "validate_name ''collection name''" CollectionName collection_str collection_name_new
  by unfold_locales (simp_all add: collection_name_new_def)

interpretation record_ident: ident_type "validate_id ''record id''" RecordId id_str record_id_new
  by unfold_locales (simp_all add: record_id_new_def)

lemma source_ok_iff: "source_ok s \<longleftrightarrow> validate_name ''source name'' (source_str s) = Inr ()"
  by (simp add: source_ok_def source_ident.constructed_iff)

lemma collection_ok_iff: "collection_ok c \<longleftrightarrow> validate_name ''collection name'' (collection_str c) = Inr ()"
  by (simp add: collection_ok_def collection_ident.constructed_iff)

lemma record_id_ok_iff: "record_id_ok i \<longleftrightarrow> validate_id ''record id'' (id_str i) = Inr ()"
  by (simp add: record_id_ok_def record_ident.constructed_iff)

lemma source_name_new_ok: "source_name_new v = Inr s \<Longrightarrow> source_ok s"
  unfolding source_ok_def by (rule source_ident.new_constructed)

lemma collection_name_new_ok: "collection_name_new v = Inr c \<Longrightarrow> collection_ok c"
  unfolding collection_ok_def by (rule collection_ident.new_constructed)

lemma record_id_new_ok: "record_id_new v = Inr i \<Longrightarrow> record_id_ok i"
  unfolding record_id_ok_def by (rule record_ident.new_constructed)

lemmas ident_ok_iffs = source_ok_iff collection_ok_iff record_id_ok_iff validate_name_iff validate_id_iff

lemma key_parts_no_slash:
  assumes "record_key_ok k"
  shows "47 \<notin> set (source_str (key_source k))" and "47 \<notin> set (collection_str (key_collection k))"
    and "47 \<notin> set (id_str (key_id k))"
  using assms
  by (auto simp: record_key_ok_def ident_ok_iffs id_char_refused_def dest: name_char_no_slash)

text \<open>The grammars on literals: what \<open>simp\<close> needs to decide a concrete identifier.\<close>

lemmas ident_eval =
  ident_ok_iffs lit_def MAX_NAME_LEN_def MAX_ID_LEN_def name_char_def is_ascii_lowercase_def
  is_ascii_digit_def ascii_alnum_def id_char_refused_def is_control_def is_whitespace_def utf8_len_def
  source_ident.new_Inr_iff collection_ident.new_Inr_iff record_ident.new_Inr_iff

end
