(* ===== verification/Externals.thy ===== *)
theory Externals
  imports Json Ident
begin

text \<open>
  The third-party code and services the program calls, as one record of functions that the
  definitions take as an argument: the canonical JSON serialiser, SHA-256, HMAC and hex crates, the
  decoding of a query string, the rendering of a timestamp and what is accepted as a header value, and
  the parts of PostgreSQL that are not the statements of this repository (how \<open>jsonb\<close> keeps, prints
  and compares a document, and the collation text is ordered by). \<open>env_ok\<close> states the documented
  behaviour the program relies on.
\<close>

type_synonym bytes = "8 word list"

record env =
  e_jcs :: "json \<Rightarrow> bytes option"
  e_sha256 :: "bytes \<Rightarrow> bytes"
  e_hex :: "bytes \<Rightarrow> rstr"
  e_unhex :: "rstr \<Rightarrow> rstr + bytes"
  e_hmac :: "bytes \<Rightarrow> bytes \<Rightarrow> bytes option"
  e_jsonb :: "json \<Rightarrow> json option"
  e_jsonb_len :: "json \<Rightarrow> int"
  e_contains :: "json \<Rightarrow> json \<Rightarrow> bool"
  e_collate :: "rstr \<Rightarrow> rstr \<Rightarrow> bool"
  e_form_parse :: "rstr \<Rightarrow> (rstr \<times> rstr) list"
  e_rfc3339 :: "int \<Rightarrow> rstr option"
  e_header :: "rstr \<Rightarrow> bool"

text \<open>
  Two documents of one shape differ in the representation of numbers at most: what \<open>jsonb\<close> gives
  back for a document (a \<open>-0.0\<close> comes back as \<open>0.0\<close>).
\<close>

fun same_shape :: "json \<Rightarrow> json \<Rightarrow> bool" where
  "same_shape JNull w = (w = JNull)"
| "same_shape (JBool b) w = (w = JBool b)"
| "same_shape (JNumber n) w = is_number w"
| "same_shape (JString s) w = (w = JString s)"
| "same_shape (JArray vs) w = (case w of JArray ws \<Rightarrow> list_all2 same_shape vs ws | _ \<Rightarrow> False)"
| "same_shape (JObject m) w =
     (case w of
        JObject n \<Rightarrow> list_all2 (\<lambda>a b. fst a = fst b \<and> same_shape (snd a) (snd b)) m n
      | _ \<Rightarrow> False)"

text \<open>The bytes of the SHA-256 digest of the two-byte text \<open>{}\<close>.\<close>

definition empty_document_digest :: bytes where
  "empty_document_digest =
    [0x44, 0x13, 0x6f, 0xa3, 0x55, 0xb3, 0x67, 0x8a, 0x11, 0x46, 0xad, 0x16, 0xf7, 0xe8, 0x64,
     0x9e, 0x94, 0xfb, 0x4f, 0xc2, 0x1f, 0xe7, 0x7e, 0x83, 0x10, 0xc0, 0x60, 0xf6, 0x1c, 0xaa,
     0xff, 0x8a]"

definition hash_env_ok :: "env \<Rightarrow> bool" where
  "hash_env_ok E \<longleftrightarrow>
     (\<forall>b. length (e_sha256 E b) = 32) \<and>
     (\<forall>k m h. e_hmac E k m = Some h \<longrightarrow> length h = 32) \<and>
     (\<forall>b. length (e_hex E b) = 2 * length b \<and> byte_len (e_hex E b) = 2 * length b \<and>
          e_unhex E (e_hex E b) = Inr b) \<and>
     (\<forall>s b. e_unhex E s = Inr b \<longrightarrow> byte_len s = 2 * length b) \<and>
     (\<forall>b. list_all (\<lambda>c. 48 \<le> c \<and> c \<le> 102) (e_hex E b)) \<and>
     e_jcs E (JObject []) = Some [0x7b, 0x7d] \<and>
     e_sha256 E [0x7b, 0x7d] = empty_document_digest"

definition jsonb_env_ok :: "env \<Rightarrow> bool" where
  "jsonb_env_ok E \<longleftrightarrow>
     e_jsonb E (JObject []) = Some (JObject []) \<and>
     (\<forall>v w. json_ok v \<longrightarrow> e_jsonb E v = Some w \<longrightarrow> json_ok w \<and> same_shape v w) \<and>
     (\<forall>m. e_contains E (JObject m) (JObject [])) \<and>
     (\<forall>v. e_jsonb_len E v < 2 ^ 31)"

definition collation_ok :: "(rstr \<Rightarrow> rstr \<Rightarrow> bool) \<Rightarrow> bool" where
  "collation_ok lt \<longleftrightarrow>
     (\<forall>a. \<not> lt a a) \<and> (\<forall>a b c. lt a b \<longrightarrow> lt b c \<longrightarrow> lt a c) \<and>
     (\<forall>a b. a \<noteq> b \<longrightarrow> lt a b \<or> lt b a) \<and> (\<forall>a. a \<noteq> [] \<longrightarrow> lt [] a)"

text \<open>Text of visible ASCII characters is a header value.\<close>

definition header_env_ok :: "env \<Rightarrow> bool" where
  "header_env_ok E \<longleftrightarrow> (\<forall>s. list_all (\<lambda>c. 32 \<le> c \<and> c \<le> 126) s \<longrightarrow> e_header E s)"

definition env_ok :: "env \<Rightarrow> bool" where
  "env_ok E \<longleftrightarrow> hash_env_ok E \<and> jsonb_env_ok E \<and> collation_ok (e_collate E) \<and> header_env_ok E"

lemma env_okD: "env_ok E \<Longrightarrow> hash_env_ok E" "env_ok E \<Longrightarrow> jsonb_env_ok E" "env_ok E \<Longrightarrow> collation_ok (e_collate E)"
  "env_ok E \<Longrightarrow> header_env_ok E"
  by (simp_all add: env_ok_def)

lemma hash_envD:
  assumes "hash_env_ok E"
  shows "length (e_sha256 E b) = 32" "length (e_hex E b) = 2 * length b"
    "byte_len (e_hex E b) = 2 * length b" "e_unhex E (e_hex E b) = Inr b"
    "e_jcs E (JObject []) = Some [0x7b, 0x7d]" "e_sha256 E [0x7b, 0x7d] = empty_document_digest"
    "e_hmac E k m = Some h \<Longrightarrow> length h = 32" "e_unhex E s = Inr d \<Longrightarrow> byte_len s = 2 * length d"
    "list_all (\<lambda>c. 48 \<le> c \<and> c \<le> 102) (e_hex E b)"
  using assms by (auto simp: hash_env_ok_def)

lemma e_hex_inj: "hash_env_ok E \<Longrightarrow> e_hex E a = e_hex E b \<longleftrightarrow> a = b"
  by (metis hash_envD(4) sum.inject(2))

lemma length_empty_document_digest [simp]: "length empty_document_digest = 32"
  by (simp add: empty_document_digest_def)

lemma same_shape_refl [simp]: "same_shape v v"
  by (induction v) (auto simp: is_number_def snds.simps intro!: list.rel_refl_strong)

section \<open>A concrete environment\<close>

text \<open>
  Functions that satisfy \<open>env_ok\<close>, so that it is not an empty assumption: a serialiser that tells
  documents apart well enough for the witnesses, a checksum of 32 bytes in place of SHA-256, hex, a
  \<open>jsonb\<close> that refuses \<open>NUL\<close> in strings and keys, structural equality for containment and code point
  order for text.
\<close>

fun byte_sum :: "bytes \<Rightarrow> 8 word" where
  "byte_sum [] = 0"
| "byte_sum (b # bs) = b + 31 * byte_sum bs"

definition sample_digest :: "bytes \<Rightarrow> bytes" where
  "sample_digest b = (if b = [0x7b, 0x7d] then empty_document_digest else replicate 31 0 @ [byte_sum b])"

definition hex_digit :: "nat \<Rightarrow> uchar" where
  "hex_digit d = (if d < 10 then 48 + d else 87 + d)"

fun sample_hex :: "bytes \<Rightarrow> rstr" where
  "sample_hex [] = []"
| "sample_hex (b # bs) = hex_digit (unat b div 16) # hex_digit (unat b mod 16) # sample_hex bs"

definition hex_value :: "uchar \<Rightarrow> nat option" where
  "hex_value c = (if 48 \<le> c \<and> c \<le> 57 then Some (c - 48)
     else if 97 \<le> c \<and> c \<le> 102 then Some (c - 87)
     else if 65 \<le> c \<and> c \<le> 70 then Some (c - 55) else None)"

fun sample_unhex :: "rstr \<Rightarrow> rstr + bytes" where
  "sample_unhex [] = Inr []"
| "sample_unhex [c] = Inl []"
| "sample_unhex (c # d # s) =
     (case (hex_value c, hex_value d) of
        (Some h, Some l) \<Rightarrow> ok_then (sample_unhex s) (\<lambda>b. Inr (of_nat (16 * h + l) # b))
      | _ \<Rightarrow> Inl [])"

fun has_nul :: "json \<Rightarrow> bool" where
  "has_nul (JString s) = (0 \<in> set s)"
| "has_nul (JArray vs) = list_ex has_nul vs"
| "has_nul (JObject m) = list_ex (\<lambda>kv. 0 \<in> set (fst kv) \<or> has_nul (snd kv)) m"
| "has_nul _ = False"

definition text_bytes :: "rstr \<Rightarrow> bytes" where
  "text_bytes s = [34] @ map of_nat s @ [34]"

fun sample_jcs :: "json \<Rightarrow> bytes" where
  "sample_jcs JNull = map of_nat (lit ''null'')"
| "sample_jcs (JBool b) = (if b then map of_nat (lit ''true'') else map of_nat (lit ''false''))"
| "sample_jcs (JNumber n) = (case n of Float f \<Rightarrow> [102, ucast f] | i \<Rightarrow> map of_nat (integer_to_string i))"
| "sample_jcs (JString s) = text_bytes s"
| "sample_jcs (JArray vs) = [91] @ concat (map (\<lambda>v. sample_jcs v @ [44]) vs) @ [93]"
| "sample_jcs (JObject m) =
     [123] @ concat (map (\<lambda>kv. text_bytes (fst kv) @ [58] @ sample_jcs (snd kv) @ [44]) m) @ [125]"

definition sample_env :: env where
  "sample_env =
     \<lparr>e_jcs = (\<lambda>v. Some (sample_jcs v)), e_sha256 = sample_digest, e_hex = sample_hex, e_unhex = sample_unhex,
      e_hmac = (\<lambda>k m. Some (sample_digest (k @ m))),
      e_jsonb = (\<lambda>v. if has_nul v then None else Some v), e_jsonb_len = (\<lambda>v. min (2 ^ 31 - 1) (int (length (sample_jcs v)))),
      e_contains = (\<lambda>v w. case (v, w) of
          (JObject m, JObject n) \<Rightarrow> list_all (\<lambda>kv. bt_get (fst kv) m = Some (snd kv)) n
        | _ \<Rightarrow> v = w),
      e_collate = (\<lambda>a b. a < b),
      e_form_parse = (\<lambda>s. map (\<lambda>kv. case split_on 61 kv of k # v # _ \<Rightarrow> (k, v) | _ \<Rightarrow> (kv, [])) (split_on 38 s)),
      e_rfc3339 = (\<lambda>t. Some (dec_int t)), e_header = list_all (\<lambda>c. 32 \<le> c \<and> c \<le> 126)\<rparr>"

lemma unat_byte: "unat (a :: 8 word) < 256"
  using unsigned_less [of a, where ?'a = nat] by simp

lemma hex_value_digit: "d < 16 \<Longrightarrow> hex_value (hex_digit d) = Some d"
  by (auto simp: hex_value_def hex_digit_def)

lemma sample_unhex_hex: "sample_unhex (sample_hex b) = Inr b"
proof (induction b)
  case (Cons a b)
  have "unat a div 16 < 16" "unat a mod 16 < 16" by (simp_all add: less_mult_imp_div_less unat_byte)
  moreover have "of_nat (16 * (unat a div 16) + unat a mod 16) = a" by simp
  ultimately show ?case using Cons by (simp add: hex_value_digit result_simps)
qed simp

lemma sample_hex_length: "length (sample_hex b) = 2 * length b"
  by (induction b) auto

lemma sample_hex_len: "length (sample_hex b) = 2 * length b" "byte_len (sample_hex b) = 2 * length b"
proof -
  have "hex_digit d < 128" if "d < 16" for d using that by (auto simp: hex_digit_def)
  then have "\<forall>c \<in> set (sample_hex b). c < 128"
    by (induction b) (auto simp: less_mult_imp_div_less unat_byte)
  then show "length (sample_hex b) = 2 * length b" "byte_len (sample_hex b) = 2 * length b"
    by (simp_all add: byte_len_ascii sample_hex_length)
qed

lemma sample_hex_chars: "list_all (\<lambda>c. 48 \<le> c \<and> c \<le> 102) (sample_hex b)"
proof (induction b)
  case (Cons a b)
  have "d < 16 \<Longrightarrow> 48 \<le> hex_digit d \<and> hex_digit d \<le> 102" for d by (auto simp: hex_digit_def)
  with Cons show ?case by (simp add: less_mult_imp_div_less unat_byte)
qed simp

lemma hex_value_ascii: "hex_value c = Some h \<Longrightarrow> utf8_len c = 1"
  by (auto simp: hex_value_def utf8_len_def split: if_splits)

lemma sample_unhex_len: "sample_unhex s = Inr b \<Longrightarrow> byte_len s = 2 * length b"
proof (induction s arbitrary: b rule: sample_unhex.induct)
  case (3 c d s)
  then obtain h l b' where "hex_value c = Some h" "hex_value d = Some l" "sample_unhex s = Inr b'"
      "b = of_nat (16 * h + l) # b'"
    by (auto simp: result_simps split: option.splits)
  with 3 show ?case by (auto simp: byte_len_def dest!: hex_value_ascii)
qed (auto simp: byte_len_def)

lemma Nil_less: "a \<noteq> [] \<Longrightarrow> [] < (a :: rstr)"
  by (cases a) auto

lemma sample_env_ok: "env_ok sample_env"
  unfolding env_ok_def hash_env_ok_def jsonb_env_ok_def collation_ok_def header_env_ok_def
  by (auto simp: sample_env_def sample_digest_def sample_hex_len sample_unhex_hex sample_unhex_len sample_hex_chars Nil_less split: if_splits)

end
