(* ===== verification/Content_Hash.thy ===== *)
theory Content_Hash
  imports Externals "HOL-Library.Multiset"
begin

text \<open>
  \<open>crates/core/src/hash.rs\<close>: content hashes, their hex form, canonicalisation and the collection
  checksum. \<open>serde_jcs\<close>, \<open>sha2\<close> and \<open>hex\<close> are functions of the environment.
\<close>

section \<open>Content hashes\<close>

definition HASH_LEN :: nat where "HASH_LEN = 32"

datatype canonical_error = CanonicalError

datatype hash_parse_error = HLength nat | NotHex rstr

datatype contenthash = ContentHash (hash_bytes: bytes)

definition EMPTY_DOCUMENT :: contenthash where
  "EMPTY_DOCUMENT = ContentHash
    [0x44, 0x13, 0x6f, 0xa3, 0x55, 0xb3, 0x67, 0x8a, 0x11, 0x46, 0xad, 0x16, 0xf7, 0xe8, 0x64,
     0x9e, 0x94, 0xfb, 0x4f, 0xc2, 0x1f, 0xe7, 0x7e, 0x83, 0x10, 0xc0, 0x60, 0xf6, 0x1c, 0xaa,
     0xff, 0x8a]"

definition hash_from_bytes :: "bytes \<Rightarrow> contenthash" where
  "hash_from_bytes b = ContentHash b"

definition hash_to_hex :: "env \<Rightarrow> contenthash \<Rightarrow> rstr" where
  "hash_to_hex E h = e_hex E (hash_bytes h)"

definition hash_from_str :: "env \<Rightarrow> rstr \<Rightarrow> hash_parse_error + contenthash" where
  "hash_from_str E value =
     (if byte_len value \<noteq> HASH_LEN * 2 then Inl (HLength (byte_len value))
      else ok_then (map_err NotHex (e_unhex E value)) (\<lambda>bytes. Inr (ContentHash bytes)))"

definition canonicalize :: "env \<Rightarrow> json \<Rightarrow> canonical_error + bytes" where
  "canonicalize E value = ok_or CanonicalError (e_jcs E value)"

definition content_hash :: "env \<Rightarrow> json \<Rightarrow> canonical_error + contenthash" where
  "content_hash E value =
     ok_then (canonicalize E value) (\<lambda>canonical. Inr (hash_from_bytes (e_sha256 E canonical)))"

text \<open>The array of \<open>[id, hash]\<close> pairs in id order, and the checksum over it.\<close>

definition checksum_document :: "env \<Rightarrow> (rstr \<times> contenthash) list \<Rightarrow> json" where
  "checksum_document E entries =
     JArray (map (\<lambda>ih. JArray [JString (fst ih), JString (hash_to_hex E (snd ih))]) (sort_key fst entries))"

definition collection_checksum :: "env \<Rightarrow> (rstr \<times> contenthash) list \<Rightarrow> canonical_error + contenthash" where
  "collection_checksum E entries = content_hash E (checksum_document E entries)"

section \<open>Lemmas\<close>

definition hash_ok :: "contenthash \<Rightarrow> bool" where
  "hash_ok h \<longleftrightarrow> length (hash_bytes h) = HASH_LEN"

lemma content_hash_Some:
  "content_hash E v = Inr h \<longleftrightarrow> (\<exists>c. e_jcs E v = Some c \<and> h = ContentHash (e_sha256 E c))"
  by (auto simp: content_hash_def canonicalize_def result_simps hash_from_bytes_def)

lemma content_hash_ok: "hash_env_ok E \<Longrightarrow> content_hash E v = Inr h \<Longrightarrow> hash_ok h"
  by (auto simp: content_hash_Some hash_ok_def HASH_LEN_def hash_envD(1))

lemma EMPTY_DOCUMENT_bytes: "hash_bytes EMPTY_DOCUMENT = empty_document_digest"
  by (simp add: EMPTY_DOCUMENT_def empty_document_digest_def)

lemma EMPTY_DOCUMENT_ok [simp]: "hash_ok EMPTY_DOCUMENT"
  by (simp add: hash_ok_def EMPTY_DOCUMENT_bytes HASH_LEN_def)

lemma EMPTY_DOCUMENT_hash: "hash_env_ok E \<Longrightarrow> content_hash E (JObject []) = Inr EMPTY_DOCUMENT"
  using EMPTY_DOCUMENT_bytes by (simp add: content_hash_Some hash_envD contenthash.expand)

lemma hash_to_hex_inj: "hash_env_ok E \<Longrightarrow> hash_to_hex E a = hash_to_hex E b \<longleftrightarrow> a = b"
  by (auto simp: hash_to_hex_def e_hex_inj intro: contenthash.expand)

lemma sort_key_determined:
  fixes xs :: "('a::linorder \<times> 'b) list"
  assumes "distinct (map fst xs)"
  shows "sort_key fst xs = sort_key fst ys \<longleftrightarrow> mset xs = mset ys"
proof
  have stable: "filter (\<lambda>x. k = fst x) (sort_key fst zs) = filter (\<lambda>x. k = fst x) zs" for k and zs :: "('a \<times> 'b) list"
    using sort_key_stable[of fst k zs] by (simp add: eq_commute[of k])
  assume "mset xs = mset ys"
  moreover have "filter (\<lambda>x. k = fst x) xs = filter (\<lambda>x. k = fst x) ys" if "mset xs = mset ys" for k
  proof -
    have le: "size (filter_mset (\<lambda>x. k = fst x) (mset xs)) \<le> 1"
      using assms by (induction xs) (auto simp: filter_empty_conv image_iff)
    have "mset (filter (\<lambda>x. k = fst x) xs) = mset (filter (\<lambda>x. k = fst x) ys)"
      using that by simp
    moreover have "length (filter (\<lambda>x. k = fst x) xs) \<le> 1"
      using le by (metis mset_filter size_mset)
    ultimately show ?thesis
      by (cases "filter (\<lambda>x. k = fst x) xs"; cases "filter (\<lambda>x. k = fst x) ys") auto
  qed
  ultimately show "sort_key fst xs = sort_key fst ys"
    by (intro properties_for_sort_key) (simp_all add: stable)
next
  assume "sort_key fst xs = sort_key fst ys"
  then show "mset xs = mset ys" by (metis mset_sort)
qed

lemma checksum_document_eq_iff:
  assumes "hash_env_ok E" "distinct (map fst xs)"
  shows "checksum_document E xs = checksum_document E ys \<longleftrightarrow> mset xs = mset ys"
proof -
  let ?f = "\<lambda>ih :: rstr \<times> contenthash. JArray [JString (fst ih), JString (hash_to_hex E (snd ih))]"
  have "inj ?f" using assms(1) by (auto intro!: injI simp: hash_to_hex_inj prod_eq_iff)
  then show ?thesis
    by (simp add: checksum_document_def inj_map_eq_map sort_key_determined[OF assms(2)])
qed

section \<open>Properties\<close>

lemma hash_from_str_ok: "hash_env_ok E \<Longrightarrow> hash_from_str E s = Inr h \<Longrightarrow> hash_ok h"
  by (auto simp: hash_from_str_def result_simps hash_ok_def HASH_LEN_def split: if_splits dest: hash_envD(8))

text \<open>The hex form is a faithful wire form of a content hash: rendering and reading it back gives
  the same hash, and whatever the parser accepts is a digest of 32 bytes.\<close>

theorem hash_hex_roundtrip:
  assumes "hash_env_ok E" and "hash_ok h"
  shows "hash_from_str E (hash_to_hex E h) = Inr h \<and> (\<forall>s g. hash_from_str E s = Inr g \<longrightarrow> hash_ok g)"
  using assms hash_from_str_ok
  by (auto simp: hash_from_str_def hash_to_hex_def hash_ok_def hash_envD(3,4) result_simps)

lemma hash_hex_roundtrip_witness:
  "hash_from_str sample_env (hash_to_hex sample_env EMPTY_DOCUMENT) = Inr EMPTY_DOCUMENT"
  using hash_hex_roundtrip[OF env_okD(1)[OF sample_env_ok] EMPTY_DOCUMENT_ok] by blast

text \<open>The collection checksum depends on the set of \<open>[id, hash]\<close> pairs alone, not on the order the
  rows arrive in, and it tells any two different sets apart unless their two documents collide
  under the digest.\<close>

theorem checksum_iff_same_pairs:
  assumes "hash_env_ok E" and "distinct (map fst xs)"
    and "content_hash E (checksum_document E xs) = content_hash E (checksum_document E ys)
      \<Longrightarrow> checksum_document E xs = checksum_document E ys"
  shows "collection_checksum E xs = collection_checksum E ys \<longleftrightarrow> mset xs = mset ys"
  using assms(3) checksum_document_eq_iff[OF assms(1,2), of ys] by (auto simp: collection_checksum_def)

lemma checksum_iff_same_pairs_witness:
  "collection_checksum sample_env [(lit ''b'', EMPTY_DOCUMENT), (lit ''a'', EMPTY_DOCUMENT)] =
     collection_checksum sample_env [(lit ''a'', EMPTY_DOCUMENT), (lit ''b'', EMPTY_DOCUMENT)]"
proof -
  let ?xs = "[(lit ''b'', EMPTY_DOCUMENT), (lit ''a'', EMPTY_DOCUMENT)]"
  let ?ys = "[(lit ''a'', EMPTY_DOCUMENT), (lit ''b'', EMPTY_DOCUMENT)]"
  have d: "distinct (map fst ?xs)" by code_simp
  have m: "mset ?xs = mset ?ys" by simp
  then have "checksum_document sample_env ?xs = checksum_document sample_env ?ys"
    using checksum_document_eq_iff[OF env_okD(1)[OF sample_env_ok] d] by blast
  with checksum_iff_same_pairs[OF env_okD(1)[OF sample_env_ok] d, of ?ys] m show ?thesis by blast
qed

end
