(* ===== verification/Records.thy ===== *)
theory Records
  imports Content_Hash
begin

text \<open>
  \<open>crates/store/src/record.rs\<close>: stored records, the operations on their way in, what they did, and
  what bounds a page. A \<open>usize\<close> is a 64-bit word, a timestamp an integer.
\<close>

type_synonym timestamp = int

record stored_record =
  sr_key :: record_key
  sr_payload :: json
  sr_hash :: contenthash
  sr_seq :: seq
  sr_ingested_at :: timestamp
  sr_deleted_at :: "timestamp option"

definition is_deleted :: "stored_record \<Rightarrow> bool" where
  "is_deleted r \<longleftrightarrow> sr_deleted_at r \<noteq> None"

datatype ingest_op = OpUpsert record_id json | OpDelete record_id

fun op_id :: "ingest_op \<Rightarrow> record_id" where
  "op_id (OpUpsert i _) = i"
| "op_id (OpDelete i) = i"

datatype applied = AStored seq | ATombstoned seq | AUnchanged

fun applied_seq :: "applied \<Rightarrow> seq option" where
  "applied_seq (AStored s) = Some s"
| "applied_seq (ATombstoned s) = Some s"
| "applied_seq AUnchanged = None"

section \<open>Budgets\<close>

datatype page_limit = PageLimit (limit_get: "16 word")

definition LIMIT_MAX :: "16 word" where "LIMIT_MAX = 1000"
definition LIMIT_DEFAULT :: "16 word" where "LIMIT_DEFAULT = 100"

definition limit_clamp :: "16 word \<Rightarrow> page_limit" where
  "limit_clamp requested =
     (if requested = 0 then PageLimit 1
      else if requested > LIMIT_MAX then PageLimit LIMIT_MAX
      else PageLimit requested)"

definition limit_default :: page_limit where "limit_default = PageLimit LIMIT_DEFAULT"

datatype byte_budget = ByteBudget (budget_get: "64 word")

definition BUDGET_MAX :: "64 word" where "BUDGET_MAX = 4 * 1024 * 1024"
definition BUDGET_DEFAULT :: "64 word" where "BUDGET_DEFAULT = 1024 * 1024"

definition budget_clamp :: "64 word \<Rightarrow> byte_budget" where
  "budget_clamp requested =
     (if requested = 0 then ByteBudget 1
      else if requested > BUDGET_MAX then ByteBudget BUDGET_MAX
      else ByteBudget requested)"

definition budget_default :: byte_budget where "budget_default = ByteBudget BUDGET_DEFAULT"

record page_budget =
  pb_records :: page_limit
  pb_bytes :: byte_budget

definition page_budget_of :: "page_limit \<Rightarrow> page_budget" where
  "page_budget_of l = \<lparr>pb_records = l, pb_bytes = ByteBudget BUDGET_DEFAULT\<rparr>"

definition page_budget_default :: page_budget where
  "page_budget_default = \<lparr>pb_records = limit_default, pb_bytes = budget_default\<rparr>"

section \<open>Answers\<close>

record page =
  pg_records :: "stored_record list"
  pg_next :: "seq option"

record manifest =
  mf_count :: "64 word"
  mf_checksum :: contenthash
  mf_max_seq :: "seq option"

record digest =
  dg_id :: record_id
  dg_hash :: contenthash

record digest_page =
  dp_entries :: "digest list"
  dp_next :: "record_id option"

datatype upsert = UStored seq | UUnchanged

fun upsert_seq :: "upsert \<Rightarrow> seq option" where
  "upsert_seq (UStored s) = Some s"
| "upsert_seq UUnchanged = None"

datatype deletion = DTombstoned seq | DUnchanged

fun deletion_seq :: "deletion \<Rightarrow> seq option" where
  "deletion_seq (DTombstoned s) = Some s"
| "deletion_seq DUnchanged = None"

section \<open>Bounds\<close>

text \<open>What every limit and budget that was clamped or defaulted satisfies.\<close>

definition limit_ok :: "page_limit \<Rightarrow> bool" where
  "limit_ok l \<longleftrightarrow> 1 \<le> limit_get l \<and> limit_get l \<le> LIMIT_MAX"

definition budget_ok :: "byte_budget \<Rightarrow> bool" where
  "budget_ok b \<longleftrightarrow> 1 \<le> budget_get b \<and> budget_get b \<le> BUDGET_MAX"

lemma word_ge_1: "x \<noteq> 0 \<Longrightarrow> 1 \<le> (x :: 'a::len word)"
  by (simp add: word_le_nat_alt unat_gt_0 Suc_le_eq)

lemma limit_clamp_ok [simp]: "limit_ok (limit_clamp n)"
  by (auto simp: limit_ok_def limit_clamp_def LIMIT_MAX_def word_ge_1)

lemma limit_default_ok [simp]: "limit_ok limit_default"
  by (simp add: limit_ok_def limit_default_def LIMIT_DEFAULT_def LIMIT_MAX_def)

lemma budget_clamp_ok [simp]: "budget_ok (budget_clamp n)"
  by (auto simp: budget_ok_def budget_clamp_def BUDGET_MAX_def word_ge_1)

lemma budget_default_ok [simp]: "budget_ok budget_default"
  by (simp add: budget_ok_def budget_default_def BUDGET_DEFAULT_def BUDGET_MAX_def)

lemma limit_ok_unat: "limit_ok l \<Longrightarrow> 1 \<le> unat (limit_get l) \<and> unat (limit_get l) \<le> 1000"
  by (simp add: limit_ok_def LIMIT_MAX_def word_le_nat_alt)

end
