(* ===== verification/Token.thy ===== *)
theory Token
  imports Externals
begin

text \<open>
  \<open>crates/store/src/token.rs\<close>: ingest credentials. HMAC and hex are functions of the environment, the
  operating system's randomness is the argument of \<open>token_generate\<close>.
\<close>

definition TOKEN_PREFIX :: rstr where "TOKEN_PREFIX = lit ''hyd_''"

definition TOKEN_BYTES :: nat where "TOKEN_BYTES = 32"

definition TOKEN_HASH_LEN :: nat where "TOKEN_HASH_LEN = 32"

datatype token_error = Randomness | Secret

datatype token = Token (token_text: rstr)

datatype tokenhash = TokenHash (token_hash_bytes: bytes)

text \<open>\<open>filled\<close>: the bytes the operating system gives for a buffer of a length, if it can.\<close>

definition token_generate :: "env \<Rightarrow> (nat \<Rightarrow> bytes option) \<Rightarrow> token_error + token" where
  "token_generate E filled =
     ok_then (ok_or Randomness (filled TOKEN_BYTES)) (\<lambda>bytes. Inr (Token (TOKEN_PREFIX @ e_hex E bytes)))"

definition token_from_presented :: "rstr \<Rightarrow> token" where
  "token_from_presented value = Token value"

definition token_expose :: "token \<Rightarrow> rstr" where
  "token_expose t = token_text t"

definition token_hash :: "env \<Rightarrow> bytes \<Rightarrow> token \<Rightarrow> token_error + tokenhash" where
  "token_hash E secret t =
     ok_then (ok_or Secret (e_hmac E secret (utf8_bytes (token_text t)))) (\<lambda>digest. Inr (TokenHash digest))"

definition token_debug :: "token \<Rightarrow> rstr" where
  "token_debug t = lit ''Token(redacted)''"

definition token_hash_ok :: "tokenhash \<Rightarrow> bool" where
  "token_hash_ok h \<longleftrightarrow> length (token_hash_bytes h) = TOKEN_HASH_LEN"

lemma token_hash_result: "hash_env_ok E \<Longrightarrow> token_hash E k t = Inr h \<Longrightarrow> token_hash_ok h"
  by (auto simp: token_hash_def result_simps token_hash_ok_def TOKEN_HASH_LEN_def dest: hash_envD(7))

text \<open>A minted token carries the prefix a secret scanner looks for and 64 characters of entropy.\<close>

theorem minted_token_form:
  assumes "hash_env_ok E" and "\<And>n b. filled n = Some b \<Longrightarrow> length b = n"
    and "token_generate E filled = Inr t"
  shows "starts_with TOKEN_PREFIX (token_expose t) \<and> byte_len (token_expose t) = byte_len TOKEN_PREFIX + 2 * TOKEN_BYTES"
  using assms(2)[of TOKEN_BYTES] assms(3)
  by (auto simp: token_generate_def result_simps token_expose_def starts_with_def strip_prefix_Some_iff hash_envD(3)[OF assms(1)])

lemma minted_token_form_witness:
  "starts_with (lit ''hyd_'') (token_expose (Token (TOKEN_PREFIX @ sample_hex (replicate 32 7))))"
  using minted_token_form[OF env_okD(1)[OF sample_env_ok], of "\<lambda>n. Some (replicate n 7)"]
  by (simp add: token_generate_def result_simps sample_env_def TOKEN_PREFIX_def TOKEN_BYTES_def)

end
