(* ===== verification/Schema.thy ===== *)
theory Schema
  imports Ident Json
begin

text \<open>
  \<open>crates/core/src/schema.rs\<close>: field names, field specifications and their declared form, id paths,
  sort keys, and the validated collection definitions with the set of them the service serves.
  serde's derived decoding of a schema file is generated code and stays outside: its output, the
  \<open>Repr\<close> types, is where the model starts.
\<close>

section \<open>Errors\<close>

datatype schema_error =
    FieldNameError ident_error
  | NoFields
  | ObjectWithoutAllowList rstr
  | SUnknownField string rstr
  | FieldNotIndexed string rstr
  | DuplicateCollection rstr
  | SDuplicate string rstr

section \<open>Field names\<close>

datatype field_name = FieldName (field_str: rstr)

definition field_char_refused :: "uchar \<Rightarrow> bool" where
  "field_char_refused c \<longleftrightarrow> is_control c \<or> c = 46"

definition field_name_new :: "rstr \<Rightarrow> ident_error + field_name" where
  "field_name_new value =
     (if value = [] then Inl (IEmpty ''field name'')
      else if byte_len value > MAX_NAME_LEN
      then Inl (ITooLong ''field name'' (byte_len value) MAX_NAME_LEN)
      else (case find field_char_refused value of
              Some ch \<Rightarrow> Inl (IChar ''field name'' ch)
            | None \<Rightarrow> Inr (FieldName value)))"

definition field_ok :: "field_name \<Rightarrow> bool" where
  "field_ok f \<longleftrightarrow> field_name_new (field_str f) = Inr f"

instantiation field_name :: linorder
begin

definition less_eq_field_name :: "field_name \<Rightarrow> field_name \<Rightarrow> bool" where
  "less_eq_field_name a b \<longleftrightarrow> field_str a \<le> field_str b"

definition less_field_name :: "field_name \<Rightarrow> field_name \<Rightarrow> bool" where
  "less_field_name a b \<longleftrightarrow> field_str a < field_str b"

instance
  by standard (auto simp: less_eq_field_name_def less_field_name_def field_name.expand)

end

section \<open>Scalar types\<close>

datatype scalar_type = TString | TNumber | TBoolean | TAny

fun accepts :: "scalar_type \<Rightarrow> json \<Rightarrow> bool" where
  "accepts TString v = is_string v"
| "accepts TNumber v = is_number v"
| "accepts TBoolean v = is_boolean v"
| "accepts TAny v = (\<not> (is_object v \<or> is_array v))"

fun scalar_as_str :: "scalar_type \<Rightarrow> string" where
  "scalar_as_str TString = ''string''"
| "scalar_as_str TNumber = ''number''"
| "scalar_as_str TBoolean = ''boolean''"
| "scalar_as_str TAny = ''scalar''"

fun kind_of :: "json \<Rightarrow> string" where
  "kind_of JNull = ''null''"
| "kind_of (JBool _) = ''boolean''"
| "kind_of (JNumber _) = ''number''"
| "kind_of (JString _) = ''string''"
| "kind_of (JArray _) = ''array''"
| "kind_of (JObject _) = ''object''"

section \<open>Field specifications\<close>

datatype field_spec =
    SScalar scalar_type bool
  | SObject "(field_name \<times> field_spec) list"
  | SArray field_spec

definition spec_scalar :: "scalar_type \<Rightarrow> field_spec" where
  "spec_scalar ty = SScalar ty False"

definition spec_indexed :: "scalar_type \<Rightarrow> field_spec" where
  "spec_indexed ty = SScalar ty True"

definition spec_object :: "(field_name, field_spec) btree \<Rightarrow> field_spec" where
  "spec_object allow = SObject allow"

definition spec_array :: "field_spec \<Rightarrow> field_spec" where
  "spec_array items = SArray items"

fun allow_scalars_loop ::
    "rstr list \<Rightarrow> (field_name, field_spec) btree \<Rightarrow> schema_error + (field_name, field_spec) btree" where
  "allow_scalars_loop [] allow = Inr allow"
| "allow_scalars_loop (name # names) allow =
     ok_then (map_err FieldNameError (field_name_new name))
       (\<lambda>f. allow_scalars_loop names (bt_insert f (spec_scalar TAny) allow))"

definition allow_scalars :: "rstr list \<Rightarrow> schema_error + field_spec" where
  "allow_scalars names =
     ok_then (allow_scalars_loop names [])
       (\<lambda>allow. if allow = [] then Inl (ObjectWithoutAllowList []) else Inr (SObject allow))"

fun is_indexed :: "field_spec \<Rightarrow> bool" where
  "is_indexed (SScalar _ index) = index"
| "is_indexed (SObject _) = False"
| "is_indexed (SArray _) = False"

fun spec_kind :: "field_spec \<Rightarrow> string" where
  "spec_kind (SScalar ty _) = scalar_as_str ty"
| "spec_kind (SObject _) = ''object''"
| "spec_kind (SArray _) = ''array''"

fun spec_validate :: "field_spec \<Rightarrow> rstr \<Rightarrow> schema_error + unit" where
  "spec_validate (SScalar _ _) path = Inr ()"
| "spec_validate (SObject allow) path =
     (if allow = [] then Inl (ObjectWithoutAllowList path)
      else for_each (\<lambda>ns. spec_validate (snd ns) (path @ lit ''.'' @ field_str (fst ns))) allow)"
| "spec_validate (SArray items) path = spec_validate items (path @ lit ''[]'')"

section \<open>The declared form of a field\<close>

datatype field_spec_repr =
    ReprString bool
  | ReprNumber bool
  | ReprBoolean bool
  | ReprObjectNames "field_name list"
  | ReprObjectSpecs "(field_name \<times> field_spec_repr) list"
  | ReprArray field_spec_repr

text \<open>\<open>TryFrom<FieldSpecRepr>\<close> together with \<open>TryFrom<AllowList>\<close>, whose two forms are the two object
  constructors.\<close>

fun spec_of_repr :: "field_spec_repr \<Rightarrow> schema_error + field_spec" where
  "spec_of_repr (ReprString index) = Inr (SScalar TString index)"
| "spec_of_repr (ReprNumber index) = Inr (SScalar TNumber index)"
| "spec_of_repr (ReprBoolean index) = Inr (SScalar TBoolean index)"
| "spec_of_repr (ReprObjectNames names) =
     Inr (SObject (bt_extend [] (map (\<lambda>name. (name, spec_scalar TAny)) names)))"
| "spec_of_repr (ReprObjectSpecs specs) =
     ok_then (traverse (\<lambda>nr. map_ok (\<lambda>spec. (fst nr, spec)) (spec_of_repr (snd nr))) specs)
       (\<lambda>entries. Inr (SObject (bt_extend [] entries)))"
| "spec_of_repr (ReprArray items) = ok_then (spec_of_repr items) (\<lambda>spec. Inr (SArray spec))"

section \<open>Id paths\<close>

datatype id_path = IdPath (segments: "field_name list")

datatype id_error =
    IdMissing rstr
  | IdNotAnIdentifier rstr string
  | IdInvalid rstr ident_error

definition id_path_new :: "field_name list \<Rightarrow> schema_error + id_path" where
  "id_path_new segs = (if segs = [] then Inl NoFields else Inr (IdPath segs))"

fun resolve_from :: "field_name list \<Rightarrow> json \<Rightarrow> json option" where
  "resolve_from [] current = Some current"
| "resolve_from (seg # segs) current =
     (case as_object current of
        None \<Rightarrow> None
      | Some m \<Rightarrow> (case bt_get (field_str seg) m of None \<Rightarrow> None | Some v \<Rightarrow> resolve_from segs v))"

definition id_path_resolve :: "id_path \<Rightarrow> json \<Rightarrow> json option" where
  "id_path_resolve path payload = resolve_from (segments path) payload"

definition id_path_to_string :: "id_path \<Rightarrow> rstr" where
  "id_path_to_string path = lit ''$'' @ concat (map (\<lambda>seg. lit ''.'' @ field_str seg) (segments path))"

definition id_path_extract :: "id_path \<Rightarrow> json \<Rightarrow> id_error + record_id" where
  "id_path_extract path payload =
     ok_then (ok_or (IdMissing (id_path_to_string path)) (id_path_resolve path payload))
       (\<lambda>value. ok_then
          (case value of
             JString text \<Rightarrow> Inr text
           | JNumber n \<Rightarrow>
               if number_is_i64 n \<or> number_is_u64 n then Inr (integer_to_string n)
               else Inl (IdNotAnIdentifier (id_path_to_string path) (kind_of value))
           | other \<Rightarrow> Inl (IdNotAnIdentifier (id_path_to_string path) (kind_of other)))
          (\<lambda>raw. map_err (IdInvalid (id_path_to_string path)) (record_id_new raw)))"

definition id_path_from_str :: "rstr \<Rightarrow> schema_error + id_path" where
  "id_path_from_str value =
     (let trimmed = (case strip_prefix (lit ''$.'') value of Some rest \<Rightarrow> rest | None \<Rightarrow> value)
      in ok_then (map_err FieldNameError (traverse field_name_new (split_on 46 trimmed))) id_path_new)"

definition id_path_ok :: "id_path \<Rightarrow> bool" where
  "id_path_ok p \<longleftrightarrow> segments p \<noteq> [] \<and> list_all field_ok (segments p)"

section \<open>Cache directives and sort keys\<close>

definition DEFAULT_SHARED_MAX_AGE :: "32 word" where "DEFAULT_SHARED_MAX_AGE = 300"

record cache_spec =
  shared_max_age :: "32 word"

definition cache_spec_default :: cache_spec where
  "cache_spec_default = \<lparr>shared_max_age = DEFAULT_SHARED_MAX_AGE\<rparr>"

datatype sort_key = SortSeq | SortField field_name

definition sort_key_try_from :: "rstr \<Rightarrow> ident_error + sort_key" where
  "sort_key_try_from value =
     (if value = lit ''seq'' then Inr SortSeq else map_ok SortField (field_name_new value))"

fun sort_key_to_string :: "sort_key \<Rightarrow> rstr" where
  "sort_key_to_string SortSeq = lit ''seq''"
| "sort_key_to_string (SortField name) = field_str name"

section \<open>Collection definitions\<close>

record collection_schema_repr =
  repr_collection :: collection_name
  repr_id :: id_path
  repr_fields :: "(field_name, field_spec) btree"
  repr_filters :: "field_name list"
  repr_sort :: "sort_key list"
  repr_cache :: cache_spec

record collection_schema =
  cs_collection :: collection_name
  cs_id :: id_path
  cs_fields :: "(field_name, field_spec) btree"
  cs_filters :: "field_name list"
  cs_sort :: "sort_key list"
  cs_cache :: cache_spec

definition require_indexed ::
    "(field_name, field_spec) btree \<Rightarrow> string \<Rightarrow> field_name \<Rightarrow> schema_error + unit" where
  "require_indexed flds usage field =
     ok_then (ok_or (SUnknownField usage (field_str field)) (bt_get field flds))
       (\<lambda>spec. if is_indexed spec then Inr () else Inl (FieldNotIndexed usage (field_str field)))"

fun check_filters ::
    "(field_name, field_spec) btree \<Rightarrow> field_name list \<Rightarrow> field_name list \<Rightarrow> schema_error + unit" where
  "check_filters flds seen [] = Inr ()"
| "check_filters flds seen (field # rest) =
     (if field \<in> set seen then Inl (SDuplicate ''filters'' (field_str field))
      else ok_then (require_indexed flds ''filters'' field)
             (\<lambda>_. check_filters flds (seen @ [field]) rest))"

fun check_sort ::
    "(field_name, field_spec) btree \<Rightarrow> sort_key list \<Rightarrow> sort_key list \<Rightarrow> schema_error + unit" where
  "check_sort flds seen [] = Inr ()"
| "check_sort flds seen (key # rest) =
     (if key \<in> set seen then Inl (SDuplicate ''sort'' (sort_key_to_string key))
      else ok_then (case key of SortField field \<Rightarrow> require_indexed flds ''sort'' field | SortSeq \<Rightarrow> Inr ())
             (\<lambda>_. check_sort flds (seen @ [key]) rest))"

definition collection_schema_new ::
    "collection_name \<Rightarrow> id_path \<Rightarrow> (field_name, field_spec) btree \<Rightarrow> field_name list \<Rightarrow> sort_key list
     \<Rightarrow> cache_spec \<Rightarrow> schema_error + collection_schema" where
  "collection_schema_new collection idp flds filters sorts cache =
     (if flds = [] then Inl NoFields
      else ok_then (for_each (\<lambda>ns. spec_validate (snd ns) (field_str (fst ns))) flds)
        (\<lambda>_. ok_then (check_filters flds [] filters)
        (\<lambda>_. ok_then (check_sort flds [] sorts)
        (\<lambda>_. Inr \<lparr>cs_collection = collection, cs_id = idp, cs_fields = flds, cs_filters = filters,
                  cs_sort = sorts, cs_cache = cache\<rparr>))))"

definition collection_schema_of_repr :: "collection_schema_repr \<Rightarrow> schema_error + collection_schema" where
  "collection_schema_of_repr r =
     collection_schema_new (repr_collection r) (repr_id r) (repr_fields r) (repr_filters r)
       (repr_sort r) (repr_cache r)"

section \<open>The set of collections\<close>

datatype schema_set = SchemaSet (set_entries: "(collection_name \<times> collection_schema) list")

fun schema_set_loop ::
    "collection_schema list \<Rightarrow> (collection_name, collection_schema) btree
     \<Rightarrow> schema_error + (collection_name, collection_schema) btree" where
  "schema_set_loop [] acc = Inr acc"
| "schema_set_loop (schema # rest) acc =
     (let name = cs_collection schema
      in if bt_get name acc \<noteq> None then Inl (DuplicateCollection (collection_str name))
         else schema_set_loop rest (bt_insert name schema acc))"

definition schema_set_new :: "collection_schema list \<Rightarrow> schema_error + schema_set" where
  "schema_set_new schemas = ok_then (schema_set_loop schemas []) (\<lambda>m. Inr (SchemaSet m))"

definition schema_set_get :: "schema_set \<Rightarrow> collection_name \<Rightarrow> collection_schema option" where
  "schema_set_get S c = bt_get c (set_entries S)"

definition schema_set_contains :: "schema_set \<Rightarrow> collection_name \<Rightarrow> bool" where
  "schema_set_contains S c \<longleftrightarrow> schema_set_get S c \<noteq> None"

definition schema_set_len :: "schema_set \<Rightarrow> nat" where
  "schema_set_len S = length (set_entries S)"

definition schema_set_is_empty :: "schema_set \<Rightarrow> bool" where
  "schema_set_is_empty S \<longleftrightarrow> set_entries S = []"

definition schema_set_iter :: "schema_set \<Rightarrow> (collection_name \<times> collection_schema) list" where
  "schema_set_iter S = set_entries S"


section \<open>Validation of field specifications\<close>

text \<open>The objects without an allow list, by path, in the order validation meets them.\<close>

fun empty_allow_paths :: "field_spec \<Rightarrow> rstr \<Rightarrow> rstr list" where
  "empty_allow_paths (SScalar _ _) path = []"
| "empty_allow_paths (SObject allow) path =
     (if allow = [] then [path]
      else concat (map (\<lambda>ns. empty_allow_paths (snd ns) (path @ lit ''.'' @ field_str (fst ns))) allow))"
| "empty_allow_paths (SArray items) path = empty_allow_paths items (path @ lit ''[]'')"

fun no_wildcard :: "field_spec \<Rightarrow> bool" where
  "no_wildcard (SScalar _ _) = True"
| "no_wildcard (SObject allow) = (allow \<noteq> [] \<and> list_all (\<lambda>ns. no_wildcard (snd ns)) allow)"
| "no_wildcard (SArray items) = no_wildcard items"

text \<open>What holds of every specification: allow lists are ordered maps at every level.\<close>

fun spec_ok :: "field_spec \<Rightarrow> bool" where
  "spec_ok (SScalar _ _) = True"
| "spec_ok (SObject allow) = (bt_ok allow \<and> list_all (\<lambda>ns. spec_ok (snd ns)) allow)"
| "spec_ok (SArray items) = spec_ok items"

lemma for_each_first:
  assumes "\<And>x. x \<in> set xs \<Longrightarrow> f x = (case g x of [] \<Rightarrow> Inr () | q # _ \<Rightarrow> Inl (h q))"
  shows "for_each f xs = (case concat (map g xs) of [] \<Rightarrow> Inr () | q # _ \<Rightarrow> Inl (h q))"
  using assms
proof (induction xs)
  case (Cons a xs)
  then have "for_each f xs = (case concat (map g xs) of [] \<Rightarrow> Inr () | q # _ \<Rightarrow> Inl (h q))"
    by simp
  with Cons.prems show ?case by (cases "g a") simp_all
qed simp

lemma spec_validate_paths:
  "spec_validate s p = (case empty_allow_paths s p of [] \<Rightarrow> Inr () | q # _ \<Rightarrow> Inl (ObjectWithoutAllowList q))"
proof (induction s p rule: spec_validate.induct)
  case (2 allow path)
  show ?case
  proof (cases "allow = []")
    case False
    then show ?thesis
      unfolding spec_validate.simps empty_allow_paths.simps
      using 2 by (simp add: for_each_first)
  qed simp
qed simp_all

lemma empty_allow_paths_Nil: "empty_allow_paths s p = [] \<longleftrightarrow> no_wildcard s"
  by (induction s p rule: empty_allow_paths.induct) (auto simp: list_all_iff)

lemma spec_validate_ok_iff: "spec_validate s p = Inr u \<longleftrightarrow> no_wildcard s"
  using empty_allow_paths_Nil[of s p] by (auto simp: spec_validate_paths split: list.splits)

section \<open>Validation of a collection definition\<close>

lemma is_indexed_iff: "is_indexed s \<longleftrightarrow> (\<exists>ty. s = SScalar ty True)"
  by (cases s) auto

definition indexed_field :: "(field_name, field_spec) btree \<Rightarrow> field_name \<Rightarrow> bool" where
  "indexed_field flds f \<longleftrightarrow> (case bt_get f flds of Some (SScalar ty True) \<Rightarrow> True | _ \<Rightarrow> False)"

lemma indexed_field_iff: "indexed_field flds f \<longleftrightarrow> (\<exists>ty. bt_get f flds = Some (SScalar ty True))"
  by (auto simp: indexed_field_def split: option.splits field_spec.splits bool.splits)

lemma require_indexed_ok: "require_indexed flds usage f = Inr u \<longleftrightarrow> indexed_field flds f"
  by (auto simp: require_indexed_def result_simps indexed_field_iff is_indexed_iff split: if_splits)

lemma check_filters_ok:
  "check_filters flds seen fs = Inr u \<longleftrightarrow>
     distinct fs \<and> set seen \<inter> set fs = {} \<and> list_all (indexed_field flds) fs"
  by (induction fs arbitrary: seen) (auto simp: result_simps require_indexed_ok)

definition sortable :: "(field_name, field_spec) btree \<Rightarrow> sort_key \<Rightarrow> bool" where
  "sortable flds k = (case k of SortSeq \<Rightarrow> True | SortField f \<Rightarrow> indexed_field flds f)"

lemma check_sort_ok:
  "check_sort flds seen ks = Inr u \<longleftrightarrow>
     distinct ks \<and> set seen \<inter> set ks = {} \<and> list_all (sortable flds) ks"
  by (induction ks arbitrary: seen)
     (auto simp: result_simps require_indexed_ok sortable_def split: sort_key.splits)

text \<open>The promise of a validated definition, as one predicate.\<close>

definition schema_valid :: "collection_schema \<Rightarrow> bool" where
  "schema_valid s \<longleftrightarrow>
     cs_fields s \<noteq> [] \<and> list_all (\<lambda>ns. no_wildcard (snd ns)) (cs_fields s) \<and>
     distinct (cs_filters s) \<and> list_all (indexed_field (cs_fields s)) (cs_filters s) \<and>
     distinct (cs_sort s) \<and> list_all (sortable (cs_fields s)) (cs_sort s)"

lemma collection_schema_new_iff:
  "collection_schema_new c i flds fl ks ca = Inr s \<longleftrightarrow>
     s = \<lparr>cs_collection = c, cs_id = i, cs_fields = flds, cs_filters = fl, cs_sort = ks, cs_cache = ca\<rparr>
     \<and> schema_valid s"
  by (auto simp: collection_schema_new_def result_simps spec_validate_ok_iff check_filters_ok
      check_sort_ok schema_valid_def list_all_iff)

section \<open>Declared forms\<close>

lemma spec_ok_extend:
  assumes "\<And>n s. (n, s) \<in> set entries \<Longrightarrow> spec_ok s"
  shows "spec_ok (SObject (bt_extend [] entries))"
  using assms bt_extend_set[of "[]" entries] by (force simp: bt_extend_ok list_all_iff)

lemma spec_of_repr_total: "\<exists>s. spec_of_repr r = Inr s \<and> spec_ok s"
proof (induction r)
  case (ReprObjectNames names)
  show ?case by (auto simp: spec_scalar_def simp del: spec_ok.simps(2) intro!: spec_ok_extend)
next
  case (ReprObjectSpecs specs)
  then have "\<forall>nr \<in> set specs. \<exists>s. spec_of_repr (snd nr) = Inr s \<and> spec_ok s"
    by (auto simp: snds.simps)
  then obtain g where g: "\<And>nr. nr \<in> set specs \<Longrightarrow> spec_of_repr (snd nr) = Inr (g nr) \<and> spec_ok (g nr)"
    by metis
  then have "traverse (\<lambda>nr. map_ok (\<lambda>spec. (fst nr, spec)) (spec_of_repr (snd nr))) specs
      = Inr (map (\<lambda>nr. (fst nr, g nr)) specs)"
    by (intro traverse_Inr_map) simp
  moreover have "spec_ok (SObject (bt_extend [] (map (\<lambda>nr. (fst nr, g nr)) specs)))"
    using g by (intro spec_ok_extend) auto
  ultimately show ?case by simp
next
  case (ReprArray r)
  then show ?case by auto
qed auto

section \<open>The set of collections\<close>

lemma schema_set_loop_ok:
  assumes "bt_ok acc"
  shows "schema_set_loop schemas acc = Inr m \<longleftrightarrow>
    distinct (map cs_collection schemas) \<and> (\<forall>s \<in> set schemas. bt_get (cs_collection s) acc = None) \<and>
    m = bt_extend acc (map (\<lambda>s. (cs_collection s, s)) schemas)"
  using assms
proof (induction schemas arbitrary: acc)
  case Nil
  then show ?case by (auto simp: bt_extend_def)
next
  case (Cons s schemas)
  have "bt_extend (bt_insert (cs_collection s) s acc) xs = bt_extend acc ((cs_collection s, s) # xs)" for xs
    by (simp add: bt_extend_def)
  with Cons show ?case
    by (auto simp: Let_def bt_insert_ok bt_get_insert image_iff split: if_splits)
qed

lemma schema_set_new_iff:
  "schema_set_new schemas = Inr S \<longleftrightarrow>
     distinct (map cs_collection schemas) \<and> S = SchemaSet (bt_extend [] (map (\<lambda>s. (cs_collection s, s)) schemas))"
  by (auto simp: schema_set_new_def result_simps schema_set_loop_ok bt_get_def)

lemma schema_set_new_get:
  assumes "schema_set_new schemas = Inr S"
  shows "schema_set_get S c = Some s \<longleftrightarrow> s \<in> set schemas \<and> cs_collection s = c"
proof -
  let ?kvs = "map (\<lambda>s. (cs_collection s, s)) schemas"
  from assms have d: "distinct (map fst ?kvs)" and S: "set_entries S = bt_extend [] ?kvs"
    by (auto simp: schema_set_new_iff comp_def)
  have "schema_set_get S c = map_of (rev ?kvs) c"
    by (simp add: schema_set_get_def S bt_get_extend) (simp add: bt_get_def split: option.split)
  moreover have "distinct (map fst (rev ?kvs))" using d by (simp add: rev_map [symmetric])
  ultimately show ?thesis by (auto simp: map_of_eq_Some_iff)
qed

section \<open>Id paths and sort keys\<close>

lemma field_name_new_iff:
  "field_name_new v = Inr f \<longleftrightarrow>
     f = FieldName v \<and> v \<noteq> [] \<and> byte_len v \<le> MAX_NAME_LEN \<and> (\<forall>c \<in> set v. \<not> field_char_refused c)"
proof (cases "find field_char_refused v")
  case None
  then have "\<forall>c \<in> set v. \<not> field_char_refused c" by (auto simp: find_None_iff)
  with None show ?thesis by (auto simp: field_name_new_def)
next
  case (Some c)
  then have "\<exists>c \<in> set v. field_char_refused c" by (auto dest: find_SomeD)
  with Some show ?thesis by (auto simp: field_name_new_def)
qed

lemma field_ok_no_dot: "field_ok f \<Longrightarrow> 46 \<notin> set (field_str f)"
  by (auto simp: field_ok_def field_name_new_iff field_char_refused_def)

lemma split_on_segments:
  "list_all field_ok (s # segs) \<Longrightarrow>
     split_on 46 (field_str s @ concat (map (\<lambda>seg. lit ''.'' @ field_str seg) segs)) = map field_str (s # segs)"
proof (induction segs arbitrary: s)
  case Nil
  then show ?case by (simp add: split_on_no_sep field_ok_no_dot)
next
  case (Cons t segs)
  then show ?case by (simp add: split_on_append field_ok_no_dot)
qed

lemma id_path_roundtrip:
  assumes "id_path_ok p"
  shows "id_path_from_str (id_path_to_string p) = Inr p"
proof -
  obtain s segs where p: "p = IdPath (s # segs)" and ok: "list_all field_ok (s # segs)"
    using assms by (cases p; cases "segments p") (auto simp: id_path_ok_def)
  have "traverse field_name_new (map field_str (s # segs)) = Inr (s # segs)"
    using ok by (auto simp: traverse_ok_iff list_all2_conv_all_nth list_all_length field_ok_def nth_Cons
        simp del: traverse.simps split: nat.splits)
  then show ?thesis
    using split_on_segments[OF ok]
    by (simp add: id_path_from_str_def id_path_to_string_def p id_path_new_def del: split_on.simps traverse.simps)
qed

end
