(* ===== verification/Projection.thy ===== *)
theory Projection
  imports Schema
begin

text \<open>
  \<open>crates/core/src/projection.rs\<close>: the projection engine. The code's \<open>&mut Vec<DroppedField>\<close> is an
  argument and a result; the kept object is built by insertion, as the code does.

  The reference definitions \<open>released\<close> and \<open>report\<close> say what survives and what is reported
  without any state; the engine is shown to compute exactly these.
\<close>

section \<open>The engine\<close>

datatype drop_reason = UnknownKey | TypeMismatch string string

record dropped_field =
  df_path :: rstr
  df_reason :: drop_reason

record projection =
  pj_payload :: json
  pj_dropped :: "dropped_field list"

definition projection_is_complete :: "projection \<Rightarrow> bool" where
  "projection_is_complete p \<longleftrightarrow> pj_dropped p = []"

datatype projection_error = PayloadNotAnObject string

definition mismatch :: "rstr \<Rightarrow> string \<Rightarrow> json \<Rightarrow> dropped_field" where
  "mismatch path expected value = \<lparr>df_path = path, df_reason = TypeMismatch expected (kind_of value)\<rparr>"

definition child_path :: "rstr \<Rightarrow> rstr \<Rightarrow> rstr" where
  "child_path prefix key = (if prefix = [] then key else prefix @ lit ''.'' @ key)"

definition element_path :: "rstr \<Rightarrow> nat \<Rightarrow> rstr" where
  "element_path path index = path @ lit ''['' @ dec index @ lit '']''"

definition lookup_field :: "rstr \<Rightarrow> (field_name, field_spec) btree \<Rightarrow> field_spec option" where
  "lookup_field key allow = bt_get (FieldName key) allow"

function project_object ::
    "(field_name, field_spec) btree \<Rightarrow> (rstr \<times> json) list \<Rightarrow> rstr \<Rightarrow> (rstr, json) btree
     \<Rightarrow> dropped_field list \<Rightarrow> (rstr, json) btree \<times> dropped_field list"
and project_value ::
    "field_spec \<Rightarrow> json \<Rightarrow> rstr \<Rightarrow> dropped_field list \<Rightarrow> json option \<times> dropped_field list"
and project_elements ::
    "field_spec \<Rightarrow> json list \<Rightarrow> nat \<Rightarrow> rstr \<Rightarrow> json list \<Rightarrow> dropped_field list
     \<Rightarrow> json list \<times> dropped_field list"
where
  "project_object allow [] prefix kept dropped = (kept, dropped)"
| "project_object allow ((key, value) # input) prefix kept dropped =
     (let path = child_path prefix key
      in case lookup_field key allow of
           None \<Rightarrow> project_object allow input prefix kept
                     (dropped @ [\<lparr>df_path = path, df_reason = UnknownKey\<rparr>])
         | Some spec \<Rightarrow>
             (case project_value spec value path dropped of
                (None, dropped') \<Rightarrow> project_object allow input prefix kept dropped'
              | (Some v, dropped') \<Rightarrow> project_object allow input prefix (bt_insert key v kept) dropped'))"
| "project_value (SScalar ty index) value path dropped =
     (if accepts ty value then (Some value, dropped)
      else (None, dropped @ [mismatch path (spec_kind (SScalar ty index)) value]))"
| "project_value (SObject allow) value path dropped =
     (case value of
        JObject object \<Rightarrow>
          (case project_object allow object path [] dropped of (kept, dropped') \<Rightarrow> (Some (JObject kept), dropped'))
      | _ \<Rightarrow> (None, dropped @ [mismatch path (spec_kind (SObject allow)) value]))"
| "project_value (SArray items) value path dropped =
     (case value of
        JArray elements \<Rightarrow>
          (case project_elements items elements 0 path [] dropped of (kept, dropped') \<Rightarrow> (Some (JArray kept), dropped'))
      | _ \<Rightarrow> (None, dropped @ [mismatch path (spec_kind (SArray items)) value]))"
| "project_elements items [] index path kept dropped = (kept, dropped)"
| "project_elements items (element # elements) index path kept dropped =
     (case project_value items element (element_path path index) dropped of
        (None, dropped') \<Rightarrow> project_elements items elements (Suc index) path kept dropped'
      | (Some v, dropped') \<Rightarrow> project_elements items elements (Suc index) path (kept @ [v]) dropped')"
  by pat_completeness auto
termination
  by (relation "measure (\<lambda>x. case x of
      Inl (allow, m, _) \<Rightarrow> size_list (size_prod (\<lambda>_. 0) size) m
    | Inr (Inl (s, v, _)) \<Rightarrow> size v
    | Inr (Inr (s, vs, _)) \<Rightarrow> size_list size vs)") auto

definition project :: "collection_schema \<Rightarrow> json \<Rightarrow> projection_error + projection" where
  "project schema payload =
     ok_then (ok_or (PayloadNotAnObject (kind_of payload)) (as_object payload))
       (\<lambda>object.
          (case project_object (cs_fields schema) object [] [] [] of
             (kept, dropped) \<Rightarrow> Inr \<lparr>pj_payload = JObject kept, pj_dropped = dropped\<rparr>))"

section \<open>Reference definitions\<close>

fun released :: "field_spec \<Rightarrow> json \<Rightarrow> json option" where
  "released (SScalar ty _) v = (if accepts ty v then Some v else None)"
| "released (SObject allow) v =
     (case v of
        JObject m \<Rightarrow> Some (JObject (List.map_filter (\<lambda>kv.
            (case lookup_field (fst kv) allow of
               None \<Rightarrow> None
             | Some spec \<Rightarrow> map_option (Pair (fst kv)) (released spec (snd kv)))) m))
      | _ \<Rightarrow> None)"
| "released (SArray items) v =
     (case v of JArray vs \<Rightarrow> Some (JArray (List.map_filter (released items) vs)) | _ \<Rightarrow> None)"

definition released_entry :: "(field_name, field_spec) btree \<Rightarrow> rstr \<times> json \<Rightarrow> (rstr \<times> json) option" where
  "released_entry allow kv =
     (case lookup_field (fst kv) allow of
        None \<Rightarrow> None
      | Some spec \<Rightarrow> map_option (Pair (fst kv)) (released spec (snd kv)))"

function report :: "field_spec \<Rightarrow> json \<Rightarrow> rstr \<Rightarrow> dropped_field list" where
  "report (SScalar ty i) v path = (if accepts ty v then [] else [mismatch path (spec_kind (SScalar ty i)) v])"
| "report (SObject allow) v path =
     (case v of
        JObject m \<Rightarrow> concat (map (\<lambda>kv.
            (case lookup_field (fst kv) allow of
               None \<Rightarrow> [\<lparr>df_path = child_path path (fst kv), df_reason = UnknownKey\<rparr>]
             | Some spec \<Rightarrow> report spec (snd kv) (child_path path (fst kv)))) m)
      | _ \<Rightarrow> [mismatch path (spec_kind (SObject allow)) v])"
| "report (SArray items) v path =
     (case v of
        JArray vs \<Rightarrow> concat (map (\<lambda>iv. report items (snd iv) (element_path path (fst iv))) (enumerate 0 vs))
      | _ \<Rightarrow> [mismatch path (spec_kind (SArray items)) v])"
  by pat_completeness auto
termination
proof (relation "measure (\<lambda>(s, v, path). size v)", goal_cases)
  case (2 allow v path m kv spec)
  then show ?case by (cases kv) (auto simp: less_Suc_eq_le intro!: size_list_estimation'[of kv])
next
  case (3 items v path vs iv)
  then have "snd iv \<in> set vs" by (cases iv) (auto simp: enumerate_eq_zip dest: set_zip_rightD)
  with 3 show ?case by (auto simp: less_Suc_eq_le intro!: size_list_estimation')
qed simp

definition report_entry :: "(field_name, field_spec) btree \<Rightarrow> rstr \<Rightarrow> rstr \<times> json \<Rightarrow> dropped_field list" where
  "report_entry allow prefix kv =
     (case lookup_field (fst kv) allow of
        None \<Rightarrow> [\<lparr>df_path = child_path prefix (fst kv), df_reason = UnknownKey\<rparr>]
      | Some spec \<Rightarrow> report spec (snd kv) (child_path prefix (fst kv)))"

lemma released_object: "released (SObject allow) (JObject m) = Some (JObject (List.map_filter (released_entry allow) m))"
  by (simp add: released_entry_def [abs_def])

lemma report_object: "report (SObject allow) (JObject m) path = concat (map (report_entry allow path) m)"
  by (simp add: report_entry_def [abs_def])

text \<open>The engine computes the reference, on documents whose objects are ordered maps.\<close>

lemma project_engine:
  "list_all (\<lambda>kv. json_ok (snd kv)) m \<Longrightarrow> bt_ok m \<Longrightarrow>
     (\<forall>a \<in> fst ` set kept. \<forall>b \<in> fst ` set m. a < b) \<Longrightarrow>
     project_object allow m prefix kept d =
       (kept @ List.map_filter (released_entry allow) m, d @ concat (map (report_entry allow prefix) m))"
  and "json_ok v \<Longrightarrow> project_value s v path d = (released s v, d @ report s v path)"
  and "list_all json_ok vs \<Longrightarrow> project_elements s vs i path vkept d =
     (vkept @ List.map_filter (released s) vs,
      d @ concat (map (\<lambda>iv. report s (snd iv) (element_path path (fst iv))) (enumerate i vs)))"
proof (induction allow m "prefix" kept d and s v path d and s vs i path vkept d rule: project_object_project_value_project_elements.induct)
  case (2 allow key x input pre kept dropped)
  then have keys: "\<forall>a \<in> fst ` set kept. a < key" and ok: "bt_ok input"
    and gt: "\<forall>b \<in> fst ` set input. key < b"
    by (auto simp: bt_ok_def)
  show ?case
  proof (cases "lookup_field key allow")
    case None
    with 2 ok show ?thesis by (simp add: Let_def released_entry_def report_entry_def)
  next
    case sp: (Some spec)
    then have v: "project_value spec x (child_path pre key) dropped =
        (released spec x, dropped @ report spec x (child_path pre key))"
      using 2 by simp
    show ?thesis
    proof (cases "released spec x")
      case None
      with sp v 2 ok show ?thesis by (simp add: Let_def released_entry_def report_entry_def)
    next
      case (Some w)
      have ins: "bt_insert key w kept = kept @ [(key, w)]" using keys by (intro bt_insert_last) auto
      have "project_object allow input pre (bt_insert key w kept) (dropped @ report spec x (child_path pre key)) =
          (bt_insert key w kept @ List.map_filter (released_entry allow) input,
           (dropped @ report spec x (child_path pre key)) @ concat (map (report_entry allow pre) input))"
        using 2 ok gt keys ins by (intro "2.IH"(4)[OF refl sp v[symmetric] Some]) auto
      then show ?thesis using sp v Some ins
        by (simp add: Let_def released_entry_def[of allow "(key, x)"] report_entry_def[of allow pre "(key, x)"])
    qed
  qed
next
  case (4 allow x path dropped)
  then show ?case
    by (cases x) (simp_all add: released_entry_def [abs_def] report_entry_def [abs_def])
next
  case (5 items x path dropped)
  then show ?case by (cases x) simp_all
next
  case (7 items element elements index path kept dropped)
  then show ?case by (cases "released items element") simp_all
qed simp_all

end
