(* ===== verification/Sample.thy ===== *)
theory Sample
  imports Projection
begin

text \<open>
  A small shop collection and a document sent to it, the concrete input the witnesses of this
  development evaluate: an indexed key, a nested object, a list of objects, and a document that
  carries undeclared members and a mistyped one at several depths.
\<close>

definition fname :: "string \<Rightarrow> field_name" where "fname s = FieldName (lit s)"

definition maker_spec :: field_spec where
  "maker_spec = SObject [(fname ''city'', SScalar TString False), (fname ''name'', SScalar TAny False)]"

definition shop_fields :: "(field_name \<times> field_spec) list" where
  "shop_fields =
     [(fname ''maker'', maker_spec),
      (fname ''price'', SScalar TNumber False),
      (fname ''sku'', SScalar TString True),
      (fname ''stock'', SScalar TNumber True),
      (fname ''tags'', SArray (SScalar TString False))]"

definition shop_schema :: collection_schema where
  "shop_schema =
     \<lparr>cs_collection = CollectionName (lit ''products''), cs_id = IdPath [fname ''sku''],
      cs_fields = shop_fields, cs_filters = [fname ''sku'', fname ''stock''], cs_sort = [SortSeq],
      cs_cache = cache_spec_default\<rparr>"

definition shop_payload :: json where
  "shop_payload = JObject
     [(lit ''cost'', JNumber (PosInt 12)),
      (lit ''maker'', JObject [(lit ''iban'', JString (lit ''DE00'')), (lit ''name'', JString (lit ''Oak''))]),
      (lit ''price'', JNumber (PosInt 49)),
      (lit ''sku'', JString (lit ''SW1'')),
      (lit ''stock'', JString (lit ''many'')),
      (lit ''tags'', JArray [JString (lit ''new''), JNull])]"

definition shop_released :: json where
  "shop_released = JObject
     [(lit ''maker'', JObject [(lit ''name'', JString (lit ''Oak''))]),
      (lit ''price'', JNumber (PosInt 49)),
      (lit ''sku'', JString (lit ''SW1'')),
      (lit ''tags'', JArray [JString (lit ''new'')])]"

definition shop_dropped :: "dropped_field list" where
  "shop_dropped =
     [\<lparr>df_path = lit ''cost'', df_reason = UnknownKey\<rparr>,
      \<lparr>df_path = lit ''maker.iban'', df_reason = UnknownKey\<rparr>,
      \<lparr>df_path = lit ''stock'', df_reason = TypeMismatch ''number'' ''string''\<rparr>,
      \<lparr>df_path = lit ''tags[1]'', df_reason = TypeMismatch ''string'' ''null''\<rparr>]"

lemma shop_project:
  "project shop_schema shop_payload = Inr \<lparr>pj_payload = shop_released, pj_dropped = shop_dropped\<rparr>"
  by code_simp

lemma shop_payload_ok: "json_ok shop_payload"
  by code_simp

end
