(* ===== verification/Projection_Facts.thy ===== *)
theory Projection_Facts
  imports Sample "HOL-Library.Sublist"
begin

text \<open>
  What projection promises, at every depth of a document: the kept part conforms to the declared
  fields, is part of what was sent and is the largest such part; a document that already conforms
  passes unchanged and is the only kind that is reported complete.
\<close>

section \<open>Conforming documents\<close>

fun conforms :: "field_spec \<Rightarrow> json \<Rightarrow> bool" where
  "conforms (SScalar ty _) v = accepts ty v"
| "conforms (SObject allow) v =
     (case v of
        JObject m \<Rightarrow> list_all (\<lambda>kv.
            (case lookup_field (fst kv) allow of None \<Rightarrow> False | Some spec \<Rightarrow> conforms spec (snd kv))) m
      | _ \<Rightarrow> False)"
| "conforms (SArray items) v = (case v of JArray vs \<Rightarrow> list_all (conforms items) vs | _ \<Rightarrow> False)"

lemma map_filter_Some_iff: "y \<in> set (List.map_filter f xs) \<longleftrightarrow> (\<exists>x \<in> set xs. f x = Some y)"
  by (force simp: set_map_filter)

lemma released_entry_Some:
  "released_entry allow kv = Some kw \<longleftrightarrow>
     (\<exists>spec w. lookup_field (fst kv) allow = Some spec \<and> released spec (snd kv) = Some w \<and> kw = (fst kv, w))"
  by (auto simp: released_entry_def split: option.splits)

lemma released_object_Some:
  "released (SObject allow) v = Some w \<longleftrightarrow>
     (\<exists>m. v = JObject m \<and> w = JObject (List.map_filter (released_entry allow) m))"
  by (cases v) (auto simp: released_object simp del: released.simps(2), simp_all)

lemma released_array_Some:
  "released (SArray items) v = Some w \<longleftrightarrow>
     (\<exists>vs. v = JArray vs \<and> w = JArray (List.map_filter (released items) vs))"
  by (cases v) auto

lemma released_conforms: "released s v = Some w \<Longrightarrow> conforms s w"
proof (induction s v arbitrary: w rule: released.induct)
  case (1 ty i v)
  then show ?case by (simp split: if_splits)
next
  case (2 allow v)
  from "2.prems" obtain m where v: "v = JObject m"
    and w: "w = JObject (List.map_filter (released_entry allow) m)"
    unfolding released_object_Some by blast
  show ?case
    unfolding w using "2.IH"[OF v]
    by (auto simp: list_all_iff map_filter_Some_iff released_entry_Some)
next
  case (3 items v)
  then obtain vs where "v = JArray vs" by (cases v) auto
  with 3 show ?case by (auto simp: list_all_iff map_filter_Some_iff)
qed

lemma conforms_released: "conforms s v \<Longrightarrow> released s v = Some v"
proof (induction s v rule: conforms.induct)
  case (2 allow v)
  then obtain m where v: "v = JObject m" by (cases v) auto
  have "List.map_filter (released_entry allow) m = m"
    using 2 v by (intro map_filter_id) (auto simp: list_all_iff released_entry_Some split: option.splits)
  then show ?case unfolding v released_object by simp
next
  case (3 items v)
  then obtain vs where v: "v = JArray vs" by (cases v) auto
  have "List.map_filter (released items) vs = vs"
    using 3 v by (intro map_filter_id) (auto simp: list_all_iff)
  then show ?case by (simp add: v)
qed simp

lemma released_idem: "released s v = Some w \<Longrightarrow> released s w = Some w"
  by (rule conforms_released) (rule released_conforms)

text \<open>A document is reported complete exactly when it conforms.\<close>

lemma report_Nil: "report s v p = [] \<longleftrightarrow> conforms s v"
proof (induction s v p rule: report.induct)
  case (2 allow v path)
  then show ?case
    by (cases v) (fastforce simp: list_all_iff split: option.splits)+
next
  case (3 items v path)
  show ?case
  proof (cases v)
    case (JArray vs)
    have "(\<forall>iv \<in> set (enumerate 0 vs). report items (snd iv) (element_path path (fst iv)) = [])
        \<longleftrightarrow> (\<forall>iv \<in> set (enumerate 0 vs). conforms items (snd iv))"
      using 3 JArray by blast
    also have "\<dots> \<longleftrightarrow> (\<forall>x \<in> snd ` set (enumerate 0 vs). conforms items x)" by simp
    also have "snd ` set (enumerate 0 vs) = set vs"
      by (metis list.set_map map_snd_enumerate)
    finally show ?thesis by (simp add: JArray list_all_iff)
  qed simp_all
qed simp

lemma released_json_ok: "json_ok v \<Longrightarrow> released s v = Some w \<Longrightarrow> json_ok w"
proof (induction s v arbitrary: w rule: released.induct)
  case (2 allow v)
  from "2.prems"(2) obtain m where v: "v = JObject m"
    and w: "w = JObject (List.map_filter (released_entry allow) m)"
    unfolding released_object_Some by blast
  have "bt_ok (List.map_filter (released_entry allow) m)"
    using 2 v by (intro bt_ok_map_filter) (auto simp: released_entry_Some)
  then show ?case
    using 2 v unfolding w
    by (auto simp: list_all_iff map_filter_Some_iff released_entry_Some)
next
  case (3 items v)
  then obtain vs where "v = JArray vs" by (cases v) auto
  with 3 show ?case by (auto simp: list_all_iff map_filter_Some_iff)
qed (auto split: if_splits)

section \<open>Parts of a document\<close>

text \<open>
  \<open>part_of w v\<close>: \<open>w\<close> is \<open>v\<close> with some object members and array elements removed, at any depth,
  and nothing added, changed or moved.
\<close>

inductive part_of :: "json \<Rightarrow> json \<Rightarrow> bool" where
  part_refl: "part_of v v"
| part_object: "list_emb (\<lambda>a b. fst a = fst b \<and> part_of (snd a) (snd b)) ms ns
    \<Longrightarrow> part_of (JObject ms) (JObject ns)"
| part_array: "list_emb part_of vs ws \<Longrightarrow> part_of (JArray vs) (JArray ws)"
monos list_emb_mono

abbreviation entry_part :: "rstr \<times> json \<Rightarrow> rstr \<times> json \<Rightarrow> bool" where
  "entry_part a b \<equiv> fst a = fst b \<and> part_of (snd a) (snd b)"

inductive_cases part_of_objectE: "part_of w (JObject ns)"
inductive_cases part_of_arrayE: "part_of w (JArray ns)"

lemma part_of_object_iff: "part_of w (JObject ns) \<longleftrightarrow> (\<exists>ms. w = JObject ms \<and> list_emb entry_part ms ns)"
  by (auto elim!: part_of_objectE intro: part_object list_emb_refl part_refl)

lemma part_of_array_iff: "part_of w (JArray ws) \<longleftrightarrow> (\<exists>vs. w = JArray vs \<and> list_emb part_of vs ws)"
  by (auto elim!: part_of_arrayE intro: part_array list_emb_refl part_refl)

lemma part_of_scalar: "\<not> is_object v \<Longrightarrow> \<not> is_array v \<Longrightarrow> part_of w v \<longleftrightarrow> w = v"
  by (auto elim: part_of.cases intro: part_refl simp: is_object_def is_array_def)

lemma accepts_scalar: "accepts ty v \<Longrightarrow> \<not> is_object v \<and> \<not> is_array v"
  by (cases ty; cases v) (auto simp: is_object_def is_array_def is_string_def is_number_def is_boolean_def)

lemma list_emb_map_filter:
  assumes "\<And>y z. y \<in> set ys \<Longrightarrow> f y = Some z \<Longrightarrow> R z y"
  shows "list_emb R (List.map_filter f ys) ys"
  using assms
proof (induction ys)
  case (Cons a ys)
  then have "list_emb R (List.map_filter f ys) ys" by simp
  with Cons.prems[of a] show ?case by (cases "f a") auto
qed simp

lemma list_emb_into_map_filter:
  "list_emb R xs ys \<Longrightarrow>
     (\<And>x y. x \<in> set xs \<Longrightarrow> y \<in> set ys \<Longrightarrow> R x y \<Longrightarrow> \<exists>z. f y = Some z \<and> R x z) \<Longrightarrow>
     list_emb R xs (List.map_filter f ys)"
proof (induction rule: list_emb.induct)
  case (list_emb_Cons xs ys y)
  then have "list_emb R xs (List.map_filter f ys)" by simp
  then show ?case by (cases "f y") auto
next
  case (list_emb_Cons2 x y xs ys)
  then have "list_emb R xs (List.map_filter f ys)" by simp
  moreover obtain z where "f y = Some z" "R x z" using list_emb_Cons2.prems list_emb_Cons2.hyps by force
  ultimately show ?case by auto
qed auto

lemma released_part_of: "released s v = Some w \<Longrightarrow> part_of w v"
proof (induction s v arbitrary: w rule: released.induct)
  case (2 allow v)
  from "2.prems" obtain m where v: "v = JObject m"
    and w: "w = JObject (List.map_filter (released_entry allow) m)"
    unfolding released_object_Some by blast
  have "list_emb entry_part (List.map_filter (released_entry allow) m) m"
    using "2.IH"[OF v] by (intro list_emb_map_filter) (auto simp: released_entry_Some)
  then show ?case unfolding v w by (rule part_object)
next
  case (3 items v)
  from "3.prems" obtain vs where v: "v = JArray vs" unfolding released_array_Some by blast
  have "list_emb part_of (List.map_filter (released items) vs) vs"
    using "3.IH"[OF v] by (intro list_emb_map_filter) auto
  with 3 v show ?case by (auto intro: part_array)
qed (auto intro: part_refl split: if_splits)

lemma released_greatest: "conforms s w \<Longrightarrow> part_of w v \<Longrightarrow> \<exists>u. released s v = Some u \<and> part_of w u"
proof (induction s v arbitrary: w rule: released.induct)
  case (1 ty i v)
  then have "v = w"
    by (auto elim!: part_of.cases dest: accepts_scalar simp: is_object_def is_array_def)
  with 1 show ?case by (auto intro: part_refl)
next
  case (2 allow v)
  from \<open>conforms (SObject allow) w\<close> obtain ms where w: "w = JObject ms" by (cases w) auto
  with \<open>part_of w v\<close> obtain ns where v: "v = JObject ns" by (cases v) (auto elim: part_of.cases)
  have emb: "list_emb entry_part ms ns" using 2 w v by (simp add: part_of_object_iff)
  have "list_emb entry_part ms (List.map_filter (released_entry allow) ns)"
  proof (rule list_emb_into_map_filter[OF emb])
    fix x y assume x: "x \<in> set ms" and y: "y \<in> set ns" and R: "entry_part x y"
    from x 2 w obtain spec where sp: "lookup_field (fst x) allow = Some spec" "conforms spec (snd x)"
      by (auto simp: list_all_iff split: option.splits)
    with "2.IH"[OF v y, of spec "snd x"] R show "\<exists>z. released_entry allow y = Some z \<and> entry_part x z"
      by (auto simp: released_entry_Some)
  qed
  then show ?case unfolding v w released_object by (auto intro: part_object)
next
  case (3 items v)
  from \<open>conforms (SArray items) w\<close> obtain ms where w: "w = JArray ms" by (cases w) auto
  with \<open>part_of w v\<close> obtain ns where v: "v = JArray ns" by (cases v) (auto elim: part_of.cases)
  have emb: "list_emb part_of ms ns" using 3 w v by (simp add: part_of_array_iff)
  have "list_emb part_of ms (List.map_filter (released items) ns)"
    using 3 w v by (intro list_emb_into_map_filter[OF emb]) (auto simp: list_all_iff)
  then show ?case by (auto simp: v w intro: part_array)
qed

section \<open>The projection of a payload\<close>

text \<open>Conformance of a whole document to a collection's declared fields.\<close>

definition document_conforms :: "collection_schema \<Rightarrow> json \<Rightarrow> bool" where
  "document_conforms schema v = conforms (SObject (cs_fields schema)) v"

lemma project_eq:
  "json_ok v \<Longrightarrow> project schema v =
     (case v of
        JObject m \<Rightarrow> Inr \<lparr>pj_payload = JObject (List.map_filter (released_entry (cs_fields schema)) m),
                         pj_dropped = concat (map (report_entry (cs_fields schema) []) m)\<rparr>
      | _ \<Rightarrow> Inl (PayloadNotAnObject (kind_of v)))"
  by (cases v) (simp_all add: project_def result_simps project_engine)

lemma project_released:
  assumes "json_ok v" "project schema v = Inr p"
  shows "released (SObject (cs_fields schema)) v = Some (pj_payload p)"
    and "report (SObject (cs_fields schema)) v [] = pj_dropped p"
  using assms by (cases v; auto simp: project_eq released_object report_object simp del: released.simps report.simps)+

lemma project_of_released:
  assumes "json_ok v" "released (SObject (cs_fields schema)) v = Some w"
  shows "project schema v = Inr \<lparr>pj_payload = w, pj_dropped = report (SObject (cs_fields schema)) v []\<rparr>"
proof -
  from assms obtain m where "v = JObject m" "w = JObject (List.map_filter (released_entry (cs_fields schema)) m)"
    unfolding released_object_Some by blast
  with assms show ?thesis by (simp add: project_eq report_object del: report.simps)
qed

lemma project_conforms_released:
  assumes "json_ok v" "project schema v = Inr p"
  shows "document_conforms schema (pj_payload p)" "json_ok (pj_payload p)"
  using project_released[OF assms] released_conforms released_json_ok assms(1)
  unfolding document_conforms_def by blast+

text \<open>C39: The engine computes the reference: the kept document is the released part of every declared
  member, the report lists every refused member in document order, and only a payload that is not an
  object is an error.\<close>

theorem project_reference:
  assumes "json_ok payload"
  shows "project schema payload =
    (case payload of
       JObject m \<Rightarrow> Inr \<lparr>pj_payload = JObject (List.map_filter (released_entry (cs_fields schema)) m),
                        pj_dropped = concat (map (report_entry (cs_fields schema) []) m)\<rparr>
     | _ \<Rightarrow> Inl (PayloadNotAnObject (kind_of payload)))"
  using assms by (rule project_eq)

lemma project_reference_witness:
  "project shop_schema shop_payload = Inr \<lparr>pj_payload = shop_released, pj_dropped = shop_dropped\<rparr> \<and>
   shop_dropped = concat (map (report_entry shop_fields []) (the (as_object shop_payload)))"
  using project_reference[OF shop_payload_ok, of shop_schema] shop_project
  by (simp add: shop_payload_def shop_schema_def)

text \<open>C4: Nothing undeclared survives: at every depth of a projected document each key is a declared
  field and each value has its declared type.\<close>

theorem project_conforms:
  assumes "json_ok payload" and "project schema payload = Inr p"
  shows "document_conforms schema (pj_payload p)"
  using assms by (rule project_conforms_released)

lemma project_conforms_witness: "document_conforms shop_schema shop_released \<and> \<not> document_conforms shop_schema shop_payload"
  using project_conforms[OF shop_payload_ok shop_project] by simp code_simp

text \<open>C13: Projection removes and never adds or changes: its result is part of the payload, and every
  other part of the payload that conforms to the collection's fields is part of the result.\<close>

theorem project_greatest_part:
  assumes "json_ok payload" and "project schema payload = Inr p"
  shows "part_of (pj_payload p) payload \<and>
    (\<forall>w. document_conforms schema w \<longrightarrow> part_of w payload \<longrightarrow> part_of w (pj_payload p))"
  using project_released(1)[OF assms] released_part_of released_greatest
  unfolding document_conforms_def by fastforce

lemma project_greatest_part_witness:
  "part_of shop_released shop_payload \<and> part_of (JObject [(lit ''price'', JNumber (PosInt 49))]) shop_released"
proof
  show "part_of shop_released shop_payload"
    using project_greatest_part[OF shop_payload_ok shop_project] by simp
  have "document_conforms shop_schema (JObject [(lit ''price'', JNumber (PosInt 49))])" by code_simp
  moreover have "part_of (JObject [(lit ''price'', JNumber (PosInt 49))]) shop_payload"
    unfolding shop_payload_def by (auto simp: part_of_object_iff intro: part_refl)
  ultimately show "part_of (JObject [(lit ''price'', JNumber (PosInt 49))]) shop_released"
    using project_greatest_part[OF shop_payload_ok shop_project] by simp
qed

text \<open>Projection is idempotent: projecting a projected document keeps all of it and reports
  nothing.\<close>

theorem project_idempotent:
  assumes "json_ok payload" and "project schema payload = Inr p"
  shows "project schema (pj_payload p) = Inr \<lparr>pj_payload = pj_payload p, pj_dropped = []\<rparr>"
proof -
  note conf = project_conforms_released[OF assms, unfolded document_conforms_def]
  from conf(1) have "report (SObject (cs_fields schema)) (pj_payload p) [] = []" by (simp only: report_Nil)
  with project_of_released[OF conf(2) conforms_released[OF conf(1)]] show ?thesis by simp
qed

lemma project_idempotent_witness:
  "project shop_schema shop_released = Inr \<lparr>pj_payload = shop_released, pj_dropped = []\<rparr>"
  using project_idempotent[OF shop_payload_ok shop_project] by simp

text \<open>Nothing is dropped silently: the report is empty exactly when the whole payload was kept.\<close>

theorem project_complete_iff:
  assumes "json_ok payload" and "project schema payload = Inr p"
  shows "projection_is_complete p \<longleftrightarrow> pj_payload p = payload"
proof -
  have "projection_is_complete p \<longleftrightarrow> conforms (SObject (cs_fields schema)) payload"
    by (simp only: projection_is_complete_def project_released(2)[OF assms, symmetric] report_Nil)
  also have "\<dots> \<longleftrightarrow> pj_payload p = payload"
    using project_released(1)[OF assms] released_conforms conforms_released by fastforce
  finally show ?thesis .
qed

lemma project_complete_iff_witness: "\<not> projection_is_complete \<lparr>pj_payload = shop_released, pj_dropped = shop_dropped\<rparr>"
proof -
  have "shop_released \<noteq> shop_payload" by code_simp
  then show ?thesis using project_complete_iff[OF shop_payload_ok shop_project] by simp
qed

end
