(* ===== verification/Query_Filter.thy ===== *)
theory Query_Filter
  imports Projection_Facts
begin

text \<open>
  \<open>crates/core/src/filter.rs\<close>: equality filters on declared fields. A query string gives text; the
  filter holds values of the declared type.
\<close>

datatype filter_error =
    UnknownField rstr
  | NotFilterable rstr
  | NotTheDeclaredType rstr string rstr
  | FilterDuplicate rstr

datatype query_filter = Filter (filter_entries: "(rstr \<times> json) list")

definition coerce :: "rstr \<Rightarrow> field_spec \<Rightarrow> rstr \<Rightarrow> filter_error + json" where
  "coerce field spec value =
     (case spec of
        SScalar TString _ \<Rightarrow> Inr (JString value)
      | SScalar TAny _ \<Rightarrow> Inr (JString value)
      | SScalar TBoolean _ \<Rightarrow>
          (if value = lit ''true'' then Inr (JBool True)
           else if value = lit ''false'' then Inr (JBool False)
           else Inl (NotTheDeclaredType field ''boolean'' value))
      | SScalar TNumber _ \<Rightarrow>
          (case parse_i64 value of
             Some integer \<Rightarrow> Inr (JNumber (number_of_i64 integer))
           | None \<Rightarrow>
               ok_or (NotTheDeclaredType field ''number'' value)
                 (map_option JNumber (Option.bind (parse_f64 value) number_of_f64)))
      | SObject _ \<Rightarrow> Inl (NotTheDeclaredType field ''object'' value)
      | SArray _ \<Rightarrow> Inl (NotTheDeclaredType field ''array'' value))"

fun filter_parse_loop ::
    "collection_schema \<Rightarrow> (rstr \<times> rstr) list \<Rightarrow> (rstr, json) btree \<Rightarrow> filter_error + query_filter" where
  "filter_parse_loop schema [] filters = Inr (Filter filters)"
| "filter_parse_loop schema ((field, raw) # rest) filters =
     ok_then (map_err (\<lambda>_. UnknownField field) (field_name_new field))
       (\<lambda>name. ok_then (ok_or (UnknownField field) (bt_get (FieldName field) (cs_fields schema)))
       (\<lambda>spec. if name \<notin> set (cs_filters schema) then Inl (NotFilterable field)
               else ok_then (coerce field spec raw)
                 (\<lambda>v. if bt_get field filters \<noteq> None then Inl (FilterDuplicate field)
                      else filter_parse_loop schema rest (bt_insert field v filters))))"

definition filter_parse :: "collection_schema \<Rightarrow> (rstr \<times> rstr) list \<Rightarrow> filter_error + query_filter" where
  "filter_parse schema pairs = filter_parse_loop schema pairs []"

definition filter_default :: query_filter where "filter_default = Filter []"

definition filter_is_empty :: "query_filter \<Rightarrow> bool" where
  "filter_is_empty f \<longleftrightarrow> filter_entries f = []"

definition filter_len :: "query_filter \<Rightarrow> nat" where
  "filter_len f = length (filter_entries f)"

definition filter_as_json :: "query_filter \<Rightarrow> json" where
  "filter_as_json f = JObject (bt_extend [] (filter_entries f))"

definition filter_iter :: "query_filter \<Rightarrow> (rstr \<times> json) list" where
  "filter_iter f = filter_entries f"

section \<open>Lemmas\<close>

text \<open>A pair that names a filterable field and carries a value of its type.\<close>

definition filter_pair :: "collection_schema \<Rightarrow> rstr \<times> rstr \<Rightarrow> json option" where
  "filter_pair schema fv =
     (case field_name_new (fst fv) of
        Inl _ \<Rightarrow> None
      | Inr name \<Rightarrow>
          (case bt_get name (cs_fields schema) of
             None \<Rightarrow> None
           | Some spec \<Rightarrow>
               if name \<in> set (cs_filters schema)
               then (case coerce (fst fv) spec (snd fv) of Inl _ \<Rightarrow> None | Inr v \<Rightarrow> Some v)
               else None))"

lemma filter_pair_Some:
  "filter_pair schema fv = Some v \<longleftrightarrow>
     (\<exists>name spec. field_name_new (fst fv) = Inr name \<and> bt_get name (cs_fields schema) = Some spec \<and>
        name \<in> set (cs_filters schema) \<and> coerce (fst fv) spec (snd fv) = Inr v)"
  by (auto simp: filter_pair_def split: sum.splits option.splits)

lemma field_name_new_value: "field_name_new s = Inr n \<Longrightarrow> n = FieldName s"
  by (simp add: field_name_new_iff)

lemma filter_parse_loop_ok:
  assumes "bt_ok acc"
  shows "filter_parse_loop schema pairs acc = Inr f \<longleftrightarrow>
    (\<exists>vs. list_all2 (\<lambda>p v. filter_pair schema p = Some v) pairs vs \<and> distinct (map fst pairs) \<and>
      (\<forall>p \<in> set pairs. bt_get (fst p) acc = None) \<and> f = Filter (bt_extend acc (zip (map fst pairs) vs)))"
  using assms
proof (induction schema pairs acc rule: filter_parse_loop.induct)
  case (1 schema acc)
  then show ?case by (auto simp: bt_extend_def)
next
  case (2 schema field raw rest acc)
  have ext: "bt_extend (bt_insert field v acc) xs = bt_extend acc ((field, v) # xs)" for v xs
    by (simp add: bt_extend_def)
  show ?case
  proof (cases "filter_pair schema (field, raw)")
    case None
    then have "\<nexists>f. filter_parse_loop schema ((field, raw) # rest) acc = Inr f"
      using field_name_new_value[of field]
      by (cases "field_name_new field")
         (auto simp: result_simps filter_pair_def split: option.splits sum.splits if_splits)
    with None show ?thesis by (auto simp: list_all2_Cons1)
  next
    case (Some v)
    then obtain spec where p: "field_name_new field = Inr (FieldName field)"
        "bt_get (FieldName field) (cs_fields schema) = Some spec"
        "FieldName field \<in> set (cs_filters schema)" "coerce field spec raw = Inr v"
      by (auto simp: filter_pair_Some field_name_new_iff)
    show ?thesis
      using p Some "2.IH"[of "FieldName field" spec v] "2.prems"
      by (auto simp: result_simps list_all2_Cons1 ext bt_insert_ok bt_get_insert)
  qed
qed

lemma filter_parse_ok:
  "filter_parse schema pairs = Inr f \<longleftrightarrow>
    (\<exists>vs. list_all2 (\<lambda>p v. filter_pair schema p = Some v) pairs vs \<and> distinct (map fst pairs) \<and>
      f = Filter (bt_extend [] (zip (map fst pairs) vs)))"
  unfolding filter_parse_def by (subst filter_parse_loop_ok) (simp_all add: bt_get_def)

lemma filter_parse_sorted: "filter_parse schema pairs = Inr f \<Longrightarrow> bt_ok (filter_entries f)"
  by (auto simp: filter_parse_ok bt_extend_ok)

lemma parse_i64_range: "parse_i64 s = Some i \<Longrightarrow> - (2 ^ 63) \<le> i \<and> i < 2 ^ 63"
  by (cases s) (auto simp: parse_i64_def Let_def split: if_splits)

lemma coerce_typed:
  assumes "coerce field spec raw = Inr v"
  shows "\<exists>ty ix. spec = SScalar ty ix \<and> accepts ty v \<and> json_ok v"
proof (cases spec)
  case (SScalar ty ix)
  have "accepts ty v \<and> json_ok v"
    using assms parse_i64_range[of raw] unfolding SScalar
    by (cases ty)
       (auto simp: coerce_def result_simps is_string_def is_number_def is_boolean_def is_object_def is_array_def
          number_of_f64_def bind_eq_Some_conv number_of_i64_ok split: if_splits option.splits)
  with SScalar show ?thesis by blast
qed (use assms in \<open>simp_all add: coerce_def\<close>)

lemma filter_entry_source:
  assumes "filter_parse schema pairs = Inr f" and "(k, v) \<in> set (filter_entries f)"
  shows "\<exists>raw. (k, raw) \<in> set pairs \<and> filter_pair schema (k, raw) = Some v"
proof -
  obtain vs where l: "list_all2 (\<lambda>p v. filter_pair schema p = Some v) pairs vs"
    and f: "filter_entries f = bt_extend [] (zip (map fst pairs) vs)"
    using assms(1) by (auto simp: filter_parse_ok)
  from assms(2) f have "(k, v) \<in> set (zip (map fst pairs) vs)"
    using bt_extend_set[of "[]"] by fastforce
  with l show ?thesis
    by (induction rule: list_all2_induct) auto
qed

section \<open>Properties\<close>

text \<open>A query is accepted exactly when its fields are distinct and each names a declared, filterable
  field with a value of that field's type; the filter then holds each value under its field.\<close>

theorem filter_parse_iff:
  "filter_parse schema pairs = Inr f \<longleftrightarrow>
    (\<exists>vs. list_all2 (\<lambda>p v. filter_pair schema p = Some v) pairs vs \<and> distinct (map fst pairs) \<and>
      f = Filter (bt_extend [] (zip (map fst pairs) vs)))"
  by (rule filter_parse_ok)

text \<open>A filter can only ask about what projection releases: the document a query is turned into
  for containment conforms to the collection's declared fields, is a well-formed document, and names
  filterable fields only.\<close>

theorem filter_asks_for_released_fields:
  assumes "filter_parse schema pairs = Inr f"
  shows "document_conforms schema (filter_as_json f) \<and> json_ok (filter_as_json f) \<and>
    (\<forall>(k, v) \<in> set (filter_iter f). FieldName k \<in> set (cs_filters schema))"
proof -
  have as_json: "filter_as_json f = JObject (filter_entries f)"
    using filter_parse_sorted[OF assms] by (simp add: filter_as_json_def bt_extend_self)
  have entry: "\<exists>ty ix. bt_get (FieldName k) (cs_fields schema) = Some (SScalar ty ix) \<and> accepts ty v \<and> json_ok v
      \<and> FieldName k \<in> set (cs_filters schema)" if kv: "(k, v) \<in> set (filter_entries f)" for k v
  proof -
    obtain raw where "filter_pair schema (k, raw) = Some v"
      using filter_entry_source[OF assms kv] by blast
    then obtain spec where "bt_get (FieldName k) (cs_fields schema) = Some spec"
        "FieldName k \<in> set (cs_filters schema)" "coerce k spec raw = Inr v"
      by (auto simp: filter_pair_Some dest!: field_name_new_value)
    with coerce_typed[of k spec raw v] show ?thesis by auto
  qed
  then show ?thesis
    using filter_parse_sorted[OF assms]
    by (fastforce simp: as_json document_conforms_def list_all_iff lookup_field_def filter_iter_def)
qed

lemma filter_asks_for_released_fields_witness:
  "document_conforms shop_schema (JObject [(lit ''stock'', JNumber (PosInt 3))]) \<and>
   \<not> is_ok (filter_parse shop_schema [(lit ''price'', lit ''3'')])"
proof -
  have "filter_parse shop_schema [(lit ''stock'', lit ''3'')] = Inr (Filter [(lit ''stock'', JNumber (PosInt 3))])"
    by code_simp
  from filter_asks_for_released_fields[OF this] have "document_conforms shop_schema (JObject [(lit ''stock'', JNumber (PosInt 3))])"
    by (simp add: filter_as_json_def bt_extend_def)
  moreover have "\<not> is_ok (filter_parse shop_schema [(lit ''price'', lit ''3'')])" by code_simp
  ultimately show ?thesis ..
qed

end
