(* ===== verification/Store.thy ===== *)
theory Store
  imports Records Token Query_Filter
begin

text \<open>
  \<open>crates/store/src/error.rs\<close> and \<open>crates/store/src/store.rs\<close>: the failures of a store and the
  \<open>Store\<close> trait. The trait is a record of operations on a state \<open>'s\<close>; code that is generic over
  \<open>S: Store\<close> takes such a record as an argument. A method that only reads returns no state.
\<close>

text \<open>
  The reason text of \<open>Corrupt\<close> is kept as the case that produced it; \<open>database_error\<close> names what the
  database refused.
\<close>

datatype corruption =
    NoContentHash
  | TooManyRecords
  | CursorRange
  | NegativeSeq int
  | HashWidth nat
  | BadId ident_error
  | BadSource ident_error

datatype database_error =
    InvalidJsonText
  | InvalidText
  | SequenceExhausted
  | CheckViolation string
  | UniqueViolation string

datatype store_error =
    Database database_error
  | Migration
  | Canonical canonical_error
  | Corrupt corruption

record 's store =
  st_upsert :: "record_key \<Rightarrow> json \<Rightarrow> 's \<Rightarrow> (store_error + upsert) \<times> 's"
  st_apply :: "source_name \<Rightarrow> collection_name \<Rightarrow> ingest_op list \<Rightarrow> 's \<Rightarrow> (store_error + applied list) \<times> 's"
  st_delete :: "record_key \<Rightarrow> 's \<Rightarrow> (store_error + deletion) \<times> 's"
  st_authenticate :: "tokenhash \<Rightarrow> 's \<Rightarrow> store_error + source_name option"
  st_store_token :: "tokenhash \<Rightarrow> source_name \<Rightarrow> rstr \<Rightarrow> 's \<Rightarrow> (store_error + unit) \<times> 's"
  st_list :: "source_name \<Rightarrow> collection_name \<Rightarrow> query_filter \<Rightarrow> seq option \<Rightarrow> page_budget \<Rightarrow> 's \<Rightarrow> store_error + page"
  st_changes :: "source_name \<Rightarrow> collection_name \<Rightarrow> seq option \<Rightarrow> page_budget \<Rightarrow> 's \<Rightarrow> store_error + page"
  st_manifest :: "source_name \<Rightarrow> collection_name \<Rightarrow> 's \<Rightarrow> store_error + manifest"
  st_digests :: "source_name \<Rightarrow> collection_name \<Rightarrow> record_id option \<Rightarrow> page_limit \<Rightarrow> 's \<Rightarrow> store_error + digest_page"
  st_max_seq :: "source_name \<Rightarrow> collection_name \<Rightarrow> 's \<Rightarrow> store_error + seq option"
  st_get :: "record_key \<Rightarrow> 's \<Rightarrow> store_error + stored_record option"

end
