(* ===== verification/Postgres.thy ===== *)
theory Postgres
  imports Store
begin

text \<open>
  \<open>crates/store/src/postgres.rs\<close> and \<open>crates/store/migrations\<close>: the two tables, the sequence and
  every statement of the store as a function of the database, with the mappings from rows to
  records.

  \<open>db_seq_last\<close> is the last value \<open>nextval\<close> gave out. As in PostgreSQL it is outside transactions,
  and the default of the \<open>seq\<close> column is evaluated for the row an \<open>INSERT\<close> proposes, before a
  conflict is looked for. \<open>now()\<close> is constant within a statement and a transaction; the clock is a
  component of the database no statement changes.
\<close>

section \<open>Tables\<close>

record row =
  r_source :: rstr
  r_collection :: rstr
  r_id :: rstr
  r_seq :: int
  r_payload :: json
  r_hash :: bytes
  r_ingested_at :: timestamp
  r_deleted_at :: "timestamp option"

record token_row =
  tk_hash :: bytes
  tk_source :: rstr
  tk_label :: rstr
  tk_created_at :: timestamp
  tk_revoked_at :: "timestamp option"

record db =
  db_rows :: "row list"
  db_seq_last :: int
  db_tokens :: "token_row list"
  db_now :: timestamp

definition empty_db :: "timestamp \<Rightarrow> db" where
  "empty_db t = \<lparr>db_rows = [], db_seq_last = 0, db_tokens = [], db_now = t\<rparr>"

definition row_at :: "record_key \<Rightarrow> row \<Rightarrow> bool" where
  "row_at key r \<longleftrightarrow>
     r_source r = source_str (key_source key) \<and> r_collection r = collection_str (key_collection key) \<and>
     r_id r = id_str (key_id key)"

definition in_collection :: "source_name \<Rightarrow> collection_name \<Rightarrow> row \<Rightarrow> bool" where
  "in_collection source collection r \<longleftrightarrow>
     r_source r = source_str source \<and> r_collection r = collection_str collection"

definition BIGINT_MAX :: int where "BIGINT_MAX = 2 ^ 63 - 1"

definition nextval :: "db \<Rightarrow> database_error + (int \<times> db)" where
  "nextval d =
     (if db_seq_last d < BIGINT_MAX
      then Inr (db_seq_last d + 1, d\<lparr>db_seq_last := db_seq_last d + 1\<rparr>)
      else Inl SequenceExhausted)"

text \<open>The constraints of the record table on a row about to be written in place of \<open>others\<close>.\<close>

definition check_row :: "row list \<Rightarrow> row \<Rightarrow> database_error + unit" where
  "check_row others r =
     (if length (r_hash r) \<noteq> 32 then Inl (CheckViolation ''record_content_hash_is_sha256'')
      else if r_deleted_at r \<noteq> None \<and> r_payload r \<noteq> JObject []
      then Inl (CheckViolation ''record_tombstone_has_no_payload'')
      else if \<exists>q \<in> set others. r_seq q = r_seq r then Inl (UniqueViolation ''record_seq_key'')
      else Inr ())"

definition update_rows :: "record_key \<Rightarrow> (row \<Rightarrow> row) \<Rightarrow> row list \<Rightarrow> row list" where
  "update_rows key f rows = map (\<lambda>r. if row_at key r then f r else r) rows"

section \<open>The two writing statements\<close>

definition proposed_row :: "record_key \<Rightarrow> json \<Rightarrow> contenthash \<Rightarrow> int \<Rightarrow> timestamp \<Rightarrow> row" where
  "proposed_row key doc hash s t =
     \<lparr>r_source = source_str (key_source key), r_collection = collection_str (key_collection key),
      r_id = id_str (key_id key), r_seq = s, r_payload = doc, r_hash = hash_bytes hash,
      r_ingested_at = t, r_deleted_at = None\<rparr>"

definition insert_on_conflict ::
    "env \<Rightarrow> record_key \<Rightarrow> json \<Rightarrow> contenthash \<Rightarrow> db \<Rightarrow> (database_error + int option) \<times> db" where
  "insert_on_conflict E key payload hash d =
     (case e_jsonb E payload of
        None \<Rightarrow> (Inl InvalidJsonText, d)
      | Some doc \<Rightarrow>
          (case nextval d of
             Inl e \<Rightarrow> (Inl e, d)
           | Inr (proposed, d1) \<Rightarrow>
               let new = proposed_row key doc hash proposed (db_now d) in
               (case find (row_at key) (db_rows d) of
                  None \<Rightarrow>
                    (case check_row (db_rows d) new of
                       Inl e \<Rightarrow> (Inl e, d1)
                     | Inr _ \<Rightarrow> (Inr (Some proposed), d1\<lparr>db_rows := db_rows d @ [new]\<rparr>))
                | Some old \<Rightarrow>
                    if length (r_hash new) \<noteq> 32
                    then (Inl (CheckViolation ''record_content_hash_is_sha256''), d1)
                    else if r_hash old \<noteq> r_hash new \<or> r_deleted_at old \<noteq> None
                    then (case nextval d1 of
                            Inl e \<Rightarrow> (Inl e, d1)
                          | Inr (s, d2) \<Rightarrow>
                              let upd = old\<lparr>r_payload := r_payload new, r_hash := r_hash new, r_seq := s,
                                            r_ingested_at := db_now d, r_deleted_at := None\<rparr> in
                              (case check_row (filter (\<lambda>r. \<not> row_at key r) (db_rows d)) upd of
                                 Inl e \<Rightarrow> (Inl e, d2)
                               | Inr _ \<Rightarrow> (Inr (Some s), d2\<lparr>db_rows := update_rows key (\<lambda>_. upd) (db_rows d)\<rparr>)))
                    else (Inr None, d1))))"

definition update_tombstone :: "record_key \<Rightarrow> db \<Rightarrow> (database_error + int option) \<times> db" where
  "update_tombstone key d =
     (case find (\<lambda>r. row_at key r \<and> r_deleted_at r = None) (db_rows d) of
        None \<Rightarrow> (Inr None, d)
      | Some old \<Rightarrow>
          (case nextval d of
             Inl e \<Rightarrow> (Inl e, d)
           | Inr (s, d1) \<Rightarrow>
               let upd = old\<lparr>r_payload := JObject [], r_hash := hash_bytes EMPTY_DOCUMENT, r_seq := s,
                             r_ingested_at := db_now d, r_deleted_at := Some (db_now d)\<rparr> in
               (case check_row (filter (\<lambda>r. \<not> row_at key r) (db_rows d)) upd of
                  Inl e \<Rightarrow> (Inl e, d1)
                | Inr _ \<Rightarrow> (Inr (Some s), d1\<lparr>db_rows := update_rows key (\<lambda>_. upd) (db_rows d)\<rparr>))))"

section \<open>Cursors, positions and hashes\<close>

definition cursor :: "seq option \<Rightarrow> store_error + int" where
  "cursor after =
     (let raw = (case after of None \<Rightarrow> 0 | Some s \<Rightarrow> seq_get s)
      in if uint raw < 2 ^ 63 then Inr (uint raw) else Inl (Corrupt CursorRange))"

definition to_seq :: "int \<Rightarrow> store_error + seq" where
  "to_seq raw = (if 0 \<le> raw then Inr (seq_new (word_of_int raw)) else Inl (Corrupt (NegativeSeq raw)))"

definition to_content_hash :: "bytes \<Rightarrow> store_error + contenthash" where
  "to_content_hash raw =
     (if length raw = 32 then Inr (hash_from_bytes raw) else Inl (Corrupt (HashWidth (length raw))))"

section \<open>Writing\<close>

definition write_upsert ::
    "env \<Rightarrow> record_key \<Rightarrow> json \<Rightarrow> contenthash \<Rightarrow> db \<Rightarrow> (store_error + upsert) \<times> db" where
  "write_upsert E key payload hash d =
     (case insert_on_conflict E key payload hash d of
        (Inl e, d') \<Rightarrow> (Inl (Database e), d')
      | (Inr (Some s), d') \<Rightarrow> (map_ok UStored (to_seq s), d')
      | (Inr None, d') \<Rightarrow> (Inr UUnchanged, d'))"

definition write_delete :: "record_key \<Rightarrow> db \<Rightarrow> (store_error + deletion) \<times> db" where
  "write_delete key d =
     (case update_tombstone key d of
        (Inl e, d') \<Rightarrow> (Inl (Database e), d')
      | (Inr (Some s), d') \<Rightarrow> (map_ok DTombstoned (to_seq s), d')
      | (Inr None, d') \<Rightarrow> (Inr DUnchanged, d'))"

definition pg_upsert :: "env \<Rightarrow> record_key \<Rightarrow> json \<Rightarrow> db \<Rightarrow> (store_error + upsert) \<times> db" where
  "pg_upsert E key payload d =
     (case content_hash E payload of
        Inl e \<Rightarrow> (Inl (Canonical e), d)
      | Inr hash \<Rightarrow> write_upsert E key payload hash d)"

definition pg_delete :: "record_key \<Rightarrow> db \<Rightarrow> (store_error + deletion) \<times> db" where
  "pg_delete key d = write_delete key d"

definition hash_op :: "env \<Rightarrow> ingest_op \<Rightarrow> store_error + (ingest_op \<times> contenthash option)" where
  "hash_op E op =
     (case op of
        OpUpsert _ payload \<Rightarrow> map_ok (\<lambda>h. (op, Some h)) (map_err Canonical (content_hash E payload))
      | OpDelete _ \<Rightarrow> Inr (op, None))"

fun apply_op ::
    "env \<Rightarrow> source_name \<Rightarrow> collection_name \<Rightarrow> ingest_op \<times> contenthash option \<Rightarrow> db
     \<Rightarrow> (store_error + applied) \<times> db" where
  "apply_op E source collection (OpUpsert i payload, Some hash) d =
     (case write_upsert E (record_key_new source collection i) payload hash d of
        (r, d') \<Rightarrow> (map_ok (\<lambda>u. case u of UStored s \<Rightarrow> AStored s | UUnchanged \<Rightarrow> AUnchanged) r, d'))"
| "apply_op E source collection (OpDelete i, h) d =
     (case write_delete (record_key_new source collection i) d of
        (r, d') \<Rightarrow> (map_ok (\<lambda>u. case u of DTombstoned s \<Rightarrow> ATombstoned s | DUnchanged \<Rightarrow> AUnchanged) r, d'))"
| "apply_op E source collection (OpUpsert i payload, None) d = (Inl (Corrupt NoContentHash), d)"

fun apply_ops ::
    "env \<Rightarrow> source_name \<Rightarrow> collection_name \<Rightarrow> (ingest_op \<times> contenthash option) list \<Rightarrow> db
     \<Rightarrow> (store_error + applied list) \<times> db" where
  "apply_ops E source collection [] d = (Inr [], d)"
| "apply_ops E source collection (op # ops) d =
     (case apply_op E source collection op d of
        (Inl e, d') \<Rightarrow> (Inl e, d')
      | (Inr outcome, d') \<Rightarrow>
          (case apply_ops E source collection ops d' of
             (r, d'') \<Rightarrow> (map_ok (\<lambda>outcomes. outcome # outcomes) r, d'')))"

text \<open>A transaction that is dropped before its commit rolls the tables back; the sequence keeps what it
  gave out.\<close>

definition rollback :: "db \<Rightarrow> db \<Rightarrow> db" where
  "rollback before d = before\<lparr>db_seq_last := db_seq_last d\<rparr>"

definition pg_apply ::
    "env \<Rightarrow> source_name \<Rightarrow> collection_name \<Rightarrow> ingest_op list \<Rightarrow> db \<Rightarrow> (store_error + applied list) \<times> db" where
  "pg_apply E source collection ops d =
     (case traverse (hash_op E) ops of
        Inl e \<Rightarrow> (Inl e, d)
      | Inr hashed \<Rightarrow>
          (case apply_ops E source collection hashed d of
             (Inl e, d') \<Rightarrow> (Inl e, rollback d d')
           | (Inr outcomes, d') \<Rightarrow> (Inr outcomes, d')))"

section \<open>Reading\<close>

record raw_record =
  raw_id :: rstr
  raw_seq :: int
  raw_payload :: json
  raw_payload_bytes :: int
  raw_hash :: bytes
  raw_ingested_at :: timestamp
  raw_deleted_at :: "timestamp option"

definition raw_of_row :: "env \<Rightarrow> row \<Rightarrow> raw_record" where
  "raw_of_row E r =
     \<lparr>raw_id = r_id r, raw_seq = r_seq r, raw_payload = r_payload r,
      raw_payload_bytes = e_jsonb_len E (r_payload r), raw_hash = r_hash r,
      raw_ingested_at = r_ingested_at r, raw_deleted_at = r_deleted_at r\<rparr>"

definition into_record :: "source_name \<Rightarrow> collection_name \<Rightarrow> raw_record \<Rightarrow> store_error + stored_record" where
  "into_record source collection raw =
     ok_then (map_err (\<lambda>e. Corrupt (BadId e)) (record_id_new (raw_id raw)))
       (\<lambda>i. ok_then (to_content_hash (raw_hash raw))
       (\<lambda>hash. ok_then (to_seq (raw_seq raw))
       (\<lambda>s. Inr \<lparr>sr_key = record_key_new source collection i, sr_payload = raw_payload raw, sr_hash = hash,
                 sr_seq = s, sr_ingested_at = raw_ingested_at raw, sr_deleted_at = raw_deleted_at raw\<rparr>)))"

definition saturating_add :: "64 word \<Rightarrow> 64 word \<Rightarrow> 64 word" where
  "saturating_add a b = (if a + b < a then - 1 else a + b)"

definition row_size :: "raw_record \<Rightarrow> 64 word" where
  "row_size raw = (if 0 \<le> raw_payload_bytes raw then word_of_int (raw_payload_bytes raw) else 0)"

text \<open>The loop of \<open>page\<close>: what was read, and whether the budget cut it short.\<close>

fun page_loop ::
    "source_name \<Rightarrow> collection_name \<Rightarrow> byte_budget \<Rightarrow> raw_record list \<Rightarrow> 64 word \<Rightarrow> stored_record list
     \<Rightarrow> store_error + (stored_record list \<times> bool)" where
  "page_loop source collection budget [] spent records = Inr (records, False)"
| "page_loop source collection budget (raw # rows) spent records =
     (let size = row_size raw
      in if records \<noteq> [] \<and> saturating_add spent size > budget_get budget then Inr (records, True)
         else ok_then (into_record source collection raw)
                (\<lambda>r. page_loop source collection budget rows (saturating_add spent size) (records @ [r])))"

definition last_opt :: "'a list \<Rightarrow> 'a option" where
  "last_opt xs = (if xs = [] then None else Some (last xs))"

definition page_of :: "raw_record list \<Rightarrow> source_name \<Rightarrow> collection_name \<Rightarrow> page_budget \<Rightarrow> store_error + page" where
  "page_of rows source collection budget =
     (let count_reached = (length rows = unat (limit_get (pb_records budget)))
      in ok_then (page_loop source collection (pb_bytes budget) rows 0 [])
           (\<lambda>(records, cut_short).
              Inr \<lparr>pg_records = records,
                   pg_next = (if cut_short \<or> count_reached then map_option sr_seq (last_opt records) else None)\<rparr>))"

text \<open>\<open>WHERE ... ORDER BY seq LIMIT n\<close>.\<close>

definition select_feed :: "(row \<Rightarrow> bool) \<Rightarrow> nat \<Rightarrow> row list \<Rightarrow> row list" where
  "select_feed P n rows = take n (sort_key r_seq (filter P rows))"

definition pg_list ::
    "env \<Rightarrow> source_name \<Rightarrow> collection_name \<Rightarrow> query_filter \<Rightarrow> seq option \<Rightarrow> page_budget \<Rightarrow> db \<Rightarrow> store_error + page" where
  "pg_list E source collection flt after budget d =
     ok_then (cursor after)
       (\<lambda>c. ok_then (ok_or (Database InvalidJsonText) (e_jsonb E (filter_as_json flt)))
       (\<lambda>flt_doc.
          page_of
            (map (raw_of_row E)
              (select_feed
                (\<lambda>r. in_collection source collection r \<and> r_deleted_at r = None \<and> r_seq r > c \<and>
                     e_contains E (r_payload r) flt_doc)
                (unat (limit_get (pb_records budget))) (db_rows d)))
            source collection budget))"

definition pg_changes ::
    "env \<Rightarrow> source_name \<Rightarrow> collection_name \<Rightarrow> seq option \<Rightarrow> page_budget \<Rightarrow> db \<Rightarrow> store_error + page" where
  "pg_changes E source collection since budget d =
     ok_then (cursor since)
       (\<lambda>c. page_of
          (map (raw_of_row E)
            (select_feed (\<lambda>r. in_collection source collection r \<and> r_seq r > c)
              (unat (limit_get (pb_records budget))) (db_rows d)))
          source collection budget)"

definition pg_max_seq :: "source_name \<Rightarrow> collection_name \<Rightarrow> db \<Rightarrow> store_error + seq option" where
  "pg_max_seq source collection d =
     (let seqs = map r_seq (filter (in_collection source collection) (db_rows d))
      in transpose_result (map_option to_seq (if seqs = [] then None else Some (foldl max (hd seqs) (tl seqs)))))"

definition live_in :: "source_name \<Rightarrow> collection_name \<Rightarrow> row \<Rightarrow> bool" where
  "live_in source collection r \<longleftrightarrow> in_collection source collection r \<and> r_deleted_at r = None"

definition pg_manifest :: "env \<Rightarrow> source_name \<Rightarrow> collection_name \<Rightarrow> db \<Rightarrow> store_error + manifest" where
  "pg_manifest E source collection d =
     ok_then (traverse (\<lambda>r. map_ok (Pair (r_id r)) (to_content_hash (r_hash r)))
                (filter (live_in source collection) (db_rows d)))
       (\<lambda>pairs. ok_then (map_err Canonical (collection_checksum E pairs))
       (\<lambda>checksum. ok_then (if int (length pairs) < 2 ^ 64 then Inr (word_of_nat (length pairs))
                            else Inl (Corrupt TooManyRecords))
       (\<lambda>count. ok_then (pg_max_seq source collection d)
       (\<lambda>max_seq. Inr \<lparr>mf_count = count, mf_checksum = checksum, mf_max_seq = max_seq\<rparr>))))"

text \<open>\<open>ORDER BY id\<close> under the database's collation.\<close>

fun insert_by :: "('a \<Rightarrow> 'a \<Rightarrow> bool) \<Rightarrow> 'a \<Rightarrow> 'a list \<Rightarrow> 'a list" where
  "insert_by lt x [] = [x]"
| "insert_by lt x (y # ys) = (if lt x y then x # y # ys else y # insert_by lt x ys)"

definition sort_by :: "('a \<Rightarrow> 'a \<Rightarrow> bool) \<Rightarrow> 'a list \<Rightarrow> 'a list" where
  "sort_by lt xs = foldr (insert_by lt) xs []"

definition pg_digests ::
    "env \<Rightarrow> source_name \<Rightarrow> collection_name \<Rightarrow> record_id option \<Rightarrow> page_limit \<Rightarrow> db \<Rightarrow> store_error + digest_page" where
  "pg_digests E source collection after limit d =
     (let lo = (case after of None \<Rightarrow> [] | Some i \<Rightarrow> id_str i);
          rows = take (unat (limit_get limit))
            (sort_by (\<lambda>a b. e_collate E (r_id a) (r_id b))
              (filter (\<lambda>r. live_in source collection r \<and> e_collate E lo (r_id r)) (db_rows d)));
          full_page = (length rows = unat (limit_get limit))
      in ok_then
           (traverse (\<lambda>r. ok_then (map_err (\<lambda>e. Corrupt (BadId e)) (record_id_new (r_id r)))
                            (\<lambda>i. ok_then (to_content_hash (r_hash r)) (\<lambda>h. Inr \<lparr>dg_id = i, dg_hash = h\<rparr>))) rows)
           (\<lambda>entries. Inr \<lparr>dp_entries = entries,
                          dp_next = (if full_page then map_option dg_id (last_opt entries) else None)\<rparr>))"

definition pg_get :: "record_key \<Rightarrow> db \<Rightarrow> store_error + stored_record option" where
  "pg_get key d =
     (case find (row_at key) (db_rows d) of
        None \<Rightarrow> Inr None
      | Some r \<Rightarrow>
          ok_then (to_content_hash (r_hash r))
            (\<lambda>hash. ok_then (to_seq (r_seq r))
            (\<lambda>s. Inr (Some \<lparr>sr_key = key, sr_payload = r_payload r, sr_hash = hash, sr_seq = s,
                           sr_ingested_at = r_ingested_at r, sr_deleted_at = r_deleted_at r\<rparr>))))"

section \<open>Credentials\<close>

definition pg_authenticate :: "tokenhash \<Rightarrow> db \<Rightarrow> store_error + source_name option" where
  "pg_authenticate token d =
     transpose_result
       (map_option (\<lambda>t. map_err (\<lambda>e. Corrupt (BadSource e)) (source_name_new (tk_source t)))
         (find (\<lambda>t. tk_hash t = token_hash_bytes token \<and> tk_revoked_at t = None) (db_tokens d)))"

definition pg_store_token :: "tokenhash \<Rightarrow> source_name \<Rightarrow> rstr \<Rightarrow> db \<Rightarrow> (store_error + unit) \<times> db" where
  "pg_store_token token source label d =
     (if 0 \<in> set label then (Inl (Database InvalidText), d)
      else if length (token_hash_bytes token) \<noteq> 32
      then (Inl (Database (CheckViolation ''ingest_token_hash_is_sha256'')), d)
      else if label = [] then (Inl (Database (CheckViolation ''ingest_token_label_is_not_empty'')), d)
      else if \<exists>t \<in> set (db_tokens d). tk_hash t = token_hash_bytes token
      then (Inl (Database (UniqueViolation ''ingest_token_pkey'')), d)
      else (Inr (), d\<lparr>db_tokens := db_tokens d @
              [\<lparr>tk_hash = token_hash_bytes token, tk_source = source_str source, tk_label = label,
                tk_created_at = db_now d, tk_revoked_at = None\<rparr>]\<rparr>))"

section \<open>The trait's operations\<close>

definition postgres_store :: "env \<Rightarrow> db store" where
  "postgres_store E =
     \<lparr>st_upsert = pg_upsert E, st_apply = pg_apply E, st_delete = pg_delete,
      st_authenticate = pg_authenticate, st_store_token = pg_store_token, st_list = pg_list E,
      st_changes = pg_changes E, st_manifest = pg_manifest E, st_digests = pg_digests E,
      st_max_seq = pg_max_seq, st_get = pg_get\<rparr>"

section \<open>Connecting\<close>

text \<open>What every pooled connection is told first; \<open>as_millis\<close> is a \<open>u128\<close>, so the product does not wrap.\<close>

definition statement_timeout_setting :: "64 word \<Rightarrow> rstr" where
  "statement_timeout_setting seconds =
     lit ''SET statement_timeout = '' @ dec (min (unat seconds * 1000) (2 ^ 32 - 1))"

end
