(* ===== verification/Postgres_Facts.thy ===== *)
theory Postgres_Facts
  imports Postgres
begin

text \<open>
  The database invariant and the two ways the program changes the record table. \<open>db_step W\<close> is the
  step relation every operation refines: the sequence advances, a row that satisfies \<open>W\<close> is written
  under a fresh position, a credential is recorded, or the clock moves.
\<close>

section \<open>Rows and the invariant\<close>

definition row_id :: "row \<Rightarrow> rstr \<times> rstr \<times> rstr" where
  "row_id r = (r_source r, r_collection r, r_id r)"

definition key_row_id :: "record_key \<Rightarrow> rstr \<times> rstr \<times> rstr" where
  "key_row_id k = (source_str (key_source k), collection_str (key_collection k), id_str (key_id k))"

lemma row_at_iff: "row_at key r \<longleftrightarrow> row_id r = key_row_id key"
  by (auto simp: row_at_def row_id_def key_row_id_def)

text \<open>A row as the store writes it: its hash is the hash of a document that \<open>jsonb\<close> keeps as its payload.\<close>

definition row_ok :: "env \<Rightarrow> row \<Rightarrow> bool" where
  "row_ok E r \<longleftrightarrow>
     source_ok (SourceName (r_source r)) \<and> collection_ok (CollectionName (r_collection r)) \<and>
     record_id_ok (RecordId (r_id r)) \<and> length (r_hash r) = 32 \<and>
     (r_deleted_at r \<noteq> None \<longrightarrow> r_payload r = JObject []) \<and>
     (\<exists>p. json_ok p \<and> e_jsonb E p = Some (r_payload r) \<and> content_hash E p = Inr (ContentHash (r_hash r)))"

definition token_ok :: "token_row \<Rightarrow> bool" where
  "token_ok t \<longleftrightarrow> source_ok (SourceName (tk_source t)) \<and> length (tk_hash t) = 32 \<and> tk_label t \<noteq> []"

definition db_ok :: "env \<Rightarrow> db \<Rightarrow> bool" where
  "db_ok E d \<longleftrightarrow>
     (\<forall>r \<in> set (db_rows d). row_ok E r \<and> 1 \<le> r_seq r \<and> r_seq r \<le> db_seq_last d) \<and>
     distinct (map row_id (db_rows d)) \<and> distinct (map r_seq (db_rows d)) \<and>
     0 \<le> db_seq_last d \<and> db_seq_last d \<le> BIGINT_MAX \<and>
     (\<forall>t \<in> set (db_tokens d). token_ok t) \<and> distinct (map tk_hash (db_tokens d))"

lemma empty_db_ok [simp]: "db_ok E (empty_db t)"
  by (simp add: db_ok_def empty_db_def BIGINT_MAX_def)

definition put_row :: "row \<Rightarrow> row list \<Rightarrow> row list" where
  "put_row new rows =
     (if row_id new \<in> row_id ` set rows then map (\<lambda>r. if row_id r = row_id new then new else r) rows
      else rows @ [new])"

lemma set_put_row: "set (put_row new rows) = insert new {r \<in> set rows. row_id r \<noteq> row_id new}"
proof (cases "row_id new \<in> row_id ` set rows")
  case True
  then show ?thesis by (auto simp: put_row_def)
next
  case False
  then have "row_id r \<noteq> row_id new" if "r \<in> set rows" for r
    using that by (metis image_eqI)
  then have "{r \<in> set rows. row_id r \<noteq> row_id new} = set rows" by blast
  with False show ?thesis by (simp add: put_row_def)
qed

lemma map_row_id_put_row:
  "map row_id (put_row new rows) =
     (if row_id new \<in> row_id ` set rows then map row_id rows else map row_id rows @ [row_id new])"
  by (auto simp: put_row_def)

lemma distinct_put_row: "distinct (map row_id rows) \<Longrightarrow> distinct (map row_id (put_row new rows))"
  by (auto simp: map_row_id_put_row)

lemma distinct_seq_put_row:
  assumes "distinct (map row_id rows)" "distinct (map r_seq rows)" "\<forall>r \<in> set rows. r_seq r < r_seq new"
  shows "distinct (map r_seq (put_row new rows))"
proof -
  have "distinct (put_row new rows)"
    using distinct_put_row[OF assms(1)] by (simp add: distinct_map)
  moreover have "inj_on r_seq (set (put_row new rows))"
    using assms(2,3) by (fastforce simp: set_put_row inj_on_def distinct_map)
  ultimately show ?thesis by (simp add: distinct_map)
qed

section \<open>Steps\<close>

inductive db_step :: "(row \<Rightarrow> bool) \<Rightarrow> db \<Rightarrow> db \<Rightarrow> bool" for W where
  step_burn: "db_seq_last d \<le> s \<Longrightarrow> s \<le> BIGINT_MAX \<Longrightarrow> db_step W d (d\<lparr>db_seq_last := s\<rparr>)"
| step_write: "W new \<Longrightarrow> db_seq_last d < r_seq new \<Longrightarrow> r_seq new \<le> BIGINT_MAX \<Longrightarrow>
    db_step W d (d\<lparr>db_rows := put_row new (db_rows d), db_seq_last := r_seq new\<rparr>)"
| step_token: "token_ok t \<Longrightarrow> tk_hash t \<notin> tk_hash ` set (db_tokens d) \<Longrightarrow>
    db_step W d (d\<lparr>db_tokens := db_tokens d @ [t]\<rparr>)"
| step_clock: "db_step W d (d\<lparr>db_now := t\<rparr>)"

abbreviation db_steps :: "(row \<Rightarrow> bool) \<Rightarrow> db \<Rightarrow> db \<Rightarrow> bool" where
  "db_steps W \<equiv> (db_step W)\<^sup>*\<^sup>*"

lemma db_step_mono: "db_step V d d' \<Longrightarrow> (\<And>r. V r \<Longrightarrow> W r) \<Longrightarrow> db_step W d d'"
  by (induction rule: db_step.induct) (auto intro: db_step.intros)

lemma db_steps_mono: "db_steps V d d' \<Longrightarrow> (\<And>r. V r \<Longrightarrow> W r) \<Longrightarrow> db_steps W d d'"
  by (induction rule: rtranclp_induct) (auto intro: rtranclp.rtrancl_into_rtrancl db_step_mono)

lemma db_step_ok:
  assumes "db_step W d d'" "\<And>r. W r \<Longrightarrow> row_ok E r" "db_ok E d"
  shows "db_ok E d'"
  using assms
proof (induction rule: db_step.induct)
  case (step_burn d s)
  then show ?case by (fastforce simp: db_ok_def)
next
  case (step_write new d)
  then have "row_ok E new" by simp
  moreover have "distinct (map r_seq (put_row new (db_rows d)))"
    using step_write by (intro distinct_seq_put_row) (auto simp: db_ok_def)
  ultimately show ?case
    using step_write by (fastforce simp: db_ok_def set_put_row distinct_put_row)
next
  case (step_token t d)
  then show ?case by (auto simp: db_ok_def)
next
  case (step_clock d t)
  then show ?case by (simp add: db_ok_def)
qed

lemma db_steps_ok:
  assumes "db_steps W d d'" "\<And>r. W r \<Longrightarrow> row_ok E r" "db_ok E d"
  shows "db_ok E d'"
  using assms(1,3) by (induction rule: rtranclp_induct) (auto intro: db_step_ok[OF _ assms(2)])

text \<open>What steps never do: forget a record, move a row without a fresh position, or write a row that is
  not allowed.\<close>

definition evolves :: "db \<Rightarrow> db \<Rightarrow> bool" where
  "evolves d d' \<longleftrightarrow>
     db_seq_last d \<le> db_seq_last d' \<and>
     row_id ` set (db_rows d) \<subseteq> row_id ` set (db_rows d') \<and>
     (\<forall>r \<in> set (db_rows d'). r_seq r \<le> db_seq_last d \<longrightarrow> r \<in> set (db_rows d))"

lemma db_step_evolves: "db_step W d d' \<Longrightarrow> evolves d d'"
  by (induction rule: db_step.induct) (auto simp: evolves_def set_put_row image_iff)

lemma evolves_refl: "evolves d d"
  by (simp add: evolves_def)

lemma evolves_trans: "evolves a b \<Longrightarrow> evolves b c \<Longrightarrow> evolves a c"
  unfolding evolves_def by (meson order_trans subset_trans)

lemma db_steps_evolves: "db_steps W d d' \<Longrightarrow> evolves d d'"
  by (induction rule: rtranclp_induct) (auto intro: evolves_refl evolves_trans db_step_evolves)

lemma db_step_rows: "db_step W d d' \<Longrightarrow> r \<in> set (db_rows d') \<Longrightarrow> r \<in> set (db_rows d) \<or> W r"
  by (induction rule: db_step.induct) (auto simp: set_put_row)

lemma db_steps_rows: "db_steps W d d' \<Longrightarrow> r \<in> set (db_rows d') \<Longrightarrow> r \<in> set (db_rows d) \<or> W r"
  by (induction arbitrary: r rule: rtranclp_induct) (auto dest: db_step_rows)

lemma db_step_kept:
  "db_step W d d' \<Longrightarrow> r \<in> set (db_rows d) \<Longrightarrow> (\<And>new. W new \<Longrightarrow> row_id new \<noteq> row_id r) \<Longrightarrow> r \<in> set (db_rows d')"
  by (induction rule: db_step.induct) (force simp: set_put_row)+

lemma db_steps_kept:
  assumes "db_steps W d d'" "r \<in> set (db_rows d)" "\<And>new. W new \<Longrightarrow> row_id new \<noteq> row_id r"
  shows "r \<in> set (db_rows d')"
  using assms(1,2) by (induction rule: rtranclp_induct) (auto intro: db_step_kept[OF _ _ assms(3)])

section \<open>What the two writing statements do\<close>

definition tombstone_row :: "record_key \<Rightarrow> int \<Rightarrow> timestamp \<Rightarrow> row" where
  "tombstone_row key s t =
     (proposed_row key (JObject []) EMPTY_DOCUMENT s t)\<lparr>r_deleted_at := Some t\<rparr>"

definition put :: "row \<Rightarrow> db \<Rightarrow> db" where
  "put new d = d\<lparr>db_rows := put_row new (db_rows d), db_seq_last := r_seq new\<rparr>"

lemma proposed_row_simps [simp]:
  "row_id (proposed_row key doc h s t) = key_row_id key" "r_seq (proposed_row key doc h s t) = s"
  "r_payload (proposed_row key doc h s t) = doc" "r_hash (proposed_row key doc h s t) = hash_bytes h"
  "r_deleted_at (proposed_row key doc h s t) = None" "r_ingested_at (proposed_row key doc h s t) = t"
  by (simp_all add: proposed_row_def row_id_def key_row_id_def)

lemma tombstone_row_simps [simp]:
  "row_id (tombstone_row key s t) = key_row_id key" "r_seq (tombstone_row key s t) = s"
  "r_payload (tombstone_row key s t) = JObject []" "r_hash (tombstone_row key s t) = hash_bytes EMPTY_DOCUMENT"
  "r_deleted_at (tombstone_row key s t) = Some t" "r_ingested_at (tombstone_row key s t) = t"
  by (simp_all add: tombstone_row_def proposed_row_def row_id_def key_row_id_def)

lemma put_simps [simp]:
  "db_rows (put new d) = put_row new (db_rows d)" "db_seq_last (put new d) = r_seq new"
  "db_tokens (put new d) = db_tokens d" "db_now (put new d) = db_now d"
  by (simp_all add: put_def)

lemma check_row_fresh:
  "length (r_hash r) = 32 \<Longrightarrow> (r_deleted_at r \<noteq> None \<Longrightarrow> r_payload r = JObject []) \<Longrightarrow>
     (\<And>q. q \<in> set others \<Longrightarrow> r_seq q < r_seq r) \<Longrightarrow> check_row others r = Inr ()"
  by (force simp: check_row_def)

lemma update_rows_put:
  assumes "old \<in> set rows" "row_at key old" "row_id upd = key_row_id key"
  shows "update_rows key (\<lambda>_. upd) rows = put_row upd rows"
  using assms by (auto simp: update_rows_def put_row_def row_at_iff rev_image_eqI)

lemma find_row_None: "find (row_at key) rows = None \<longleftrightarrow> key_row_id key \<notin> row_id ` set rows"
  by (auto simp: find_None_iff row_at_iff image_iff eq_commute[of "key_row_id key"])

lemma find_row_Some:
  assumes "distinct (map row_id rows)"
  shows "find (row_at key) rows = Some r \<longleftrightarrow> r \<in> set rows \<and> row_at key r"
  using find_key_unique[OF assms] by (fastforce simp: row_at_iff [abs_def] dest: find_SomeD)

definition seq_room :: "db \<Rightarrow> bool" where
  "seq_room d \<longleftrightarrow> db_seq_last d + 2 \<le> BIGINT_MAX"

lemma insert_on_conflict_cases:
  assumes ok: "db_ok E d" and h: "hash_ok h" and res: "insert_on_conflict E key p h d = (r, d')"
  obtains
    (refused) e s where "r = Inl e" "d' = d\<lparr>db_seq_last := s\<rparr>" "db_seq_last d \<le> s" "s \<le> BIGINT_MAX"
      "(e = InvalidJsonText \<and> e_jsonb E p = None) \<or> (e = SequenceExhausted \<and> \<not> seq_room d)"
  | (same) old where "r = Inr None" "d' = d\<lparr>db_seq_last := db_seq_last d + 1\<rparr>" "db_seq_last d < BIGINT_MAX"
      "old \<in> set (db_rows d)" "row_at key old" "r_hash old = hash_bytes h" "r_deleted_at old = None"
  | (written) doc s where "r = Inr (Some s)" "e_jsonb E p = Some doc" "db_seq_last d < s" "s \<le> BIGINT_MAX"
      "d' = put (proposed_row key doc h s (db_now d)) d"
      "\<And>old. old \<in> set (db_rows d) \<Longrightarrow> row_at key old \<Longrightarrow> r_hash old \<noteq> hash_bytes h \<or> r_deleted_at old \<noteq> None"
proof (cases "e_jsonb E p")
  case None
  with res ok show ?thesis
    by (intro refused[of InvalidJsonText "db_seq_last d"]) (auto simp: insert_on_conflict_def db_ok_def)
next
  case (Some doc)
  have below: "\<And>q. q \<in> set (db_rows d) \<Longrightarrow> r_seq q \<le> db_seq_last d"
    and dist: "distinct (map row_id (db_rows d))" and max: "db_seq_last d \<le> BIGINT_MAX"
    using ok by (auto simp: db_ok_def)
  have len: "length (hash_bytes h) = 32" using h by (simp add: hash_ok_def HASH_LEN_def)
  show ?thesis
  proof (cases "db_seq_last d < BIGINT_MAX")
    case False
    with res Some max show ?thesis
      by (intro refused[of SequenceExhausted "db_seq_last d"])
         (auto simp: insert_on_conflict_def nextval_def seq_room_def)
  next
    case room: True
    let ?s = "db_seq_last d + 1"
    let ?new = "\<lambda>s. proposed_row key doc h s (db_now d)"
    show ?thesis
    proof (cases "find (row_at key) (db_rows d)")
      case None
      have "check_row (db_rows d) (?new ?s) = Inr ()"
        using below len by (intro check_row_fresh) (auto dest: below)
      with res Some room None have "r = Inr (Some ?s)" "d' = put (?new ?s) d"
        by (auto simp: insert_on_conflict_def nextval_def put_def put_row_def Let_def find_row_None)
      with room Some None show ?thesis
        by (intro written[of ?s doc]) (auto simp: find_None_iff)
    next
      case f: (Some old)
      then have old: "old \<in> set (db_rows d)" "row_at key old" by (auto dest: find_SomeD)
      have only: "q = old" if "q \<in> set (db_rows d)" "row_at key q" for q
        using that f find_row_Some[OF dist, of key q] by simp
      show ?thesis
      proof (cases "r_hash old \<noteq> hash_bytes h \<or> r_deleted_at old \<noteq> None")
        case False
        with res Some room f len have "r = Inr None" "d' = d\<lparr>db_seq_last := ?s\<rparr>"
          by (auto simp: insert_on_conflict_def nextval_def)
        with False old room show ?thesis by (intro same) auto
      next
        case changed: True
        show ?thesis
        proof (cases "?s < BIGINT_MAX")
          case False
          with res Some room f len changed have "r = Inl SequenceExhausted" "d' = d\<lparr>db_seq_last := ?s\<rparr>"
            by (auto simp: insert_on_conflict_def nextval_def)
          with False room show ?thesis
            by (intro refused[of SequenceExhausted ?s]) (auto simp: seq_room_def)
        next
          case room2: True
          let ?upd = "old\<lparr>r_payload := doc, r_hash := hash_bytes h, r_seq := ?s + 1,
                        r_ingested_at := db_now d, r_deleted_at := None\<rparr>"
          have upd: "?upd = ?new (?s + 1)"
            using old(2) by (simp add: proposed_row_def row_at_def)
          have "check_row (filter (\<lambda>r. \<not> row_at key r) (db_rows d)) (?new (?s + 1)) = Inr ()"
            using below len by (intro check_row_fresh) (auto dest!: below)
          with res Some room room2 f len changed upd
          have "r = Inr (Some (?s + 1))" "d' = put (?new (?s + 1)) d"
            by (auto simp: insert_on_conflict_def nextval_def put_def Let_def update_rows_put[OF old])
          with room2 Some only changed show ?thesis
            by (intro written[of "?s + 1" doc]) auto
        qed
      qed
    qed
  qed
qed

lemma update_tombstone_cases:
  assumes ok: "db_ok E d" and res: "update_tombstone key d = (r, d')"
  obtains
    (refused) "r = Inl SequenceExhausted" "d' = d" "\<not> seq_room d"
  | (absent) "r = Inr None" "d' = d"
      "\<And>old. old \<in> set (db_rows d) \<Longrightarrow> row_at key old \<Longrightarrow> r_deleted_at old \<noteq> None"
  | (written) s old where "r = Inr (Some s)" "s = db_seq_last d + 1" "s \<le> BIGINT_MAX"
      "d' = put (tombstone_row key s (db_now d)) d"
      "old \<in> set (db_rows d)" "row_at key old" "r_deleted_at old = None"
proof (cases "find (\<lambda>r. row_at key r \<and> r_deleted_at r = None) (db_rows d)")
  case None
  with res show ?thesis by (intro absent) (auto simp: update_tombstone_def find_None_iff)
next
  case (Some old)
  then have old: "old \<in> set (db_rows d)" "row_at key old" "r_deleted_at old = None"
    by (auto dest: find_SomeD)
  have below: "\<And>q. q \<in> set (db_rows d) \<Longrightarrow> r_seq q \<le> db_seq_last d" using ok by (auto simp: db_ok_def)
  show ?thesis
  proof (cases "db_seq_last d < BIGINT_MAX")
    case False
    with res Some show ?thesis by (intro refused) (auto simp: update_tombstone_def nextval_def seq_room_def)
  next
    case True
    let ?s = "db_seq_last d + 1"
    let ?upd = "old\<lparr>r_payload := JObject [], r_hash := hash_bytes EMPTY_DOCUMENT, r_seq := ?s,
                  r_ingested_at := db_now d, r_deleted_at := Some (db_now d)\<rparr>"
    have upd: "?upd = tombstone_row key ?s (db_now d)"
      using old(2) by (simp add: tombstone_row_def proposed_row_def row_at_def)
    have "check_row (filter (\<lambda>r. \<not> row_at key r) (db_rows d)) (tombstone_row key ?s (db_now d)) = Inr ()"
      by (intro check_row_fresh) (auto dest!: below simp: EMPTY_DOCUMENT_bytes)
    with res Some True upd have "r = Inr (Some ?s)" "d' = put (tombstone_row key ?s (db_now d)) d"
      by (auto simp: update_tombstone_def nextval_def put_def Let_def update_rows_put[OF old(1,2)])
    with True old show ?thesis by (intro written[of ?s old]) auto
  qed
qed

end
