(* ===== verification/Apply_Facts.thy ===== *)
theory Apply_Facts
  imports Postgres_Facts
begin

text \<open>
  Writing: what one operation of a batch does, that every batch is a sequence of database steps, and
  that a failed batch writes nothing.
\<close>

section \<open>One operation\<close>

abbreviation op_key :: "source_name \<Rightarrow> collection_name \<Rightarrow> ingest_op \<Rightarrow> record_key" where
  "op_key source collection op \<equiv> record_key_new source collection (op_id op)"

fun op_ok :: "ingest_op \<Rightarrow> bool" where
  "op_ok (OpUpsert i p) = (record_id_ok i \<and> json_ok p)"
| "op_ok (OpDelete i) = record_id_ok i"

text \<open>The record is already as the operation wants it.\<close>

fun settled :: "env \<Rightarrow> record_key \<Rightarrow> ingest_op \<Rightarrow> row list \<Rightarrow> bool" where
  "settled E key (OpUpsert _ p) rows =
     (\<exists>old \<in> set rows. row_at key old \<and> content_hash E p = Inr (ContentHash (r_hash old)) \<and> r_deleted_at old = None)"
| "settled E key (OpDelete _) rows = (\<forall>old \<in> set rows. row_at key old \<longrightarrow> r_deleted_at old \<noteq> None)"

text \<open>A row the operation may write under its key.\<close>

fun op_content :: "env \<Rightarrow> ingest_op \<Rightarrow> row \<Rightarrow> bool" where
  "op_content E (OpUpsert _ p) r =
     (e_jsonb E p = Some (r_payload r) \<and> content_hash E p = Inr (ContentHash (r_hash r)) \<and> r_deleted_at r = None)"
| "op_content E (OpDelete _) r =
     (r_payload r = JObject [] \<and> r_hash r = hash_bytes EMPTY_DOCUMENT \<and> r_deleted_at r \<noteq> None)"

definition op_row :: "env \<Rightarrow> record_key \<Rightarrow> ingest_op \<Rightarrow> row \<Rightarrow> bool" where
  "op_row E key op r \<longleftrightarrow> row_id r = key_row_id key \<and> op_content E op r \<and> row_ok E r"

fun op_applied :: "ingest_op \<Rightarrow> seq \<Rightarrow> applied" where
  "op_applied (OpUpsert _ _) s = AStored s"
| "op_applied (OpDelete _) s = ATombstoned s"

lemma to_seq_ok: "0 \<le> s \<Longrightarrow> to_seq s = Inr (Seq (word_of_int s))"
  by (simp add: to_seq_def seq_new_def)

lemma record_key_ok_new: "record_key_ok (record_key_new s c i) \<longleftrightarrow> source_ok s \<and> collection_ok c \<and> record_id_ok i"
  by (simp add: record_key_ok_def record_key_new_def)

lemma row_ok_proposed:
  assumes "record_key_ok key" "json_ok p" "e_jsonb E p = Some doc" "content_hash E p = Inr h" "hash_ok h"
  shows "row_ok E (proposed_row key doc h s t)"
proof -
  have "r_source (proposed_row key doc h s t) = source_str (key_source key)"
    "r_collection (proposed_row key doc h s t) = collection_str (key_collection key)"
    "r_id (proposed_row key doc h s t) = id_str (key_id key)"
    by (simp_all add: proposed_row_def)
  with assms show ?thesis
    by (auto simp: row_ok_def record_key_ok_def hash_ok_def HASH_LEN_def)
qed

lemma row_ok_tombstone:
  assumes "record_key_ok key" "env_ok E"
  shows "row_ok E (tombstone_row key s t)"
proof -
  have "row_ok E (proposed_row key (JObject []) EMPTY_DOCUMENT s t)"
    using assms env_okD[of E] EMPTY_DOCUMENT_hash[of E]
    by (intro row_ok_proposed[of _ "JObject []"]) (auto simp: jsonb_env_ok_def)
  then show ?thesis by (simp add: row_ok_def tombstone_row_def)
qed

lemma apply_op_cases:
  assumes E: "env_ok E" and ok: "db_ok E d" and names: "source_ok source" "collection_ok collection" "op_ok op"
    and hashed: "hash_op E op = Inr oh" and res: "apply_op E source collection oh d = (r, d')"
  obtains
    (refused) e s where "r = Inl (Database e)" "d' = d\<lparr>db_seq_last := s\<rparr>" "db_seq_last d \<le> s" "s \<le> BIGINT_MAX"
      "(e = InvalidJsonText \<and> (\<exists>i p. op = OpUpsert i p \<and> e_jsonb E p = None)) \<or> \<not> seq_room d"
  | (unchanged) s where "r = Inr AUnchanged" "d' = d\<lparr>db_seq_last := s\<rparr>"
      "db_seq_last d \<le> s" "s \<le> db_seq_last d + 1" "s \<le> BIGINT_MAX"
      "settled E (op_key source collection op) op (db_rows d)"
  | (changed) new where "r = Inr (op_applied op (Seq (word_of_int (r_seq new))))" "d' = put new d"
      "db_seq_last d < r_seq new" "r_seq new \<le> BIGINT_MAX" "op_row E (op_key source collection op) op new"
      "\<not> settled E (op_key source collection op) op (db_rows d)"
proof (cases op)
  case (OpUpsert i p)
  let ?key = "record_key_new source collection i"
  from hashed OpUpsert obtain h where h: "content_hash E p = Inr h" and oh: "oh = (op, Some h)"
    by (auto simp: hash_op_def result_simps)
  have hok: "hash_ok h" using content_hash_ok[OF env_okD(1)[OF E] h] .
  have kok: "record_key_ok ?key" and pok: "json_ok p" using names OpUpsert by (simp_all add: record_key_ok_new)
  obtain r0 where ins: "insert_on_conflict E ?key p h d = (r0, d')"
    and r: "r = (case r0 of Inl e \<Rightarrow> Inl (Database e)
                 | Inr None \<Rightarrow> Inr AUnchanged | Inr (Some s) \<Rightarrow> map_ok AStored (to_seq s))"
    using res by (cases "insert_on_conflict E ?key p h d")
      (auto simp: oh OpUpsert write_upsert_def map_ok_def to_seq_def split: sum.splits option.splits if_splits)
  have nn: "0 \<le> db_seq_last d" using ok by (simp add: db_ok_def)
  from ok hok ins show ?thesis
  proof (cases rule: insert_on_conflict_cases)
    case (refused e s)
    with r OpUpsert show ?thesis by (intro that(1)) auto
  next
    case (same old)
    have "settled E ?key op (db_rows d)"
      using same h by (cases h) (auto simp: OpUpsert)
    with same r OpUpsert show ?thesis by (intro that(2)[of "db_seq_last d + 1"]) auto
  next
    case (written doc s)
    let ?new = "proposed_row ?key doc h s (db_now d)"
    have "op_row E ?key op ?new"
      using row_ok_proposed[OF kok pok written(2) h hok] written(2) h by (simp add: op_row_def OpUpsert)
    moreover have "\<not> settled E ?key op (db_rows d)" using written(6) h by (auto simp: OpUpsert)
    ultimately show ?thesis
      using written r nn OpUpsert by (intro that(3)[of ?new]) (auto simp: to_seq_ok map_ok_def)
  qed
next
  case (OpDelete i)
  let ?key = "record_key_new source collection i"
  from hashed OpDelete have oh: "oh = (op, None)" by (simp add: hash_op_def)
  have kok: "record_key_ok ?key" using names OpDelete by (simp add: record_key_ok_new)
  obtain r0 where upd: "update_tombstone ?key d = (r0, d')"
    and r: "r = (case r0 of Inl e \<Rightarrow> Inl (Database e)
                 | Inr None \<Rightarrow> Inr AUnchanged | Inr (Some s) \<Rightarrow> map_ok ATombstoned (to_seq s))"
    using res by (cases "update_tombstone ?key d")
      (auto simp: oh OpDelete write_delete_def map_ok_def to_seq_def split: sum.splits option.splits if_splits)
  have nn: "0 \<le> db_seq_last d" "db_seq_last d \<le> BIGINT_MAX" using ok by (simp_all add: db_ok_def)
  from ok upd show ?thesis
  proof (cases rule: update_tombstone_cases)
    case refused
    with r nn OpDelete show ?thesis by (intro that(1)[of SequenceExhausted "db_seq_last d"]) auto
  next
    case absent
    with r nn OpDelete show ?thesis by (intro that(2)[of "db_seq_last d"]) auto
  next
    case (written s old)
    let ?new = "tombstone_row ?key s (db_now d)"
    have "op_row E ?key op ?new" using row_ok_tombstone[OF kok E] by (simp add: op_row_def OpDelete)
    with written r nn OpDelete show ?thesis
      by (intro that(3)[of ?new]) (auto simp: to_seq_ok map_ok_def)
  qed
qed

lemma apply_op_room:
  assumes E: "env_ok E" and ok: "db_ok E d" and names: "source_ok source" "collection_ok collection" "op_ok op"
    and hashed: "hash_op E op = Inr oh" and res: "apply_op E source collection oh d = (r, d')"
  obtains a where "r = Inr a" "db_seq_last d' \<le> db_seq_last d + 2"
    | e where "r = Inl (Database e)" "(\<exists>i p. op = OpUpsert i p \<and> e_jsonb E p = None) \<or> \<not> seq_room d"
proof (cases op)
  case (OpUpsert i p)
  from hashed OpUpsert obtain h where h: "content_hash E p = Inr h" and oh: "oh = (op, Some h)"
    by (auto simp: hash_op_def result_simps)
  have "db_seq_last (snd (insert_on_conflict E key p h d)) \<le> db_seq_last d + 2" for key
    by (auto simp: insert_on_conflict_def nextval_def Let_def split: option.splits sum.splits)
  then have "db_seq_last d' \<le> db_seq_last d + 2"
    using res by (auto simp: oh OpUpsert write_upsert_def split: prod.splits sum.splits option.splits)
      (metis snd_conv)+
  with E ok names hashed res show ?thesis
    by (cases rule: apply_op_cases) (use that in auto)
next
  case (OpDelete i)
  from hashed OpDelete have oh: "oh = (op, None)" by (simp add: hash_op_def)
  have "db_seq_last (snd (update_tombstone key d)) \<le> db_seq_last d + 2" for key
    by (auto simp: update_tombstone_def nextval_def Let_def split: option.splits sum.splits)
  then have "db_seq_last d' \<le> db_seq_last d + 2"
    using res by (auto simp: oh OpDelete write_delete_def split: prod.splits sum.splits option.splits)
      (metis snd_conv)+
  with E ok names hashed res show ?thesis
    by (cases rule: apply_op_cases) (use that in auto)
qed

section \<open>Batches\<close>

text \<open>A row one of the operations of a batch may write.\<close>

definition batch_row :: "env \<Rightarrow> source_name \<Rightarrow> collection_name \<Rightarrow> ingest_op set \<Rightarrow> row \<Rightarrow> bool" where
  "batch_row E source collection ops r \<longleftrightarrow> (\<exists>op \<in> ops. op_row E (op_key source collection op) op r)"

lemma batch_row_ok: "batch_row E source collection ops r \<Longrightarrow> row_ok E r"
  by (auto simp: batch_row_def op_row_def)

lemma batch_row_id:
  "batch_row E source collection ops r \<Longrightarrow> r_source r = source_str source \<and> r_collection r = collection_str collection"
  by (auto simp: batch_row_def op_row_def row_id_def key_row_id_def record_key_new_def)

lemma step_put: "W new \<Longrightarrow> db_seq_last d < r_seq new \<Longrightarrow> r_seq new \<le> BIGINT_MAX \<Longrightarrow> db_step W d (put new d)"
  unfolding put_def by (rule step_write)

lemma apply_op_step:
  assumes "env_ok E" "db_ok E d" "source_ok source" "collection_ok collection" "op_ok op"
    "hash_op E op = Inr oh" "apply_op E source collection oh d = (r, d')"
  shows "db_step (batch_row E source collection {op}) d d'"
  using assms
  by (cases rule: apply_op_cases)
     (auto intro: step_burn step_put simp: batch_row_def)

lemma apply_ops_steps:
  assumes "env_ok E" "db_ok E d" "source_ok source" "collection_ok collection" "list_all op_ok ops"
    "traverse (hash_op E) ops = Inr hashed" "apply_ops E source collection hashed d = (r, d')"
  shows "db_steps (batch_row E source collection (set ops)) d d'"
  using assms(2,5-)
proof (induction ops arbitrary: d hashed r)
  case Nil
  then show ?case by simp
next
  case (Cons op ops)
  then obtain oh hashed' where h: "hash_op E op = Inr oh" "traverse (hash_op E) ops = Inr hashed'"
      and hashed: "hashed = oh # hashed'"
    unfolding traverse_Cons_Inr by blast
  obtain r1 d1 where one: "apply_op E source collection oh d = (r1, d1)" by fastforce
  have step: "db_step (batch_row E source collection (set (op # ops))) d d1"
    using apply_op_step[OF assms(1) Cons.prems(1) assms(3,4) _ h(1) one] Cons.prems(2)
    by (auto intro: db_step_mono simp: batch_row_def)
  have ok1: "db_ok E d1" using db_step_ok[OF step batch_row_ok Cons.prems(1)] .
  show ?case
  proof (cases r1)
    case (Inl e)
    with Cons.prems one hashed have "d' = d1" by simp
    with step show ?thesis by blast
  next
    case (Inr a)
    with Cons.prems one hashed obtain r2 where "apply_ops E source collection hashed' d1 = (r2, d')"
      by (auto split: prod.splits)
    with Cons.IH[OF ok1 _ h(2)] Cons.prems have "db_steps (batch_row E source collection (set ops)) d1 d'" by simp
    then have "db_steps (batch_row E source collection (set (op # ops))) d1 d'"
      by (rule db_steps_mono) (auto simp: batch_row_def)
    with step show ?thesis by (rule converse_rtranclp_into_rtranclp)
  qed
qed

lemma pg_apply_cases:
  assumes "pg_apply E source collection ops d = (r, d')"
  obtains (unhashed) e where "r = Inl e" "d' = d" "traverse (hash_op E) ops = Inl e"
    | (failed) e hashed d1 where "r = Inl e" "traverse (hash_op E) ops = Inr hashed"
        "apply_ops E source collection hashed d = (Inl e, d1)" "d' = rollback d d1"
    | (applied) outcomes hashed where "r = Inr outcomes" "traverse (hash_op E) ops = Inr hashed"
        "apply_ops E source collection hashed d = (Inr outcomes, d')"
  using assms by (auto simp: pg_apply_def split: sum.splits prod.splits)

lemma pg_apply_steps:
  assumes "env_ok E" "db_ok E d" "source_ok source" "collection_ok collection" "list_all op_ok ops"
    "pg_apply E source collection ops d = (r, d')"
  shows "db_steps (batch_row E source collection (set ops)) d d'"
  using assms(6)
proof (cases rule: pg_apply_cases)
  case (failed e hashed d1)
  note steps = apply_ops_steps[OF assms(1-5) failed(2,3)]
  have "db_seq_last d \<le> db_seq_last d1" "db_seq_last d1 \<le> BIGINT_MAX"
    using db_steps_evolves[OF steps] db_steps_ok[OF steps batch_row_ok assms(2)]
    by (auto simp: evolves_def db_ok_def)
  then show ?thesis
    unfolding failed(4) rollback_def by (intro r_into_rtranclp step_burn)
qed (use apply_ops_steps[OF assms(1-5)] in auto)

lemma pg_apply_ok:
  assumes "env_ok E" "db_ok E d" "source_ok source" "collection_ok collection" "list_all op_ok ops"
    "pg_apply E source collection ops d = (r, d')"
  shows "db_ok E d'"
  using db_steps_ok[OF pg_apply_steps[OF assms] batch_row_ok assms(2)] .

lemma pg_apply_failed: "pg_apply E source collection ops d = (Inl e, d') \<Longrightarrow> d' = d\<lparr>db_seq_last := db_seq_last d'\<rparr>"
  by (erule pg_apply_cases) (auto simp: rollback_def)

end
