(* ===== verification/Batch_Refinement.thy ===== *)
theory Batch_Refinement
  imports Apply_Facts
begin

text \<open>
  The abstract promise of the store: a collection is a map from ids to documents. A successful batch
  is the fold of its operations over that map; feed positions are fresh and increasing; repeating a
  batch changes nothing.
\<close>

section \<open>Successful operations as steps\<close>

inductive op_step :: "env \<Rightarrow> source_name \<Rightarrow> collection_name \<Rightarrow> ingest_op \<Rightarrow> db \<Rightarrow> applied \<Rightarrow> db \<Rightarrow> bool"
  for E source collection op where
  op_unchanged: "settled E (op_key source collection op) op (db_rows d) \<Longrightarrow>
    db_seq_last d \<le> s \<Longrightarrow> s \<le> db_seq_last d + 1 \<Longrightarrow> s \<le> BIGINT_MAX \<Longrightarrow>
    op_step E source collection op d AUnchanged (d\<lparr>db_seq_last := s\<rparr>)"
| op_changed: "\<not> settled E (op_key source collection op) op (db_rows d) \<Longrightarrow>
    op_row E (op_key source collection op) op new \<Longrightarrow> db_seq_last d < r_seq new \<Longrightarrow> r_seq new \<le> BIGINT_MAX \<Longrightarrow>
    op_step E source collection op d (op_applied op (Seq (word_of_int (r_seq new)))) (put new d)"

inductive runs :: "env \<Rightarrow> source_name \<Rightarrow> collection_name \<Rightarrow> db \<Rightarrow> ingest_op list \<Rightarrow> applied list \<Rightarrow> db \<Rightarrow> bool"
  for E source collection where
  runs_nil: "runs E source collection d [] [] d"
| runs_cons: "db_ok E d \<Longrightarrow> op_step E source collection op d a d1 \<Longrightarrow> runs E source collection d1 ops as d2 \<Longrightarrow>
    runs E source collection d (op # ops) (a # as) d2"

inductive_cases runs_ConsE: "runs E source collection d (op # ops) outs d'"

lemma apply_op_op_step:
  assumes "env_ok E" "db_ok E d" "source_ok source" "collection_ok collection" "op_ok op"
    "hash_op E op = Inr oh" "apply_op E source collection oh d = (Inr a, d')"
  shows "op_step E source collection op d a d'"
  using assms by (cases rule: apply_op_cases) (auto intro: op_step.intros)

lemma apply_ops_runs:
  assumes "env_ok E" "db_ok E d" "source_ok source" "collection_ok collection" "list_all op_ok ops"
    "traverse (hash_op E) ops = Inr hashed" "apply_ops E source collection hashed d = (Inr outs, d')"
  shows "runs E source collection d ops outs d'"
  using assms(2,5-)
proof (induction ops arbitrary: d hashed outs)
  case Nil
  then show ?case by (simp add: runs_nil)
next
  case (Cons op ops)
  then obtain oh hashed' where h: "hash_op E op = Inr oh" "traverse (hash_op E) ops = Inr hashed'"
      and hashed: "hashed = oh # hashed'"
    unfolding traverse_Cons_Inr by blast
  from Cons.prems hashed obtain a d1 outs' where one: "apply_op E source collection oh d = (Inr a, d1)"
      and rest: "apply_ops E source collection hashed' d1 = (Inr outs', d')" and outs: "outs = a # outs'"
    by (auto simp: map_ok_def split: prod.splits sum.splits)
  have opk: "op_ok op" "list_all op_ok ops" using Cons.prems by simp_all
  have "db_ok E d1"
    using db_step_ok[OF apply_op_step[OF assms(1) Cons.prems(1) assms(3,4) opk(1) h(1) one] batch_row_ok Cons.prems(1)] .
  from Cons.IH[OF this opk(2) h(2) rest] show ?case
    unfolding outs using Cons.prems(1) apply_op_op_step[OF assms(1) Cons.prems(1) assms(3,4) opk(1) h(1) one]
    by (intro runs_cons)
qed

lemma pg_apply_runs:
  assumes "env_ok E" "db_ok E d" "source_ok source" "collection_ok collection" "list_all op_ok ops"
    "pg_apply E source collection ops d = (Inr outs, d')"
  shows "runs E source collection d ops outs d'"
  using assms(6) by (cases rule: pg_apply_cases) (use apply_ops_runs[OF assms(1-5)] in auto)

section \<open>The live view\<close>

type_synonym content = "rstr \<Rightarrow> (json \<times> bytes) option"

definition row_content :: "row \<Rightarrow> (json \<times> bytes) option" where
  "row_content r = (if r_deleted_at r = None then Some (r_payload r, r_hash r) else None)"

definition live :: "source_name \<Rightarrow> collection_name \<Rightarrow> db \<Rightarrow> content" where
  "live source collection d i =
     Option.bind (find (\<lambda>r. in_collection source collection r \<and> r_id r = i) (db_rows d)) row_content"

lemma in_collection_id:
  "in_collection source collection r \<and> r_id r = i \<longleftrightarrow> row_id r = (source_str source, collection_str collection, i)"
  by (auto simp: in_collection_def row_id_def)

lemma find_row_id: "distinct (map row_id rows) \<Longrightarrow> find (\<lambda>r. row_id r = k) rows = Some r \<longleftrightarrow> r \<in> set rows \<and> row_id r = k"
  using find_key_unique[of row_id rows] by (fastforce dest: find_SomeD)

lemma live_row:
  "distinct (map row_id (db_rows d)) \<Longrightarrow> r \<in> set (db_rows d) \<Longrightarrow> in_collection source collection r \<Longrightarrow>
     live source collection d (r_id r) = row_content r"
  using find_row_id[of "db_rows d" "row_id r" r]
  by (auto simp: live_def in_collection_id in_collection_def row_id_def)

lemma live_absent:
  "(\<And>r. r \<in> set (db_rows d) \<Longrightarrow> in_collection source collection r \<Longrightarrow> r_id r \<noteq> i) \<Longrightarrow> live source collection d i = None"
proof -
  assume "\<And>r. r \<in> set (db_rows d) \<Longrightarrow> in_collection source collection r \<Longrightarrow> r_id r \<noteq> i"
  then have "find (\<lambda>r. in_collection source collection r \<and> r_id r = i) (db_rows d) = None"
    by (auto simp: find_None_iff)
  then show ?thesis by (simp add: live_def)
qed

lemma live_seq_last [simp]: "live source collection (d\<lparr>db_seq_last := s\<rparr>) = live source collection d"
  by (simp add: live_def fun_eq_iff)

lemma live_put:
  assumes "distinct (map row_id (db_rows d))"
  shows "live source collection (put new d) =
    (if in_collection source collection new then (live source collection d)(r_id new := row_content new)
     else live source collection d)"
proof (rule ext)
  fix i :: rstr
  let ?k = "(source_str source, collection_str collection, i)"
  have d': "distinct (map row_id (put_row new (db_rows d)))" by (rule distinct_put_row[OF assms])
  have key: "in_collection source collection new \<and> r_id new = i \<longleftrightarrow> row_id new = ?k" by (rule in_collection_id)
  have "find (\<lambda>r. row_id r = ?k) (put_row new (db_rows d)) =
      (if row_id new = ?k then Some new else find (\<lambda>r. row_id r = ?k) (db_rows d))"
  proof (cases "row_id new = ?k")
    case True
    then show ?thesis using find_row_id[OF d', of ?k new] by (simp add: set_put_row)
  next
    case False
    then have "find (\<lambda>r. row_id r = ?k) (put_row new (db_rows d)) = Some r \<longleftrightarrow> find (\<lambda>r. row_id r = ?k) (db_rows d) = Some r" for r
      using find_row_id[OF d', of ?k r] find_row_id[OF assms, of ?k r] by (auto simp: set_put_row)
    with False show ?thesis by (metis option.exhaust)
  qed
  then have eq: "live source collection (put new d) i =
      (if row_id new = ?k then row_content new else live source collection d i)"
    by (simp add: live_def in_collection_id)
  show "live source collection (put new d) i =
    (if in_collection source collection new then (live source collection d)(r_id new := row_content new)
     else live source collection d) i"
    unfolding eq key[symmetric] by auto
qed

section \<open>The abstract batch\<close>

fun spec_changes :: "env \<Rightarrow> ingest_op \<Rightarrow> content \<Rightarrow> bool" where
  "spec_changes E (OpUpsert i p) m =
     (map_option (\<lambda>c. Inr (ContentHash (snd c))) (m (id_str i)) \<noteq> Some (content_hash E p))"
| "spec_changes E (OpDelete i) m = (m (id_str i) \<noteq> None)"

fun spec_content :: "env \<Rightarrow> ingest_op \<Rightarrow> (json \<times> bytes) option" where
  "spec_content E (OpUpsert _ p) =
     (case (e_jsonb E p, content_hash E p) of (Some doc, Inr h) \<Rightarrow> Some (doc, hash_bytes h) | _ \<Rightarrow> None)"
| "spec_content E (OpDelete _) = None"

fun spec_batch :: "env \<Rightarrow> ingest_op list \<Rightarrow> content \<Rightarrow> bool list \<times> content" where
  "spec_batch E [] m = ([], m)"
| "spec_batch E (op # ops) m =
     (let m' = (if spec_changes E op m then m(id_str (op_id op) := spec_content E op) else m);
          (changes, m'') = spec_batch E ops m'
      in (spec_changes E op m # changes, m''))"

lemma settled_live:
  assumes "db_ok E d"
  shows "settled E (op_key source collection op) op (db_rows d) \<longleftrightarrow> \<not> spec_changes E op (live source collection d)"
proof -
  have dist: "distinct (map row_id (db_rows d))" using assms by (simp add: db_ok_def)
  have k: "row_at (record_key_new source collection i) r \<longleftrightarrow> row_id r = (source_str source, collection_str collection, id_str i)" for i r
    by (simp add: row_at_iff key_row_id_def record_key_new_def)
  let ?i = "(source_str source, collection_str collection, id_str (op_id op))"
  show ?thesis
  proof (cases "find (\<lambda>r. row_id r = ?i) (db_rows d)")
    case None
    then have "live source collection d (id_str (op_id op)) = None" by (simp add: live_def in_collection_id)
    moreover from None have "row_id r \<noteq> ?i" if "r \<in> set (db_rows d)" for r
      using that by (auto simp: find_None_iff)
    ultimately show ?thesis by (cases op) (simp_all add: k)
  next
    case (Some r)
    then have l: "live source collection d (id_str (op_id op)) = row_content r"
      by (simp add: live_def in_collection_id)
    from Some have r: "q \<in> set (db_rows d) \<and> row_id q = ?i \<longleftrightarrow> q = r" for q
      using find_row_id[OF dist, of ?i q] by auto
    have ex: "(\<exists>q \<in> set (db_rows d). row_id q = ?i \<and> P q) \<longleftrightarrow> P r"
      and all: "(\<forall>q \<in> set (db_rows d). row_id q = ?i \<longrightarrow> P q) \<longleftrightarrow> P r" for P
      unfolding Bex_def Ball_def conj_assoc [symmetric] imp_conjL [symmetric] r by simp_all
    show ?thesis
    proof (cases op)
      case (OpUpsert i p)
      with l show ?thesis using ex[of "\<lambda>q. content_hash E p = Inr (ContentHash (r_hash q)) \<and> r_deleted_at q = None"]
        by (auto simp: k row_content_def)
    next
      case (OpDelete i)
      with l show ?thesis using all[of "\<lambda>q. r_deleted_at q \<noteq> None"]
        by (auto simp: k row_content_def)
    qed
  qed
qed

lemma op_row_content: "op_row E key op r \<Longrightarrow> row_content r = spec_content E op"
  by (cases op) (auto simp: op_row_def row_content_def)

lemma op_row_at:
  "op_row E (op_key source collection op) op r \<Longrightarrow> in_collection source collection r \<and> r_id r = id_str (op_id op)"
  by (auto simp: op_row_def in_collection_id key_row_id_def record_key_new_def)

lemma op_step_spec:
  assumes "db_ok E d" "op_step E source collection op d a d'"
  shows "(applied_seq a \<noteq> None) = spec_changes E op (live source collection d)"
    and "live source collection d' =
      (if spec_changes E op (live source collection d)
       then (live source collection d)(id_str (op_id op) := spec_content E op) else live source collection d)"
proof -
  have dist: "distinct (map row_id (db_rows d))" using assms(1) by (simp add: db_ok_def)
  have sp: "settled E (op_key source collection op) op (db_rows d) \<longleftrightarrow> \<not> spec_changes E op (live source collection d)"
    by (rule settled_live[OF assms(1)])
  show "(applied_seq a \<noteq> None) = spec_changes E op (live source collection d)"
    using assms(2) sp by cases (cases op; auto)+
  show "live source collection d' =
      (if spec_changes E op (live source collection d)
       then (live source collection d)(id_str (op_id op) := spec_content E op) else live source collection d)"
    using assms(2) sp by cases (auto simp: live_put[OF dist] op_row_at op_row_content)
qed

lemma runs_spec:
  "runs E source collection d ops outs d' \<Longrightarrow>
     spec_batch E ops (live source collection d) = (map (\<lambda>a. applied_seq a \<noteq> None) outs, live source collection d')"
proof (induction rule: runs.induct)
  case (runs_cons d op a d1 ops as d2)
  with op_step_spec[OF runs_cons.hyps(1,2)] show ?case by (simp add: Let_def)
qed simp

end
