(* ===== verification/Sample_Store.thy ===== *)
theory Sample_Store
  imports Batch_Refinement
begin

text \<open>A source, a batch and the database it leads to: the concrete store the witnesses evaluate.\<close>

definition erp :: source_name where "erp = SourceName (lit ''erp'')"
definition products :: collection_name where "products = CollectionName (lit ''products'')"

definition item :: "string \<Rightarrow> json" where
  "item s = JObject [(lit ''sku'', JString (lit s))]"

definition sample_batch :: "ingest_op list" where
  "sample_batch =
     [OpUpsert (RecordId (lit ''A'')) (item ''A''), OpUpsert (RecordId (lit ''B'')) (item ''B''),
      OpDelete (RecordId (lit ''C''))]"

definition sample_row :: "string \<Rightarrow> int \<Rightarrow> row" where
  "sample_row s n = proposed_row (record_key_new erp products (RecordId (lit s))) (item s)
     (ContentHash (sample_digest (sample_jcs (item s)))) n 7"

definition sample_db :: db where
  "sample_db = \<lparr>db_rows = [sample_row ''A'' 1, sample_row ''B'' 2], db_seq_last = 2, db_tokens = [], db_now = 7\<rparr>"

lemma sample_names_ok [simp]: "source_ok erp" "collection_ok products"
  by (simp_all add: erp_def products_def ident_eval)

lemma sample_batch_ok [simp]: "list_all op_ok sample_batch"
  by (simp add: sample_batch_def item_def ident_eval bt_ok_def)

lemma sample_run: "pg_apply sample_env erp products sample_batch (empty_db 7) =
    (Inr [AStored (Seq 1), AStored (Seq 2), AUnchanged], sample_db)"
  by code_simp

lemma sample_rerun: "pg_apply sample_env erp products sample_batch sample_db =
    (Inr [AUnchanged, AUnchanged, AUnchanged], sample_db\<lparr>db_seq_last := 4\<rparr>)"
  by code_simp

lemma sample_db_ok: "db_ok sample_env sample_db"
  using pg_apply_ok[OF sample_env_ok empty_db_ok sample_names_ok sample_batch_ok sample_run] .

end
