(* ===== verification/Batch_Properties.thy ===== *)
theory Batch_Properties
  imports Sample_Store
begin

text \<open>What a batch of operations promises a sender.\<close>

section \<open>Atomicity and totality\<close>


definition nul_batch :: "ingest_op list" where
  "nul_batch = [OpUpsert (RecordId (lit ''D'')) (item ''D''),
                OpUpsert (RecordId (lit ''E'')) (JObject [(lit ''sku'', JString [0])])]"


fun op_storable :: "env \<Rightarrow> ingest_op \<Rightarrow> bool" where
  "op_storable E (OpUpsert _ p) = (e_jcs E p \<noteq> None \<and> e_jsonb E p \<noteq> None)"
| "op_storable E (OpDelete _) = True"

lemma hash_op_storable: "op_storable E op \<Longrightarrow> \<exists>oh. hash_op E op = Inr oh"
  by (cases op) (auto simp: hash_op_def content_hash_def canonicalize_def result_simps)

lemma apply_ops_total:
  assumes "env_ok E" "db_ok E d" "source_ok source" "collection_ok collection" "list_all op_ok ops"
    "list_all (op_storable E) ops" "traverse (hash_op E) ops = Inr hashed"
    "db_seq_last d + 2 * int (length ops) \<le> BIGINT_MAX"
  shows "\<exists>outs d'. apply_ops E source collection hashed d = (Inr outs, d') \<and> length outs = length ops"
  using assms(2,5-)
proof (induction ops arbitrary: d hashed)
  case (Cons op ops)
  then obtain oh hashed' where h: "hash_op E op = Inr oh" "traverse (hash_op E) ops = Inr hashed'"
      and hashed: "hashed = oh # hashed'"
    unfolding traverse_Cons_Inr by blast
  have opk: "op_ok op" using Cons.prems by simp
  obtain r d1 where one: "apply_op E source collection oh d = (r, d1)" by fastforce
  note step = apply_op_step[OF assms(1) Cons.prems(1) assms(3,4) opk h(1) one]
  have ok1: "db_ok E d1" using db_step_ok[OF step batch_row_ok Cons.prems(1)] .
  from assms(1) Cons.prems(1) assms(3,4) opk h(1) one
  have "\<exists>a. r = Inr a \<and> db_seq_last d1 \<le> db_seq_last d + 2"
  proof (cases rule: apply_op_room)
    case (1 a)
    then show ?thesis by blast
  next
    case (2 e)
    with Cons.prems show ?thesis by (auto simp: seq_room_def)
  qed
  then obtain a where r: "r = Inr a" "db_seq_last d1 \<le> db_seq_last d + 2" by blast
  with Cons.IH[OF ok1 _ _ h(2)] Cons.prems obtain outs d' where
    "apply_ops E source collection hashed' d1 = (Inr outs, d')" "length outs = length ops" by fastforce
  with r one show ?case by (auto simp: hashed map_ok_def)
qed simp

text \<open>C28: No constraint of the tables can fail and no row can be read as corrupt while a batch is applied:
  as long as every payload can be hashed and kept and the sequence has two positions per operation,
  the batch succeeds with one outcome per operation.\<close>

theorem storable_batch_succeeds:
  assumes "env_ok E" and "db_ok E d" and "source_ok source" and "collection_ok collection"
    and "list_all op_ok ops" and "list_all (op_storable E) ops"
    and "db_seq_last d + 2 * int (length ops) \<le> BIGINT_MAX"
  shows "\<exists>outs d'. pg_apply E source collection ops d = (Inr outs, d') \<and> length outs = length ops"
proof -
  have "\<forall>op \<in> set ops. \<exists>oh. hash_op E op = Inr oh"
    using assms(6) hash_op_storable by (auto simp: list_all_iff)
  then obtain g where "\<And>op. op \<in> set ops \<Longrightarrow> hash_op E op = Inr (g op)" by metis
  then have "traverse (hash_op E) ops = Inr (map g ops)" by (rule traverse_Inr_map)
  with apply_ops_total[OF assms(1-6) this assms(7)] show ?thesis by (auto simp: pg_apply_def)
qed

lemma storable_batch_succeeds_witness:
  "\<exists>outs d'. pg_apply sample_env erp products sample_batch sample_db = (Inr outs, d') \<and> length outs = 3"
proof -
  have "list_all (op_storable sample_env) sample_batch"
    by (simp add: sample_batch_def sample_env_def item_def)
  moreover have "length sample_batch = 3" "db_seq_last sample_db + 2 * int (length sample_batch) \<le> BIGINT_MAX"
    by (simp_all add: sample_db_def BIGINT_MAX_def sample_batch_def)
  ultimately show ?thesis
    using storable_batch_succeeds[OF sample_env_ok sample_db_ok sample_names_ok sample_batch_ok] by metis
qed

section \<open>What a batch does\<close>

text \<open>C6: A successful batch is the fold of its operations over the collection's map from ids to documents:
  an upsert stores its document unless the live one has the same hash, a delete removes it, later
  operations see earlier ones, and each outcome says whether the map changed.\<close>

theorem batch_refines_map:
  assumes "env_ok E" and "db_ok E d" and "source_ok source" and "collection_ok collection"
    and "list_all op_ok ops" and "pg_apply E source collection ops d = (Inr outs, d')"
  shows "spec_batch E ops (live source collection d) =
    (map (\<lambda>a. applied_seq a \<noteq> None) outs, live source collection d')"
  using pg_apply_runs[OF assms] by (rule runs_spec)

lemma batch_refines_map_witness:
  "spec_batch sample_env sample_batch (live erp products (empty_db 7)) =
     ([True, True, False], live erp products sample_db)"
  using batch_refines_map[OF sample_env_ok empty_db_ok sample_names_ok sample_batch_ok sample_run] by simp

definition feed_positions :: "applied list \<Rightarrow> int list" where
  "feed_positions outs = List.map_filter (\<lambda>a. map_option (\<lambda>s. uint (seq_get s)) (applied_seq a)) outs"

lemma uint_position: "0 \<le> s \<Longrightarrow> s \<le> BIGINT_MAX \<Longrightarrow> uint (word_of_int s :: 64 word) = s"
  by (simp add: BIGINT_MAX_def unsigned_of_int take_bit_int_eq_self)

lemma runs_positions:
  "runs E source collection d ops outs d' \<Longrightarrow>
     db_seq_last d \<le> db_seq_last d' \<and> sorted_wrt (<) (feed_positions outs) \<and>
     (\<forall>p \<in> set (feed_positions outs). db_seq_last d < p \<and> p \<le> db_seq_last d')"
proof (induction rule: runs.induct)
  case (runs_cons d op a d1 ops as d2)
  have nn: "0 \<le> db_seq_last d" using runs_cons.hyps by (simp add: db_ok_def)
  from runs_cons.hyps(2) show ?case
  proof cases
    case (op_unchanged s)
    with runs_cons.IH show ?thesis by (fastforce simp: feed_positions_def)
  next
    case (op_changed new)
    then have "feed_positions (a # as) = r_seq new # feed_positions as"
      using nn by (cases op) (simp_all add: feed_positions_def uint_position)
    with op_changed runs_cons.IH show ?thesis by fastforce
  qed
qed (simp add: feed_positions_def)

text \<open>C38: Every change gets a feed position of its own, above every position given out before the batch
  and increasing in the order of the operations.\<close>

theorem batch_positions_fresh:
  assumes "env_ok E" and "db_ok E d" and "source_ok source" and "collection_ok collection"
    and "list_all op_ok ops" and "pg_apply E source collection ops d = (Inr outs, d')"
  shows "sorted_wrt (<) (feed_positions outs) \<and>
    (\<forall>p \<in> set (feed_positions outs). db_seq_last d < p \<and> p \<le> db_seq_last d')"
  using runs_positions[OF pg_apply_runs[OF assms]] by blast

lemma batch_positions_fresh_witness:
  "sorted_wrt (<) (feed_positions [AStored (Seq 1), AStored (Seq 2), AUnchanged]) \<and>
   feed_positions [AStored (Seq 1), AStored (Seq 2), AUnchanged] = [1, 2]"
  using batch_positions_fresh[OF sample_env_ok empty_db_ok sample_names_ok sample_batch_ok sample_run]
  by (simp add: feed_positions_def)

section \<open>Repeating a batch\<close>

lemma op_step_settles:
  assumes "op_step E source collection op d a d'"
  shows "settled E (op_key source collection op) op (db_rows d')"
  using assms
proof cases
  case (op_changed new)
  then show ?thesis by (cases op) (auto simp: op_row_def set_put_row row_at_iff)
qed simp

lemma op_step_keeps_settled:
  assumes "op_step E source collection op d a d'" "op_id op \<noteq> op_id op0"
    "settled E (op_key source collection op0) op0 (db_rows d)"
  shows "settled E (op_key source collection op0) op0 (db_rows d')"
  using assms(1)
proof cases
  case (op_changed new)
  have "row_id new \<noteq> key_row_id (op_key source collection op0)"
    using op_changed(4) assms(2)
    by (auto simp: op_row_def key_row_id_def record_key_new_def record_id.expand)
  with assms(3) op_changed show ?thesis by (cases op0) (auto simp: set_put_row row_at_iff)
qed (use assms in simp)

lemma runs_settle:
  "runs E source collection d ops outs d' \<Longrightarrow> distinct (map op_id ops) \<Longrightarrow>
     (\<forall>op \<in> set ops. settled E (op_key source collection op) op (db_rows d')) \<and>
     (\<forall>op0. op_id op0 \<notin> op_id ` set ops \<longrightarrow> settled E (op_key source collection op0) op0 (db_rows d) \<longrightarrow>
        settled E (op_key source collection op0) op0 (db_rows d'))"
proof (induction rule: runs.induct)
  case (runs_cons d op a d1 ops as d2)
  then have new: "op_id op \<notin> op_id ` set ops"
    and ops: "\<forall>op0 \<in> set ops. settled E (op_key source collection op0) op0 (db_rows d2)"
    and keep: "\<And>op0. op_id op0 \<notin> op_id ` set ops \<Longrightarrow> settled E (op_key source collection op0) op0 (db_rows d1) \<Longrightarrow>
      settled E (op_key source collection op0) op0 (db_rows d2)"
    by auto
  have "settled E (op_key source collection op) op (db_rows d2)"
    by (rule keep[OF new op_step_settles[OF runs_cons.hyps(2)]])
  moreover have "settled E (op_key source collection op0) op0 (db_rows d2)"
    if "op_id op0 \<notin> op_id ` set (op # ops)" "settled E (op_key source collection op0) op0 (db_rows d)" for op0
    using that op_step_keeps_settled[OF runs_cons.hyps(2), of op0] by (intro keep) auto
  ultimately show ?case using ops by auto
qed simp

lemma runs_settled_unchanged:
  "runs E source collection d ops outs d' \<Longrightarrow>
     (\<forall>op \<in> set ops. settled E (op_key source collection op) op (db_rows d)) \<Longrightarrow>
     db_rows d' = db_rows d \<and> outs = replicate (length ops) AUnchanged"
proof (induction rule: runs.induct)
  case (runs_cons d op a d1 ops as d2)
  from runs_cons.hyps(2) show ?case
  proof cases
    case (op_unchanged s)
    with runs_cons show ?thesis by simp
  qed (use runs_cons.prems in auto)
qed simp

text \<open>C15: A retry costs nothing: applying a batch of distinct ids a second time writes no row, and when it
  succeeds every outcome is \<open>Unchanged\<close>.\<close>

theorem batch_retry_is_noop:
  assumes "env_ok E" and "db_ok E d" and "source_ok source" and "collection_ok collection"
    and "list_all op_ok ops" and "distinct (map op_id ops)"
    and "pg_apply E source collection ops d = (Inr outs, d1)"
    and "pg_apply E source collection ops d1 = (r, d2)"
  shows "db_rows d2 = db_rows d1 \<and> (\<forall>outs2. r = Inr outs2 \<longrightarrow> outs2 = replicate (length ops) AUnchanged)"
proof (cases r)
  case (Inl e)
  then have "db_rows d2 = db_rows d1" using pg_apply_failed[of E source collection ops d1 e d2] assms(8)
    by (metis db.select_convs(1) db.surjective db.update_convs(2))
  with Inl show ?thesis by simp
next
  case (Inr outs2)
  have ok: "db_ok E d1" by (rule pg_apply_ok[OF assms(1-5,7)])
  have "runs E source collection d1 ops outs2 d2"
    using pg_apply_runs[OF assms(1) ok assms(3-5)] assms(8) Inr by simp
  moreover have "\<forall>op \<in> set ops. settled E (op_key source collection op) op (db_rows d1)"
    using runs_settle[OF pg_apply_runs[OF assms(1-5,7)] assms(6)] by blast
  ultimately show ?thesis using Inr runs_settled_unchanged by blast
qed

lemma batch_retry_is_noop_witness:
  "db_rows (snd (pg_apply sample_env erp products sample_batch sample_db)) = db_rows sample_db"
proof -
  have "distinct (map op_id sample_batch)" by code_simp
  from batch_retry_is_noop[OF sample_env_ok empty_db_ok sample_names_ok sample_batch_ok this sample_run sample_rerun]
  show ?thesis by (simp add: sample_rerun)
qed

section \<open>Batches and single operations\<close>

lemma apply_ops_append:
  "apply_ops E source collection (xs @ ys) d =
     (case apply_ops E source collection xs d of
        (Inl e, d1) \<Rightarrow> (Inl e, d1)
      | (Inr o1, d1) \<Rightarrow> (case apply_ops E source collection ys d1 of (r, d2) \<Rightarrow> (map_ok (\<lambda>o2. o1 @ o2) r, d2)))"
  by (induction xs arbitrary: d) (auto simp: map_ok_def split: sum.splits prod.splits)

lemma traverse_append_Inr:
  "traverse f (xs @ ys) = Inr zs \<longleftrightarrow> (\<exists>as bs. traverse f xs = Inr as \<and> traverse f ys = Inr bs \<and> zs = as @ bs)"
proof (induction xs arbitrary: zs)
  case (Cons x xs)
  then show ?case unfolding append_Cons traverse_Cons_Inr by auto
qed simp

text \<open>A batch behaves as its operations sent one after the other: splitting a batch at any point gives
  the same outcomes and the same database.\<close>

theorem batch_is_sequential:
  "pg_apply E source collection (xs @ ys) d = (Inr outs, d2) \<longleftrightarrow>
     (\<exists>o1 o2 d1. pg_apply E source collection xs d = (Inr o1, d1) \<and>
        pg_apply E source collection ys d1 = (Inr o2, d2) \<and> outs = o1 @ o2)"
proof -
  have run: "pg_apply E source collection ops d = (Inr outs, d') \<longleftrightarrow>
      (\<exists>hashed. traverse (hash_op E) ops = Inr hashed \<and> apply_ops E source collection hashed d = (Inr outs, d'))"
    for ops d outs d'
    by (auto simp: pg_apply_def split: sum.splits prod.splits)
  show ?thesis
    unfolding run traverse_append_Inr
    by (fastforce simp: apply_ops_append map_ok_def split: sum.splits prod.splits)
qed

end
