(* ===== verification/Feed.thy ===== *)
theory Feed
  imports Batch_Properties
begin

text \<open>
  Reading: listings and the change feed are pages over the rows of a collection in feed order. A page
  is a prefix of what is left, never empty while something is left, and a walk along the cursors
  reads everything exactly once.
\<close>

section \<open>Rows as records\<close>

definition record_of_row :: "source_name \<Rightarrow> collection_name \<Rightarrow> row \<Rightarrow> stored_record" where
  "record_of_row source collection r =
     \<lparr>sr_key = record_key_new source collection (RecordId (r_id r)), sr_payload = r_payload r,
      sr_hash = ContentHash (r_hash r), sr_seq = Seq (word_of_int (r_seq r)),
      sr_ingested_at = r_ingested_at r, sr_deleted_at = r_deleted_at r\<rparr>"

lemma record_of_row_simps [simp]:
  "sr_key (record_of_row s c r) = record_key_new s c (RecordId (r_id r))"
  "sr_payload (record_of_row s c r) = r_payload r" "sr_hash (record_of_row s c r) = ContentHash (r_hash r)"
  "sr_seq (record_of_row s c r) = Seq (word_of_int (r_seq r))"
  "sr_deleted_at (record_of_row s c r) = r_deleted_at r" "is_deleted (record_of_row s c r) = (r_deleted_at r \<noteq> None)"
  by (simp_all add: record_of_row_def is_deleted_def)

definition readable :: "env \<Rightarrow> row \<Rightarrow> bool" where
  "readable E r \<longleftrightarrow> row_ok E r \<and> 0 \<le> r_seq r \<and> r_seq r \<le> BIGINT_MAX"

lemma db_ok_readable: "db_ok E d \<Longrightarrow> r \<in> set (db_rows d) \<Longrightarrow> readable E r"
  by (force simp: db_ok_def readable_def)

lemma into_record_row: "readable E r \<Longrightarrow> into_record s c (raw_of_row E r) = Inr (record_of_row s c r)"
  by (auto simp: into_record_def raw_of_row_def readable_def row_ok_def record_id_ok_def to_content_hash_def
      to_seq_ok record_of_row_def hash_from_bytes_def result_simps)

section \<open>One page\<close>

definition row_bytes :: "env \<Rightarrow> row \<Rightarrow> int" where
  "row_bytes E r = max 0 (e_jsonb_len E (r_payload r))"

lemma row_size_raw: "jsonb_env_ok E \<Longrightarrow> uint (row_size (raw_of_row E r)) = row_bytes E r \<and> row_bytes E r < 2 ^ 31"
proof -
  assume "jsonb_env_ok E"
  then have "e_jsonb_len E (r_payload r) < 2 ^ 31" by (simp add: jsonb_env_ok_def)
  then show ?thesis
    by (auto simp: row_size_def raw_of_row_def row_bytes_def unsigned_of_int take_bit_int_eq_self)
qed

lemma saturating_add_exact: "uint a + uint b < 2 ^ 64 \<Longrightarrow> uint (saturating_add a b) = uint a + uint b"
proof -
  assume "uint a + uint b < 2 ^ 64"
  then have "uint (a + b) = uint a + uint b"
    by (subst uint_add_lem [symmetric]) simp
  moreover then have "\<not> a + b < a" by (simp add: word_less_def)
  ultimately show ?thesis by (simp add: saturating_add_def)
qed

text \<open>The loop of \<open>page\<close> reads a prefix; the first row is always read, and the rows read fit the budget or
  are one.\<close>

lemma page_loop_prefix:
  assumes E: "jsonb_env_ok E" and budget: "budget_ok budget"
  shows "list_all (readable E) rows \<Longrightarrow> uint spent < 2 ^ 32 \<Longrightarrow> (acc = [] \<longrightarrow> spent = 0) \<Longrightarrow>
    \<exists>k \<le> length rows. page_loop s c budget (map (raw_of_row E) rows) spent acc =
        Inr (acc @ map (record_of_row s c) (take k rows), k < length rows) \<and>
      (acc = [] \<longrightarrow> rows \<noteq> [] \<longrightarrow> 0 < k) \<and>
      (uint spent + sum_list (map (row_bytes E) (take k rows)) \<le> uint (budget_get budget) \<or> length acc + k \<le> 1
        \<or> k = 0)"
proof (induction rows arbitrary: spent acc)
  case Nil
  then show ?case by simp
next
  case (Cons r rows)
  have bmax: "uint (budget_get budget) \<le> 4194304"
    using budget by (simp add: budget_ok_def BUDGET_MAX_def word_le_def)
  note size = row_size_raw[OF E, of r]
  have small: "uint spent + uint (row_size (raw_of_row E r)) < 2 ^ 64" using Cons.prems size by simp
  have add: "uint (saturating_add spent (row_size (raw_of_row E r))) = uint spent + row_bytes E r"
    using saturating_add_exact[OF small] size by simp
  show ?case
  proof (cases "acc \<noteq> [] \<and> saturating_add spent (row_size (raw_of_row E r)) > budget_get budget")
    case True
    then show ?thesis by (intro exI[of _ 0]) (auto simp: Let_def)
  next
    case False
    let ?spent = "saturating_add spent (row_size (raw_of_row E r))"
    let ?acc = "acc @ [record_of_row s c r]"
    have fits: "uint ?spent \<le> uint (budget_get budget) \<or> length ?acc \<le> 1"
      using False by (auto simp: word_less_def)
    have bound: "uint ?spent < 2 ^ 32"
    proof (cases "acc = []")
      case True
      with Cons.prems add size show ?thesis by simp
    next
      case F: False
      with fits bmax show ?thesis by auto
    qed
    obtain k where k: "k \<le> length rows"
        "page_loop s c budget (map (raw_of_row E) rows) ?spent ?acc =
          Inr (?acc @ map (record_of_row s c) (take k rows), k < length rows)"
        "uint ?spent + sum_list (map (row_bytes E) (take k rows)) \<le> uint (budget_get budget) \<or> length ?acc + k \<le> 1 \<or> k = 0"
      using Cons.IH[of ?spent ?acc] Cons.prems bound by auto
    have rd: "into_record s c (raw_of_row E r) = Inr (record_of_row s c r)"
      using Cons.prems by (simp add: into_record_row)
    show ?thesis
      using False k rd fits add
      by (intro exI[of _ "Suc k"]) (auto simp: Let_def result_simps)
  qed
qed

lemma take_Suc_last: "0 < k \<Longrightarrow> k \<le> length xs \<Longrightarrow> last (take k xs) = xs ! (k - 1)"
  by (subst last_conv_nth) auto

text \<open>A page over the first \<open>n\<close> of the rows that are left.\<close>

lemma page_of_prefix:
  assumes E: "jsonb_env_ok E" and budget: "budget_ok (pb_bytes b)" and limit: "limit_ok (pb_records b)"
    and rows: "list_all (readable E) rows"
  obtains k where "k \<le> length rows" "k \<le> unat (limit_get (pb_records b))" "rows \<noteq> [] \<Longrightarrow> 0 < k"
    "page_of (map (raw_of_row E) (take (unat (limit_get (pb_records b))) rows)) s c b =
       Inr \<lparr>pg_records = map (record_of_row s c) (take k rows),
            pg_next = (if k < length rows \<or> k = unat (limit_get (pb_records b))
                       then Some (sr_seq (record_of_row s c (rows ! (k - 1)))) else None)\<rparr>"
    "sum_list (map (row_bytes E) (take k rows)) \<le> uint (budget_get (pb_bytes b)) \<or> k \<le> 1"
proof -
  let ?n = "unat (limit_get (pb_records b))"
  let ?rows = "take ?n rows"
  have n: "1 \<le> ?n" using limit_ok_unat[OF limit] by simp
  have rd: "list_all (readable E) ?rows" using rows by (auto simp: list_all_iff dest: in_set_takeD)
  have zero: "uint (0 :: 64 word) < 2 ^ 32" by simp
  from page_loop_prefix[OF E budget rd zero, of "[]" s c]
  obtain k where k0: "k \<le> length ?rows"
      "page_loop s c (pb_bytes b) (map (raw_of_row E) ?rows) 0 [] =
         Inr ([] @ map (record_of_row s c) (take k ?rows), k < length ?rows)"
      "?rows \<noteq> [] \<longrightarrow> 0 < k"
      "uint (0 :: 64 word) + sum_list (map (row_bytes E) (take k ?rows)) \<le> uint (budget_get (pb_bytes b)) \<or>
       length ([] :: stored_record list) + k \<le> 1 \<or> k = 0"
    by blast
  then have k: "k \<le> length ?rows" "?rows \<noteq> [] \<longrightarrow> 0 < k"
      "page_loop s c (pb_bytes b) (map (raw_of_row E) ?rows) 0 [] =
         Inr (map (record_of_row s c) (take k ?rows), k < length ?rows)"
      "sum_list (map (row_bytes E) (take k ?rows)) \<le> uint (budget_get (pb_bytes b)) \<or> k \<le> 1"
    by (simp_all only: append_Nil) auto
  have take: "take k ?rows = take k rows" using k(1) by (simp add: min_absorb1)
  have pos: "0 < k" if "k < length ?rows \<or> length ?rows = ?n"
    using k(2) that n by (cases "?rows = []") auto
  have more: "k < length ?rows \<or> length ?rows = ?n \<longleftrightarrow> k < length rows \<or> k = ?n"
    using k(1) by auto
  have last: "last_opt (map (record_of_row s c) (take k rows)) = Some (record_of_row s c (rows ! (k - 1)))"
    if "0 < k"
  proof -
    have "take k rows \<noteq> []" "k \<le> length rows" using that k(1) by auto
    then show ?thesis using that by (simp add: last_opt_def last_map take_Suc_last)
  qed
  show ?thesis
  proof (rule that[of k])
    show "page_of (map (raw_of_row E) ?rows) s c b =
       Inr \<lparr>pg_records = map (record_of_row s c) (take k rows),
            pg_next = (if k < length rows \<or> k = ?n then Some (sr_seq (record_of_row s c (rows ! (k - 1)))) else None)\<rparr>"
    proof (cases "k < length ?rows \<or> length ?rows = ?n")
      case True
      then show ?thesis
        using last[OF pos[OF True]] more
        unfolding page_of_def Let_def k(3)[unfolded take] ok_then_Inr prod.case length_map by simp
    next
      case False
      moreover from this more have "\<not> (k < length rows \<or> k = ?n)" by blast
      ultimately show ?thesis
        unfolding page_of_def Let_def k(3)[unfolded take] ok_then_Inr prod.case length_map
        by (simp only: if_False)
    qed
    show "sum_list (map (row_bytes E) (take k rows)) \<le> uint (budget_get (pb_bytes b)) \<or> k \<le> 1"
      using k(4) unfolding take .
  qed (use k n in auto)
qed

section \<open>What is left of a collection\<close>

definition feed :: "source_name \<Rightarrow> collection_name \<Rightarrow> (row \<Rightarrow> bool) \<Rightarrow> int \<Rightarrow> row list \<Rightarrow> row list" where
  "feed source collection P c rows =
     sort_key r_seq (filter (\<lambda>r. in_collection source collection r \<and> P r \<and> c < r_seq r) rows)"

lemma set_feed: "set (feed s c P n rows) = {r \<in> set rows. in_collection s c r \<and> P r \<and> n < r_seq r}"
  by (simp add: feed_def)

lemma feed_sorted: "distinct (map r_seq rows) \<Longrightarrow> sorted_wrt (<) (map r_seq (feed s c P n rows))"
  unfolding feed_def strict_sorted_iff
  by (simp add: distinct_map distinct_filter inj_on_subset[of r_seq "set rows"] inj_on_def)

lemma feed_readable: "db_ok E d \<Longrightarrow> list_all (readable E) (feed s c P n (db_rows d))"
  by (auto simp: list_all_iff set_feed db_ok_readable)

text \<open>What follows the \<open>k\<close>-th row of a feed is the feed after that row's position.\<close>

lemma feed_after:
  assumes d: "distinct (map r_seq rows)" and k: "0 < k" "k \<le> length (feed s c P n rows)"
  shows "feed s c P (r_seq (feed s c P n rows ! (k - 1))) rows = drop k (feed s c P n rows)"
proof -
  let ?f = "feed s c P n rows"
  let ?p = "r_seq (?f ! (k - 1))"
  have sorted: "sorted_wrt (<) (map r_seq ?f)" by (rule feed_sorted[OF d])
  have cmp: "r_seq (?f ! i) < r_seq (?f ! j) \<longleftrightarrow> i < j" if "i < length ?f" "j < length ?f" for i j
    using sorted that sorted_wrt_nth_less[OF sorted, of i j] sorted_wrt_nth_less[OF sorted, of j i]
    by (cases i j rule: linorder_cases) auto
  have gt: "n < ?p"
    using k nth_mem[of "k - 1" ?f] by (auto simp: set_feed)
  have "set (drop k ?f) = {r \<in> set ?f. ?p < r_seq r}"
  proof (intro set_eqI iffI)
    fix r assume "r \<in> set (drop k ?f)"
    then obtain j where "j < length ?f - k" "r = ?f ! (k + j)" by (auto simp: in_set_conv_nth)
    with cmp[of "k - 1" "k + j"] k show "r \<in> {r \<in> set ?f. ?p < r_seq r}" by auto
  next
    fix r assume "r \<in> {r \<in> set ?f. ?p < r_seq r}"
    then obtain j where j: "j < length ?f" "r = ?f ! j" "?p < r_seq r" by (auto simp: in_set_conv_nth)
    with cmp[of "k - 1" j] k have "k \<le> j" by auto
    with j have "r = drop k ?f ! (j - k)" "j - k < length (drop k ?f)" by auto
    then show "r \<in> set (drop k ?f)" using nth_mem by blast
  qed
  also have "\<dots> = set (feed s c P ?p rows)" using gt by (auto simp: set_feed)
  finally have "set (map (\<lambda>r. (r_seq r, r)) (drop k ?f)) = set (map (\<lambda>r. (r_seq r, r)) (feed s c P ?p rows))" by simp
  moreover have "sorted_wrt (<) (map fst (map (\<lambda>r. (r_seq r, r)) (drop k ?f)))"
    using sorted_wrt_drop[OF sorted] by (simp add: drop_map comp_def)
  moreover have "sorted_wrt (<) (map fst (map (\<lambda>r. (r_seq r, r)) (feed s c P ?p rows)))"
    using feed_sorted[OF d] by (simp add: comp_def)
  ultimately have "map (\<lambda>r. (r_seq r, r)) (drop k ?f) = map (\<lambda>r. (r_seq r, r)) (feed s c P ?p rows)"
    using sorted_entries_unique by blast
  then have "map snd (map (\<lambda>r. (r_seq r, r)) (drop k ?f)) = map snd (map (\<lambda>r. (r_seq r, r)) (feed s c P ?p rows))"
    by (rule arg_cong)
  then show ?thesis by (simp add: comp_def)
qed

section \<open>Listings and the change feed as pages of a feed\<close>

definition budget_valid :: "page_budget \<Rightarrow> bool" where
  "budget_valid b \<longleftrightarrow> limit_ok (pb_records b) \<and> budget_ok (pb_bytes b)"

definition cursor_of :: "seq option \<Rightarrow> int" where
  "cursor_of after = (case after of None \<Rightarrow> 0 | Some s \<Rightarrow> uint (seq_get s))"

lemma cursor_ok: "cursor_of after < 2 ^ 63 \<Longrightarrow> cursor after = Inr (cursor_of after)"
  by (auto simp: cursor_def cursor_of_def Let_def split: option.splits)

definition feed_page ::
    "env \<Rightarrow> source_name \<Rightarrow> collection_name \<Rightarrow> (row \<Rightarrow> bool) \<Rightarrow> int \<Rightarrow> page_budget \<Rightarrow> db \<Rightarrow> store_error + page" where
  "feed_page E s c P n b d =
     page_of (map (raw_of_row E) (take (unat (limit_get (pb_records b))) (feed s c P n (db_rows d)))) s c b"

lemma pg_changes_page:
  "cursor_of since < 2 ^ 63 \<Longrightarrow> pg_changes E s c since b d = feed_page E s c (\<lambda>_. True) (cursor_of since) b d"
  by (simp add: pg_changes_def cursor_ok result_simps feed_page_def select_feed_def feed_def)

definition matches :: "env \<Rightarrow> json \<Rightarrow> row \<Rightarrow> bool" where
  "matches E flt r \<longleftrightarrow> r_deleted_at r = None \<and> e_contains E (r_payload r) flt"

lemma pg_list_page:
  "cursor_of after < 2 ^ 63 \<Longrightarrow> e_jsonb E (filter_as_json flt) = Some doc \<Longrightarrow>
     pg_list E s c flt after b d = feed_page E s c (matches E doc) (cursor_of after) b d"
  by (simp add: pg_list_def cursor_ok result_simps feed_page_def select_feed_def feed_def matches_def conj_ac)

lemma feed_page_cases:
  assumes E: "env_ok E" and ok: "db_ok E d" and b: "budget_valid b"
  obtains k where "k \<le> length (feed s c P n (db_rows d))" "k \<le> unat (limit_get (pb_records b))"
    "feed s c P n (db_rows d) \<noteq> [] \<Longrightarrow> 0 < k"
    "feed_page E s c P n b d =
       Inr \<lparr>pg_records = map (record_of_row s c) (take k (feed s c P n (db_rows d))),
            pg_next = (if k < length (feed s c P n (db_rows d)) \<or> k = unat (limit_get (pb_records b))
                       then Some (Seq (word_of_int (r_seq (feed s c P n (db_rows d) ! (k - 1))))) else None)\<rparr>"
    "sum_list (map (row_bytes E) (take k (feed s c P n (db_rows d)))) \<le> uint (budget_get (pb_bytes b)) \<or> k \<le> 1"
proof -
  have lim: "limit_ok (pb_records b)" "budget_ok (pb_bytes b)" using b by (simp_all add: budget_valid_def)
  show ?thesis
  proof (rule page_of_prefix[OF env_okD(2)[OF E] lim(2,1) feed_readable[OF ok, of s c P n], of s c], goal_cases)
    case (1 k)
    then show ?case
      unfolding feed_page_def record_of_row_simps(4) by (intro that[of k]) (simp_all add: feed_page_def)
  qed
qed

end
