(* ===== verification/Replication.thy ===== *)
theory Replication
  imports Feed
begin

text \<open>
  Consumers. A walk follows the cursors of a listing or of the change feed to the end. A replica pulls
  pages of the change feed and applies them while the source keeps writing: whenever a pull reaches the
  end, the replica holds exactly the live collection.
\<close>

section \<open>Walks\<close>

fun walk :: "(seq option \<Rightarrow> store_error + page) \<Rightarrow> nat \<Rightarrow> seq option \<Rightarrow> stored_record list option" where
  "walk ask 0 after = None"
| "walk ask (Suc fuel) after =
     (case ask after of
        Inl e \<Rightarrow> None
      | Inr p \<Rightarrow>
          (case pg_next p of
             None \<Rightarrow> Some (pg_records p)
           | Some s \<Rightarrow> map_option ((@) (pg_records p)) (walk ask fuel (Some s))))"

lemma cursor_of_position: "0 \<le> n \<Longrightarrow> n \<le> BIGINT_MAX \<Longrightarrow> cursor_of (Some (Seq (word_of_int n))) = n"
  by (simp add: cursor_of_def uint_position)

text \<open>A page is the last one, or it ends at a position behind which the rest of the feed is left.\<close>

lemma feed_page_step:
  assumes E: "env_ok E" and ok: "db_ok E d" and b: "budget_valid b"
  obtains (last) "feed_page E s c P n b d =
        Inr \<lparr>pg_records = map (record_of_row s c) (feed s c P n (db_rows d)), pg_next = None\<rparr>"
  | (more) k p where "0 < k" "cursor_of (Some (Seq (word_of_int p))) = p" "p < 2 ^ 63"
      "feed s c P p (db_rows d) = drop k (feed s c P n (db_rows d))"
      "feed_page E s c P n b d = Inr \<lparr>pg_records = map (record_of_row s c) (take k (feed s c P n (db_rows d))),
         pg_next = Some (Seq (word_of_int p))\<rparr>" "p \<in> r_seq ` set (take k (feed s c P n (db_rows d)))" "k \<le> length (feed s c P n (db_rows d))"
proof -
  let ?f = "feed s c P n (db_rows d)"
  have dist: "distinct (map r_seq (db_rows d))" using ok by (simp add: db_ok_def)
  have lim: "1 \<le> unat (limit_get (pb_records b))" using b limit_ok_unat by (simp add: budget_valid_def)
  from E ok b show thesis
  proof (rule feed_page_cases[where s = s and c = c and P = P and n = n], goal_cases)
    case (1 k)
    show thesis
    proof (cases "k < length ?f \<or> k = unat (limit_get (pb_records b))")
      case False
      then have "take k ?f = ?f" using 1(1) by simp
      with False 1(4) show thesis by (intro last) simp
    next
      case page: True
      have k: "0 < k" using page 1(3) lim by (cases "?f = []") auto
      let ?p = "r_seq (?f ! (k - 1))"
      have at: "?f ! (k - 1) \<in> set (take k ?f)" using k 1(1) by (auto simp: in_set_conv_nth intro: exI[of _ "k - 1"])
      then have "?f ! (k - 1) \<in> set (db_rows d)" by (auto simp: set_feed dest: in_set_takeD)
      then have p: "0 \<le> ?p" "?p \<le> BIGINT_MAX" using db_ok_readable[OF ok] by (auto simp: readable_def)
      show thesis
        using page 1(4) p at by (intro more[OF k cursor_of_position[OF p] _ feed_after[OF dist k 1(1)] _ _ 1(1)]) (simp_all add: BIGINT_MAX_def)
    qed
  qed
qed

lemma walk_feed:
  assumes E: "env_ok E" and ok: "db_ok E d" and b: "budget_valid b"
    and ask: "\<And>after. cursor_of after < 2 ^ 63 \<Longrightarrow> ask after = feed_page E s c P (cursor_of after) b d"
  shows "cursor_of after < 2 ^ 63 \<Longrightarrow> length (feed s c P (cursor_of after) (db_rows d)) < fuel \<Longrightarrow>
    walk ask fuel after = Some (map (record_of_row s c) (feed s c P (cursor_of after) (db_rows d)))"
proof (induction fuel arbitrary: after)
  case (Suc fuel)
  from E ok b show ?case
  proof (cases rule: feed_page_step[where s = s and c = c and P = P and n = "cursor_of after"])
    case last
    then show ?thesis using ask[OF Suc.prems(1)] by simp
  next
    case (more k p)
    then have "walk ask fuel (Some (Seq (word_of_int p))) = Some (map (record_of_row s c) (feed s c P p (db_rows d)))"
      using Suc.IH[of "Some (Seq (word_of_int p))"] Suc.prems(2) by simp
    with more(4,5) show ?thesis using ask[OF Suc.prems(1)] by (simp flip: map_append)
  qed
qed simp

text \<open>C21: Following the cursors of the change feed from the start reads every record of the collection,
  tombstones included, exactly once and in feed order, and ends after at most one request per record
  and one more, whatever the page budget.\<close>

theorem changes_walk_complete:
  assumes "env_ok E" and "db_ok E d" and "budget_valid b" and "length (db_rows d) < fuel"
  shows "walk (\<lambda>after. pg_changes E s c after b d) fuel None =
    Some (map (record_of_row s c) (sort_key r_seq (filter (in_collection s c) (db_rows d))))"
proof -
  let ?f = "feed s c (\<lambda>_. True) 0 (db_rows d)"
  have f: "?f = sort_key r_seq (filter (in_collection s c) (db_rows d))"
    using assms(2) unfolding feed_def by (intro arg_cong[where f = "sort_key r_seq"] filter_cong) (auto simp: db_ok_def)
  have "length ?f < fuel" using le_less_trans[OF length_filter_le assms(4)] by (simp add: f)
  then show ?thesis
    using walk_feed[OF assms(1-3), of "\<lambda>after. pg_changes E s c after b d" s c "\<lambda>_. True" None fuel]
    by (simp add: pg_changes_page cursor_of_def f)
qed

lemma sample_budget: "budget_valid (page_budget_of (PageLimit 1))"
  by (simp add: budget_valid_def page_budget_of_def limit_ok_def LIMIT_MAX_def
      budget_default_ok[unfolded budget_default_def])

lemma changes_walk_complete_witness:
  "map_option length (walk (\<lambda>after. pg_changes sample_env erp products after (page_budget_of (PageLimit 1)) sample_db) 3 None) = Some 2"
  using changes_walk_complete[OF sample_env_ok sample_db_ok sample_budget, of 3 erp products]
  by (simp add: sample_db_def sample_row_def in_collection_def proposed_row_def record_key_new_def)

text \<open>Following the cursors of a listing reads every live record that the filter matches exactly once
  and in feed order, and ends, whatever the page budget.\<close>

theorem list_walk_complete:
  assumes "env_ok E" and "db_ok E d" and "budget_valid b" and "length (db_rows d) < fuel"
    and "e_jsonb E (filter_as_json flt) = Some doc"
  shows "walk (\<lambda>after. pg_list E s c flt after b d) fuel None =
    Some (map (record_of_row s c) (sort_key r_seq
      (filter (\<lambda>r. live_in s c r \<and> e_contains E (r_payload r) doc) (db_rows d))))"
proof -
  let ?f = "feed s c (matches E doc) 0 (db_rows d)"
  have f: "?f = sort_key r_seq (filter (\<lambda>r. live_in s c r \<and> e_contains E (r_payload r) doc) (db_rows d))"
    using assms(2) unfolding feed_def
    by (intro arg_cong[where f = "sort_key r_seq"] filter_cong) (auto simp: db_ok_def matches_def live_in_def)
  have "length ?f < fuel" using le_less_trans[OF length_filter_le assms(4)] by (simp add: f)
  then show ?thesis
    using walk_feed[OF assms(1-3), of "\<lambda>after. pg_list E s c flt after b d" s c "matches E doc" None fuel]
    by (simp add: pg_list_page[OF _ assms(5)] cursor_of_def f)
qed

lemma list_walk_complete_witness:
  "\<exists>rs. walk (\<lambda>after. pg_list sample_env erp products filter_default after (page_budget_of (PageLimit 1)) sample_db) 3 None = Some rs"
proof -
  have "e_jsonb sample_env (filter_as_json filter_default) = Some (JObject [])"
    by (simp add: sample_env_def filter_default_def filter_as_json_def bt_extend_def)
  from list_walk_complete[OF sample_env_ok sample_db_ok sample_budget _ this, of 3 erp products]
  show ?thesis by (simp add: sample_db_def)
qed

text \<open>C25: A page is bounded in both units: at most the clamped record count, never more than 1000, and at
  most the clamped payload bytes unless a single record alone is larger; while something is left it
  is never empty.\<close>

theorem page_bounded_and_progresses:
  assumes "env_ok E" and "db_ok E d" and "budget_valid b" and "cursor_of since < 2 ^ 63"
  shows "\<exists>p. pg_changes E s c since b d = Inr p \<and>
    length (pg_records p) \<le> unat (limit_get (pb_records b)) \<and> length (pg_records p) \<le> 1000 \<and>
    (length (pg_records p) \<le> 1 \<or>
     sum_list (map (\<lambda>r. max 0 (e_jsonb_len E (sr_payload r))) (pg_records p)) \<le> uint (budget_get (pb_bytes b))) \<and>
    ((\<exists>r \<in> set (db_rows d). in_collection s c r \<and> cursor_of since < r_seq r) \<longrightarrow> pg_records p \<noteq> [])"
proof (rule feed_page_cases[OF assms(1-3), of s c "\<lambda>_. True" "cursor_of since"], goal_cases)
  case (1 k)
  let ?f = "feed s c (\<lambda>_. True) (cursor_of since) (db_rows d)"
  define p where "p = \<lparr>pg_records = map (record_of_row s c) (take k ?f),
    pg_next = (if k < length ?f \<or> k = unat (limit_get (pb_records b))
               then Some (Seq (word_of_int (r_seq (?f ! (k - 1))))) else None)\<rparr>"
  have "pg_changes E s c since b d = Inr p" using 1(4) pg_changes_page[OF assms(4)] by (simp add: p_def)
  moreover have "length (pg_records p) \<le> unat (limit_get (pb_records b))" using 1(2) by (simp add: p_def)
  moreover have "unat (limit_get (pb_records b)) \<le> 1000"
    using assms(3) limit_ok_unat by (simp add: budget_valid_def)
  moreover have "length (pg_records p) \<le> 1 \<or>
     sum_list (map (\<lambda>r. max 0 (e_jsonb_len E (sr_payload r))) (pg_records p)) \<le> uint (budget_get (pb_bytes b))"
    using 1(5) by (auto simp: p_def row_bytes_def [abs_def] comp_def)
  moreover have "pg_records p \<noteq> []" if "\<exists>r \<in> set (db_rows d). in_collection s c r \<and> cursor_of since < r_seq r"
  proof -
    have "set ?f \<noteq> {}" using that unfolding set_feed by blast
    then show ?thesis using 1(3) by (auto simp: p_def)
  qed
  ultimately show ?case by (intro exI[of _ p]) auto
qed

lemma page_bounded_and_progresses_witness:
  "\<exists>p. pg_changes sample_env erp products None (page_budget_of (PageLimit 1)) sample_db = Inr p \<and> length (pg_records p) = 1"
proof -
  let ?b = "page_budget_of (PageLimit 1)"
  have one: "unat (limit_get (pb_records ?b)) = 1" by (simp add: page_budget_of_def)
  have "cursor_of None < 2 ^ 63" by (simp add: cursor_of_def)
  moreover have "\<exists>r \<in> set (db_rows sample_db). in_collection erp products r \<and> cursor_of None < r_seq r"
    by (simp add: sample_db_def sample_row_def in_collection_def proposed_row_def record_key_new_def cursor_of_def)
  ultimately obtain p where "pg_changes sample_env erp products None ?b sample_db = Inr p"
      "length (pg_records p) \<le> 1" "pg_records p \<noteq> []"
    using page_bounded_and_progresses[OF sample_env_ok sample_db_ok sample_budget, of None erp products] one by auto
  then show ?thesis by (intro exI[of _ p]) (auto simp: le_Suc_eq)
qed

section \<open>A replica of a collection\<close>

text \<open>
  What the change feed is for: a consumer keeps the last \<open>next_cursor\<close> it was given and a copy of the
  collection, and applies every record of a page to the copy; a tombstone removes the entry.
\<close>

record replica =
  rp_cursor :: "seq option"
  rp_content :: content

definition new_replica :: replica where
  "new_replica = \<lparr>rp_cursor = None, rp_content = (\<lambda>_. None)\<rparr>"

definition consume :: "content \<Rightarrow> stored_record \<Rightarrow> content" where
  "consume m r = m(id_str (key_id (sr_key r)) :=
     (if is_deleted r then None else Some (sr_payload r, hash_bytes (sr_hash r))))"

definition pull_page :: "page \<Rightarrow> replica \<Rightarrow> replica" where
  "pull_page p rp =
     \<lparr>rp_cursor = (case pg_next p of None \<Rightarrow> rp_cursor rp | Some n \<Rightarrow> Some n),
      rp_content = foldl consume (rp_content rp) (pg_records p)\<rparr>"

text \<open>The source writes, or the replica pulls one page, in any order.\<close>

inductive replica_step ::
    "env \<Rightarrow> source_name \<Rightarrow> collection_name \<Rightarrow> db \<times> replica \<Rightarrow> db \<times> replica \<Rightarrow> bool" for E s c where
  source_writes: "db_step (row_ok E) d d' \<Longrightarrow> replica_step E s c (d, rp) (d', rp)"
| replica_pulls: "budget_valid b \<Longrightarrow> pg_changes E s c (rp_cursor rp) b d = Inr p \<Longrightarrow>
    replica_step E s c (d, rp) (d, pull_page p rp)"

inductive_cases replica_stepE: "replica_step E s c (d, rp) (d', rp')"

definition synced :: "source_name \<Rightarrow> collection_name \<Rightarrow> db \<Rightarrow> replica \<Rightarrow> bool" where
  "synced s c d rp \<longleftrightarrow>
     cursor_of (rp_cursor rp) \<le> db_seq_last d \<and>
     (\<forall>r \<in> set (db_rows d). in_collection s c r \<longrightarrow> r_seq r \<le> cursor_of (rp_cursor rp) \<longrightarrow>
        rp_content rp (r_id r) = row_content r) \<and>
     (\<forall>i. (\<forall>r \<in> set (db_rows d). in_collection s c r \<longrightarrow> r_id r \<noteq> i) \<longrightarrow> rp_content rp i = None)"

lemma synced_new: "db_ok E d \<Longrightarrow> synced s c d new_replica"
  by (force simp: synced_def new_replica_def cursor_of_def db_ok_def)

text \<open>More rows, none of them behind the cursor.\<close>

lemma synced_grow:
  assumes "synced s c d rp" and "db_seq_last d \<le> db_seq_last d'"
    and "row_id ` set (db_rows d) \<subseteq> row_id ` set (db_rows d')"
    and "\<And>r. r \<in> set (db_rows d') \<Longrightarrow> in_collection s c r \<Longrightarrow> r_seq r \<le> cursor_of (rp_cursor rp) \<Longrightarrow> r \<in> set (db_rows d)"
  shows "synced s c d' rp"
proof -
  have "rp_content rp i = None" if "\<forall>r \<in> set (db_rows d'). in_collection s c r \<longrightarrow> r_id r \<noteq> i" for i
  proof -
    have "\<exists>r' \<in> set (db_rows d'). in_collection s c r' \<and> r_id r' = r_id r"
      if "r \<in> set (db_rows d)" "in_collection s c r" for r
    proof -
      from that(1) assms(3) have "row_id r \<in> row_id ` set (db_rows d')" by auto
      with that(2) show ?thesis by (auto simp: row_id_def in_collection_def)
    qed
    with that have "\<forall>r \<in> set (db_rows d). in_collection s c r \<longrightarrow> r_id r \<noteq> i" by metis
    then show ?thesis using assms(1) by (simp add: synced_def)
  qed
  then show ?thesis using assms by (auto simp: synced_def)
qed

lemma synced_write:
  assumes "db_step W d d'" "synced s c d rp"
  shows "synced s c d' rp"
  using db_step_evolves[OF assms(1)] assms(2)
  by (intro synced_grow[OF assms(2)]) (auto simp: evolves_def synced_def)

lemma consume_row: "consume m (record_of_row s c r) = m(r_id r := row_content r)"
  by (auto simp: consume_def row_content_def record_key_new_def)

lemma foldl_consume:
  assumes "distinct (map r_id rs)"
  shows "foldl consume m (map (record_of_row s c) rs) =
    (\<lambda>i. case find (\<lambda>r. r_id r = i) rs of Some r \<Rightarrow> row_content r | None \<Rightarrow> m i)"
  using assms
proof (induction rs arbitrary: m)
  case (Cons r rs)
  have absent: "find (\<lambda>q. r_id q = r_id r) rs = None" using Cons.prems by (auto simp: find_None_iff rev_image_eqI)
  with Cons show ?case by (fastforce simp: consume_row split: option.splits)
qed simp

text \<open>Consuming rows of the collection: they are in the copy, and nothing else has changed.\<close>

lemma consume_rows:
  assumes "db_ok E d" and "set rs \<subseteq> {r \<in> set (db_rows d). in_collection s c r}" and "distinct rs"
  shows "r \<in> set (db_rows d) \<Longrightarrow> in_collection s c r \<Longrightarrow> r \<in> set rs \<or> m (r_id r) = row_content r \<Longrightarrow>
      foldl consume m (map (record_of_row s c) rs) (r_id r) = row_content r"
    and "\<forall>r \<in> set (db_rows d). in_collection s c r \<longrightarrow> r_id r \<noteq> i \<Longrightarrow> foldl consume m (map (record_of_row s c) rs) i = m i"
proof -
  have unique: "q = r" if "q \<in> set (db_rows d)" "r \<in> set (db_rows d)" "in_collection s c q" "in_collection s c r" "r_id q = r_id r" for q r
    using that assms(1) by (auto simp: db_ok_def distinct_map inj_on_def row_id_def in_collection_def)
  have "distinct (map r_id rs)" using assms(2,3) unique by (auto simp: distinct_map inj_on_def subset_iff)
  note content = foldl_consume[OF this]
  show "foldl consume m (map (record_of_row s c) rs) (r_id r) = row_content r"
    if r: "r \<in> set (db_rows d)" "in_collection s c r" "r \<in> set rs \<or> m (r_id r) = row_content r"
  proof (cases "find (\<lambda>q. r_id q = r_id r) rs")
    case None
    then have "r \<notin> set rs" by (auto simp: find_None_iff)
    with r None show ?thesis by (simp add: content)
  next
    case (Some q)
    then have "q \<in> set rs" "r_id q = r_id r" by (auto dest: find_SomeD)
    with assms(2) unique r(1,2) have "q = r" by blast
    with Some show ?thesis by (simp add: content)
  qed
  show "foldl consume m (map (record_of_row s c) rs) i = m i" if "\<forall>r \<in> set (db_rows d). in_collection s c r \<longrightarrow> r_id r \<noteq> i"
  proof -
    have "find (\<lambda>r. r_id r = i) rs = None" using that assms(2) by (auto simp: find_None_iff)
    then show ?thesis by (simp add: content)
  qed
qed

text \<open>One pull: the rows of the page are in the copy, rows behind the old cursor still are.\<close>

lemma synced_pull:
  assumes E: "env_ok E" and ok: "db_ok E d" and b: "budget_valid b" and sy: "synced s c d rp"
    and p: "pg_changes E s c (rp_cursor rp) b d = Inr p"
  shows "synced s c d (pull_page p rp)" and "pg_next p = None \<Longrightarrow> rp_content (pull_page p rp) = live s c d"
proof -
  let ?n = "cursor_of (rp_cursor rp)"
  let ?f = "feed s c (\<lambda>_. True) ?n (db_rows d)"
  let ?copy = "\<lambda>k. foldl consume (rp_content rp) (map (record_of_row s c) (take k ?f))"
  have dist: "distinct (map row_id (db_rows d))" "distinct (map r_seq (db_rows d))" using ok by (simp_all add: db_ok_def)
  have "?n < 2 ^ 63" using sy ok by (simp add: synced_def db_ok_def BIGINT_MAX_def)
  note page = p[unfolded pg_changes_page[OF this]]
  have rest: "set (take k ?f) \<subseteq> {r \<in> set (db_rows d). in_collection s c r}" "distinct (take k ?f)" for k
    using feed_sorted[OF dist(2), of s c "\<lambda>_. True" ?n] by (auto simp: set_feed strict_sorted_iff distinct_map dest: in_set_takeD)
  note copied = consume_rows(1)[OF ok rest] and absent = consume_rows(2)[OF ok rest]
  have none: "?copy k i = None" if "\<forall>r \<in> set (db_rows d). in_collection s c r \<longrightarrow> r_id r \<noteq> i" for k i
    using absent[OF that, of "rp_content rp" k] that sy by (simp add: synced_def)
  have old: "rp_content rp (r_id r) = row_content r" if "r \<in> set (db_rows d)" "in_collection s c r" "r_seq r \<le> ?n" for r
    using that sy by (simp add: synced_def)
  have "synced s c d (pull_page p rp) \<and> (pg_next p = None \<longrightarrow> rp_content (pull_page p rp) = live s c d)"
  proof (rule feed_page_step[OF E ok b, of s c "\<lambda>_. True" ?n], goal_cases)
    case 1
    then have pull: "pull_page p rp = rp\<lparr>rp_content := ?copy (length ?f)\<rparr>" "pg_next p = None" using page by (simp_all add: pull_page_def)
    have all: "?copy (length ?f) (r_id r) = row_content r" if "r \<in> set (db_rows d)" "in_collection s c r" for r
      using that old[OF that] copied[OF that, of "length ?f" "rp_content rp"] by (fastforce simp: set_feed)
    have "?copy (length ?f) i = live s c d i" for i
    proof (cases "\<exists>r \<in> set (db_rows d). in_collection s c r \<and> r_id r = i")
      case True
      then show ?thesis using all live_row[OF dist(1)] by force
    next
      case False
      then show ?thesis using none[of i "length ?f"] live_absent[of d s c i] by metis
    qed
    then have "?copy (length ?f) = live s c d" by (rule ext)
    with all live_absent[of d s c] sy show ?case by (auto simp: pull synced_def simp del: take_all)
  next
    case (2 k q)
    then have pull: "pull_page p rp = \<lparr>rp_cursor = Some (Seq (word_of_int q)), rp_content = ?copy k\<rparr>" "pg_next p \<noteq> None"
      using page by (simp_all add: pull_page_def)
    have "q \<le> db_seq_last d" using 2(6) rest(1)[of k] ok by (auto simp: db_ok_def)
    moreover have "?copy k (r_id r) = row_content r" if r: "r \<in> set (db_rows d)" "in_collection s c r" "r_seq r \<le> q" for r
    proof -
      have "r \<notin> set (drop k ?f)" using r(3) unfolding 2(4)[symmetric] by (simp add: set_feed)
      moreover have "r \<in> set ?f" if "\<not> r_seq r \<le> ?n" using that r by (simp add: set_feed)
      ultimately have "r \<in> set (take k ?f) \<or> r_seq r \<le> ?n" using set_append[of "take k ?f" "drop k ?f"] by auto
      then show ?thesis using copied[OF r(1,2)] old[OF r(1,2)] by blast
    qed
    ultimately show ?case using none 2(2) by (simp add: pull synced_def)
  qed
  then show "synced s c d (pull_page p rp)" and "pg_next p = None \<Longrightarrow> rp_content (pull_page p rp) = live s c d" by auto
qed

text \<open>Replication is correct while the source writes: from any database and an empty replica, after any
  interleaving of writes, each visible at once, and pulls, a pull whose page offers no cursor leaves
  the replica holding exactly the live records of the collection.\<close>

theorem replica_converges:
  assumes "env_ok E" and "db_ok E d0" and "(replica_step E s c)\<^sup>*\<^sup>* (d0, new_replica) (d, rp)"
    and "budget_valid b" and "pg_changes E s c (rp_cursor rp) b d = Inr p" and "pg_next p = None"
  shows "rp_content (pull_page p rp) = live s c d"
proof -
  have "db_ok E (fst st) \<and> synced s c (fst st) (snd st)"
    if "(replica_step E s c)\<^sup>*\<^sup>* (d0, new_replica) st" for st
    using that
  proof (induction rule: rtranclp_induct)
    case base
    then show ?case using assms(2) synced_new[OF assms(2)] by simp
  next
    case (step st st')
    from step.hyps(2) step.IH show ?case
    proof (cases rule: replica_step.cases)
      case (source_writes d d' rp)
      with step.IH show ?thesis using db_step_ok[of "row_ok E" d d' E] synced_write[of "row_ok E" d d'] by auto
    next
      case (replica_pulls b rp d p)
      with step.IH show ?thesis using synced_pull(1)[OF assms(1)] by auto
    qed
  qed
  from this[OF assms(3)] show ?thesis using synced_pull(2)[OF assms(1) _ assms(4) _ assms(5,6)] by simp
qed

lemma replica_converges_witness:
  "\<exists>p. pg_changes sample_env erp products None page_budget_default sample_db = Inr p \<and>
       rp_content (pull_page p new_replica) (lit ''A'') = Some (item ''A'', sample_digest (sample_jcs (item ''A'')))"
proof -
  have b: "budget_valid page_budget_default"
    by (simp add: budget_valid_def page_budget_default_def)
  let ?rows = "[sample_row ''A'' 1, sample_row ''B'' 2]"
  let ?p = "\<lparr>pg_records = map (record_of_row erp products) ?rows, pg_next = None\<rparr>"
  have p: "pg_changes sample_env erp products (rp_cursor new_replica) page_budget_default sample_db = Inr ?p"
    by code_simp
  have "live erp products sample_db (lit ''A'') = Some (item ''A'', sample_digest (sample_jcs (item ''A'')))"
    by code_simp
  with replica_converges[OF sample_env_ok sample_db_ok rtranclp.rtrancl_refl b p] p show ?thesis
    by (intro exI[of _ ?p]) (simp add: new_replica_def)
qed

end
