(* ===== verification/Store_Contract.thy ===== *)
theory Store_Contract
  imports Replication
begin

text \<open>
  What the HTTP layer relies on when it is given a \<open>Store\<close>: the contract of the trait as a locale over
  the record of operations, and the PostgreSQL store as its instance.
\<close>

section \<open>The contract\<close>

definition in_scope :: "source_name \<Rightarrow> collection_name \<Rightarrow> stored_record \<Rightarrow> bool" where
  "in_scope source collection x \<longleftrightarrow>
     key_source (sr_key x) = source \<and> key_collection (sr_key x) = collection"

text \<open>The record an operation leaves behind; \<open>keeps p w\<close> says the store keeps \<open>w\<close> for a payload \<open>p\<close>.\<close>

fun op_result :: "(json \<Rightarrow> json \<Rightarrow> bool) \<Rightarrow> ingest_op \<Rightarrow> stored_record \<Rightarrow> bool" where
  "op_result keeps (OpUpsert i p) x = (key_id (sr_key x) = i \<and> keeps p (sr_payload x) \<and> \<not> is_deleted x)"
| "op_result keeps (OpDelete i) x = (key_id (sr_key x) = i \<and> sr_payload x = JObject [] \<and> is_deleted x)"

definition only_writes ::
    "(json \<Rightarrow> json \<Rightarrow> bool) \<Rightarrow> source_name \<Rightarrow> collection_name \<Rightarrow> ingest_op set \<Rightarrow>
     stored_record set \<Rightarrow> stored_record set \<Rightarrow> bool" where
  "only_writes keeps source collection ops C C' \<longleftrightarrow>
     (\<forall>x \<in> C'. x \<in> C \<or> (in_scope source collection x \<and> (\<exists>op \<in> ops. op_result keeps op x))) \<and>
     (\<forall>x \<in> C. \<not> in_scope source collection x \<longrightarrow> x \<in> C')"

locale record_store =
  fixes S :: "'s store"
    and inv :: "'s \<Rightarrow> bool"
    and contents :: "'s \<Rightarrow> stored_record set"
    and keeps :: "json \<Rightarrow> json \<Rightarrow> bool"
    and later :: "'s \<Rightarrow> 's \<Rightarrow> bool"
  assumes apply_writes: "inv s \<Longrightarrow> source_ok source \<Longrightarrow> collection_ok collection \<Longrightarrow> list_all op_ok ops \<Longrightarrow>
      st_apply S source collection ops s = (r, s') \<Longrightarrow>
      inv s' \<and> later s s' \<and> only_writes keeps source collection (set ops) (contents s) (contents s')"
    and apply_failed: "st_apply S source collection ops s = (Inl e, s') \<Longrightarrow> contents s' = contents s"
    and apply_outcomes: "inv s \<Longrightarrow> source_ok source \<Longrightarrow> collection_ok collection \<Longrightarrow> list_all op_ok ops \<Longrightarrow>
      st_apply S source collection ops s = (Inr outs, s') \<Longrightarrow> length outs = length ops"
    and delete_writes: "inv s \<Longrightarrow> record_key_ok key \<Longrightarrow> st_delete S key s = (dr, s') \<Longrightarrow>
      inv s' \<and> later s s' \<and>
      only_writes keeps (key_source key) (key_collection key) {OpDelete (key_id key)} (contents s) (contents s')"
    and list_sound: "inv s \<Longrightarrow> st_list S source collection flt after b s = Inr p \<Longrightarrow> x \<in> set (pg_records p) \<Longrightarrow>
      x \<in> contents s \<and> in_scope source collection x \<and> \<not> is_deleted x"
    and changes_sound: "inv s \<Longrightarrow> st_changes S source collection after b s = Inr p \<Longrightarrow> x \<in> set (pg_records p) \<Longrightarrow>
      x \<in> contents s \<and> in_scope source collection x"
    and get_sound: "inv s \<Longrightarrow> st_get S key s = Inr (Some x) \<Longrightarrow> x \<in> contents s \<and> sr_key x = key"
    and get_complete: "inv s \<Longrightarrow> x \<in> contents s \<Longrightarrow> st_get S (sr_key x) s = Inr (Some x)"
    and authenticate_ok: "st_authenticate S tk s = Inr (Some source) \<Longrightarrow> source_ok source"
    and same_position: "inv s \<Longrightarrow> later s s' \<Longrightarrow>
      st_max_seq S source collection s' = st_max_seq S source collection s \<Longrightarrow>
      st_list S source collection flt after b s' = st_list S source collection flt after b s \<and>
      st_changes S source collection after b s' = st_changes S source collection after b s \<and>
      st_manifest S source collection s' = st_manifest S source collection s"
    and position_some: "inv s \<Longrightarrow> st_max_seq S source collection s = Inr (Some q) \<Longrightarrow> seq_get q \<noteq> 0"
    and position_between: "inv s \<Longrightarrow> later s m \<Longrightarrow> later m s' \<Longrightarrow>
      st_max_seq S source collection s' = st_max_seq S source collection s \<Longrightarrow>
      st_max_seq S source collection m = st_max_seq S source collection s"
    and later_inv: "inv s \<Longrightarrow> later s s' \<Longrightarrow> inv s'"
    and later_refl: "later s s"
    and later_trans: "later s m \<Longrightarrow> later m s' \<Longrightarrow> later s s'"
    and delete_done: "inv s \<Longrightarrow> record_key_ok key \<Longrightarrow> st_delete S key s = (Inr dl, s') \<Longrightarrow> x \<in> contents s' \<Longrightarrow>
      sr_key x = key \<Longrightarrow> is_deleted x"
    and delete_failed: "inv s \<Longrightarrow> record_key_ok key \<Longrightarrow> st_delete S key s = (Inl e, s') \<Longrightarrow> contents s' = contents s"
    and token_writes: "inv s \<Longrightarrow> source_ok source \<Longrightarrow> st_store_token S tk source label s = (tr, s') \<Longrightarrow>
      inv s' \<and> later s s' \<and> contents s' = contents s"
    and keeps_shape: "inv s \<Longrightarrow> json_ok v \<Longrightarrow> keeps v w \<Longrightarrow> json_ok w \<and> same_shape v w"
begin

lemma get_unique: "inv s \<Longrightarrow> x \<in> contents s \<Longrightarrow> y \<in> contents s \<Longrightarrow> sr_key x = sr_key y \<Longrightarrow> x = y"
proof -
  assume a: "inv s" "x \<in> contents s" "y \<in> contents s" "sr_key x = sr_key y"
  have "Inr (Some x) = st_get S (sr_key x) s" by (rule get_complete[OF a(1,2), symmetric])
  also have "\<dots> = Inr (Some y)" unfolding a(4) by (rule get_complete[OF a(1,3)])
  finally show ?thesis by simp
qed

lemma only_writes_all:
  assumes "only_writes keeps source collection ops C C'" "\<And>x. x \<in> C \<Longrightarrow> Q x"
    and "\<And>op x. op \<in> ops \<Longrightarrow> in_scope source collection x \<Longrightarrow> op_result keeps op x \<Longrightarrow> Q x" "x \<in> C'"
  shows "Q x"
proof -
  have "x \<in> C \<or> (in_scope source collection x \<and> (\<exists>op \<in> ops. op_result keeps op x))"
    using assms(1,4) by (simp add: only_writes_def)
  then show ?thesis using assms(2,3) by auto
qed

end

section \<open>Reads of the PostgreSQL store\<close>

definition record_of :: "row \<Rightarrow> stored_record" where
  "record_of r = record_of_row (SourceName (r_source r)) (CollectionName (r_collection r)) r"

definition db_contents :: "db \<Rightarrow> stored_record set" where
  "db_contents d = record_of ` set (db_rows d)"

lemma record_of_in: "in_collection s c r \<Longrightarrow> record_of_row s c r = record_of r"
  by (simp add: record_of_def in_collection_def)

lemma in_scope_record_of: "in_scope s c (record_of r) \<longleftrightarrow> in_collection s c r"
  by (auto simp: in_scope_def record_of_def record_key_new_def in_collection_def)

lemma record_of_simps [simp]:
  "sr_payload (record_of r) = r_payload r" "is_deleted (record_of r) = (r_deleted_at r \<noteq> None)"
  "key_id (sr_key (record_of r)) = RecordId (r_id r)"
  by (simp_all add: record_of_def record_key_new_def)

lemma page_loop_records:
  "page_loop s c b (map (raw_of_row E) rows) spent acc = Inr (recs, short) \<Longrightarrow>
     \<forall>r \<in> set rows. readable E r \<Longrightarrow> set recs \<subseteq> set acc \<union> record_of_row s c ` set rows"
proof (induction rows arbitrary: spent acc)
  case (Cons r rows)
  then have rd: "into_record s c (raw_of_row E r) = Inr (record_of_row s c r)" by (simp add: into_record_row)
  let ?stop = "acc \<noteq> [] \<and> saturating_add spent (row_size (raw_of_row E r)) > budget_get b"
  show ?case
  proof (cases ?stop)
    case True
    with Cons.prems show ?thesis by (auto simp: Let_def)
  next
    case False
    with Cons.prems(1) rd have
      "page_loop s c b (map (raw_of_row E) rows) (saturating_add spent (row_size (raw_of_row E r))) (acc @ [record_of_row s c r]) =
         Inr (recs, short)"
      by (auto simp: Let_def)
    from Cons.IH[OF this] Cons.prems(2) show ?thesis by auto
  qed
qed simp

lemma feed_page_records:
  assumes "db_ok E d" "feed_page E s c P n b d = Inr p" "x \<in> set (pg_records p)"
  shows "\<exists>r \<in> set (db_rows d). in_collection s c r \<and> P r \<and> x = record_of r"
proof -
  let ?rows = "take (unat (limit_get (pb_records b))) (feed s c P n (db_rows d))"
  obtain recs short where loop: "page_loop s c (pb_bytes b) (map (raw_of_row E) ?rows) 0 [] = Inr (recs, short)"
    and recs: "pg_records p = recs"
    using assms(2) by (auto simp: feed_page_def page_of_def Let_def result_simps)
  have sub: "set ?rows \<subseteq> {r \<in> set (db_rows d). in_collection s c r \<and> P r \<and> n < r_seq r}"
    using set_take_subset[of _ "feed s c P n (db_rows d)"] by (auto simp: set_feed)
  then have "\<forall>r \<in> set ?rows. readable E r" using db_ok_readable[OF assms(1)] by blast
  from page_loop_records[OF loop this] assms(3) recs obtain r where "r \<in> set ?rows" "x = record_of_row s c r" by auto
  with sub record_of_in show ?thesis by blast
qed

lemma cursor_Inr: "cursor after = Inr n \<Longrightarrow> cursor_of after < 2 ^ 63"
  by (auto simp: cursor_def cursor_of_def Let_def split: if_splits option.splits)

lemma pg_list_records:
  assumes "db_ok E d" "pg_list E s c flt after b d = Inr p" "x \<in> set (pg_records p)"
  shows "x \<in> db_contents d \<and> in_scope s c x \<and> \<not> is_deleted x"
proof -
  from assms(2) obtain n doc where "cursor after = Inr n" "e_jsonb E (filter_as_json flt) = Some doc"
    by (auto simp: pg_list_def result_simps)
  with pg_list_page[OF cursor_Inr] assms(2) have "feed_page E s c (matches E doc) (cursor_of after) b d = Inr p" by metis
  from feed_page_records[OF assms(1) this assms(3)] show ?thesis
    by (auto simp: db_contents_def in_scope_record_of matches_def)
qed

lemma pg_changes_records:
  assumes "db_ok E d" "pg_changes E s c after b d = Inr p" "x \<in> set (pg_records p)"
  shows "x \<in> db_contents d \<and> in_scope s c x"
proof -
  from assms(2) obtain n where "cursor after = Inr n" by (auto simp: pg_changes_def result_simps)
  with pg_changes_page[OF cursor_Inr] assms(2) have "feed_page E s c (\<lambda>_. True) (cursor_of after) b d = Inr p" by metis
  from feed_page_records[OF assms(1) this assms(3)] show ?thesis
    by (auto simp: db_contents_def in_scope_record_of)
qed

lemma pg_get_row:
  assumes "db_ok E d"
  shows "pg_get key d = Inr (case find (row_at key) (db_rows d) of None \<Rightarrow> None | Some r \<Rightarrow> Some (record_of r))"
proof (cases "find (row_at key) (db_rows d)")
  case (Some r)
  then have r: "r \<in> set (db_rows d)" "row_at key r" by (auto dest: find_SomeD)
  have "readable E r" by (rule db_ok_readable[OF assms r(1)])
  moreover have "sr_key (record_of r) = key"
    using r(2) by (cases key) (simp add: record_of_def record_key_new_def row_at_def record_key.defs)
  ultimately show ?thesis
    using Some by (auto simp: pg_get_def readable_def row_ok_def to_content_hash_def to_seq_ok result_simps
        record_of_def record_of_row_def hash_from_bytes_def)
qed (simp add: pg_get_def)

section \<open>One position, one collection\<close>

text \<open>Along database steps a collection's rows only change by getting a row above every position given out
  before, so an unchanged highest position means unchanged rows.\<close>

lemma put_row_other: "\<not> in_collection s c new \<Longrightarrow> filter (in_collection s c) (put_row new rows) = filter (in_collection s c) rows"
proof -
  assume n: "\<not> in_collection s c new"
  have "filter (in_collection s c) (map (\<lambda>r. if row_id r = row_id new then new else r) rows) = filter (in_collection s c) rows"
    using n by (induction rows) (auto simp: row_id_def in_collection_def)
  with n show ?thesis by (simp add: put_row_def)
qed

lemma db_step_collection:
  assumes "db_step W d d'"
  shows "filter (in_collection s c) (db_rows d') = filter (in_collection s c) (db_rows d) \<or>
    (\<exists>r \<in> set (db_rows d'). in_collection s c r \<and> db_seq_last d < r_seq r)"
  using assms
proof cases
  case (step_write new)
  then show ?thesis by (cases "in_collection s c new") (auto simp: set_put_row put_row_other)
qed auto

definition top_position :: "source_name \<Rightarrow> collection_name \<Rightarrow> db \<Rightarrow> int" where
  "top_position s c d = Max (insert 0 (r_seq ` {r \<in> set (db_rows d). in_collection s c r}))"

lemma top_position_ge: "r \<in> set (db_rows d) \<Longrightarrow> in_collection s c r \<Longrightarrow> r_seq r \<le> top_position s c d"
  unfolding top_position_def by (intro Max_ge) auto

lemma top_position_le: "db_ok E d \<Longrightarrow> top_position s c d \<le> db_seq_last d"
  unfolding top_position_def by (subst Max_le_iff) (auto simp: db_ok_def)

lemma db_step_top:
  assumes "db_step W d d'" "db_ok E d"
  shows "top_position s c d \<le> top_position s c d'"
proof -
  have "r_seq r \<le> top_position s c d'" if r: "r \<in> set (db_rows d)" "in_collection s c r" for r
  proof -
    have ev: "evolves d d'" by (rule db_step_evolves[OF assms(1)])
    then obtain r' where r': "r' \<in> set (db_rows d')" "row_id r' = row_id r" using r by (auto simp: evolves_def)
    then have "in_collection s c r'" using r(2) by (auto simp: row_id_def in_collection_def)
    with top_position_ge[OF r'(1)] have le: "r_seq r' \<le> top_position s c d'" by blast
    have "r_seq r \<le> r_seq r'"
    proof (cases "r_seq r' \<le> db_seq_last d")
      case True
      with ev r' have "r' \<in> set (db_rows d)" by (simp add: evolves_def)
      with assms(2) r r' have "r' = r" by (auto simp: db_ok_def distinct_map inj_on_def)
      then show ?thesis by simp
    qed (use assms(2) r in \<open>force simp: db_ok_def\<close>)
    with le show ?thesis by simp
  qed
  moreover have "0 \<le> top_position s c d'" unfolding top_position_def by (intro Max_ge) auto
  ultimately show ?thesis unfolding top_position_def [of s c d] by (subst Max_le_iff) auto
qed

lemma db_steps_top:
  assumes "db_steps W d d'" "\<And>r. W r \<Longrightarrow> row_ok E r" "db_ok E d"
  shows "top_position s c d \<le> top_position s c d'"
  using assms(1)
proof (induction rule: rtranclp_induct)
  case (step d1 d2)
  with db_step_top[OF step.hyps(2) db_steps_ok[OF step.hyps(1) assms(2,3)], of s c] show ?case by simp
qed simp

lemma db_steps_collection:
  assumes "db_steps W d d'" "\<And>r. W r \<Longrightarrow> row_ok E r" "db_ok E d"
  shows "filter (in_collection s c) (db_rows d') = filter (in_collection s c) (db_rows d) \<or>
    db_seq_last d < top_position s c d'"
  using assms(1)
proof (induction rule: rtranclp_induct)
  case (step d1 d2)
  have later: "db_seq_last d \<le> db_seq_last d1" using db_steps_evolves[OF step.hyps(1)] by (simp add: evolves_def)
  have kept: "top_position s c d1 \<le> top_position s c d2"
    by (rule db_step_top[OF step.hyps(2) db_steps_ok[OF step.hyps(1) assms(2,3)]])
  from db_step_collection[OF step.hyps(2), of s c] show ?case
  proof
    assume "\<exists>r \<in> set (db_rows d2). in_collection s c r \<and> db_seq_last d1 < r_seq r"
    with top_position_ge later show ?thesis by fastforce
  next
    assume same: "filter (in_collection s c) (db_rows d2) = filter (in_collection s c) (db_rows d1)"
    from step.IH show ?thesis using same kept by auto
  qed
qed simp

lemma foldl_max: "foldl max q qs = Max (insert q (set qs))" for q :: "'a::linorder"
proof (induction qs arbitrary: q)
  case (Cons a qs)
  then show ?case by (cases "qs = []") (simp_all add: max.assoc)
qed simp

lemma pg_max_seq_top:
  assumes "db_ok E d"
  shows "pg_max_seq s c d =
    Inr (if top_position s c d = 0 then None else Some (Seq (word_of_int (top_position s c d))))"
proof -
  let ?qs = "map r_seq (filter (in_collection s c) (db_rows d))"
  have set: "set ?qs = r_seq ` {r \<in> set (db_rows d). in_collection s c r}" by auto
  have pos: "\<forall>q \<in> set ?qs. 1 \<le> q" using assms by (auto simp: db_ok_def)
  show ?thesis
  proof (cases ?qs)
    case Nil
    then have "top_position s c d = 0" unfolding top_position_def set[symmetric] by simp
    with Nil show ?thesis by (simp add: pg_max_seq_def transpose_result_def Let_def)
  next
    case (Cons q qs)
    have m: "foldl max q qs = Max (set (q # qs))"
      by (simp add: foldl_max)
    have "foldl max q qs \<in> set (q # qs)" unfolding m by (rule Max_in) simp_all
    then have one: "1 \<le> foldl max q qs" using pos unfolding Cons by blast
    have "top_position s c d = Max (insert 0 (set (q # qs)))"
      unfolding top_position_def set[symmetric] Cons ..
    also have "\<dots> = foldl max q qs" using one unfolding m by simp
    finally have f: "foldl max q qs = top_position s c d" ..
    with one have "1 \<le> top_position s c d" by simp
    with Cons f show ?thesis by (simp add: pg_max_seq_def transpose_result_def Let_def to_seq_ok)
  qed
qed

lemma top_range: "db_ok E d \<Longrightarrow> 0 \<le> top_position s c d \<and> top_position s c d \<le> BIGINT_MAX"
proof
  assume "db_ok E d"
  then show "top_position s c d \<le> BIGINT_MAX" using top_position_le[of E d s c] by (simp add: db_ok_def)
  show "0 \<le> top_position s c d" unfolding top_position_def by (intro Max_ge) auto
qed

lemma max_seq_eq_iff:
  assumes "db_ok E d" "db_ok E d'"
  shows "pg_max_seq s c d' = pg_max_seq s c d \<longleftrightarrow> top_position s c d' = top_position s c d"
  using top_range[OF assms(1), of s c] top_range[OF assms(2), of s c]
  unfolding pg_max_seq_top[OF assms(1)] pg_max_seq_top[OF assms(2)]
  by (auto split: if_splits dest!: arg_cong[where f = uint] simp: uint_position)

lemma same_top_same_rows:
  assumes "env_ok E" "db_ok E d" "db_steps (row_ok E) d d'" "pg_max_seq s c d' = pg_max_seq s c d"
  shows "filter (in_collection s c) (db_rows d') = filter (in_collection s c) (db_rows d)"
proof -
  have ok': "db_ok E d'" using db_steps_ok[OF assms(3) _ assms(2)] by simp
  have "top_position s c d' = top_position s c d" using assms(4) max_seq_eq_iff[OF assms(2) ok'] by blast
  then have "top_position s c d' \<le> db_seq_last d" using top_position_le[OF assms(2)] by simp
  with db_steps_collection[OF assms(3) _ assms(2), of s c] show ?thesis by auto
qed

lemma same_rows_same_reads:
  assumes "filter (in_collection s c) (db_rows d') = filter (in_collection s c) (db_rows d)"
    and "pg_max_seq s c d' = pg_max_seq s c d"
  shows "pg_list E s c flt after b d' = pg_list E s c flt after b d"
    "pg_changes E s c after b d' = pg_changes E s c after b d"
    "pg_manifest E s c d' = pg_manifest E s c d"
proof -
  have sel: "filter (\<lambda>r. in_collection s c r \<and> P r) (db_rows d') = filter (\<lambda>r. in_collection s c r \<and> P r) (db_rows d)" for P
  proof -
    have split: "filter (\<lambda>r. in_collection s c r \<and> P r) rows = filter P (filter (in_collection s c) rows)" for rows
      by (induction rows) auto
    show ?thesis unfolding split assms(1) ..
  qed
  show "pg_list E s c flt after b d' = pg_list E s c flt after b d"
    "pg_changes E s c after b d' = pg_changes E s c after b d"
    "pg_manifest E s c d' = pg_manifest E s c d"
    by (simp_all add: pg_list_def pg_changes_def pg_manifest_def select_feed_def sel live_in_def [abs_def] assms(2))
qed

section \<open>The PostgreSQL store keeps the contract\<close>

lemma op_row_result:
  assumes "op_row E (op_key s c op) op r"
  shows "op_result (\<lambda>p w. e_jsonb E p = Some w) op (record_of r)"
  using assms op_row_at[OF assms] by (cases op) (auto simp: op_row_def record_id.expand)

lemma pg_steps_write:
  assumes "db_steps (batch_row E s c ops) d d'"
  shows "only_writes (\<lambda>p w. e_jsonb E p = Some w) s c ops (db_contents d) (db_contents d')"
proof -
  have new: "in_scope s c (record_of r) \<and> (\<exists>op \<in> ops. op_result (\<lambda>p w. e_jsonb E p = Some w) op (record_of r))"
    if "batch_row E s c ops r" for r
    using that op_row_result op_row_at unfolding batch_row_def in_scope_record_of by blast
  have "x \<in> db_contents d \<or> in_scope s c x \<and> (\<exists>op \<in> ops. op_result (\<lambda>p w. e_jsonb E p = Some w) op x)"
    if "x \<in> db_contents d'" for x
    using that db_steps_rows[OF assms] new unfolding db_contents_def by blast
  moreover have "x \<in> db_contents d'" if "x \<in> db_contents d" "\<not> in_scope s c x" for x
  proof -
    from that(1) obtain r where r: "r \<in> set (db_rows d)" "x = record_of r" by (auto simp: db_contents_def)
    have "row_id w \<noteq> row_id r" if "batch_row E s c ops w" for w
      using batch_row_id[OF that] \<open>\<not> in_scope s c x\<close> r by (auto simp: in_scope_record_of in_collection_def row_id_def)
    with db_steps_kept[OF assms r(1)] show ?thesis by (auto simp: db_contents_def r(2))
  qed
  ultimately show ?thesis unfolding only_writes_def by blast
qed

lemma pg_delete_step:
  assumes "env_ok E" "db_ok E d" "record_key_ok key" "pg_delete key d = (r, d')"
  shows "db_step (batch_row E (key_source key) (key_collection key) {OpDelete (key_id key)}) d d'"
proof -
  have key: "record_key_new (key_source key) (key_collection key) (key_id key) = key"
    by (simp add: record_key_new_def)
  have h: "hash_op E (OpDelete (key_id key)) = Inr (OpDelete (key_id key), None)" by (simp add: hash_op_def)
  have run: "\<exists>r2. apply_op E (key_source key) (key_collection key) (OpDelete (key_id key), None) d = (r2, d')"
    using assms(4) by (simp add: key pg_delete_def)
  then obtain r2 where "apply_op E (key_source key) (key_collection key) (OpDelete (key_id key), None) d = (r2, d')" ..
  from apply_op_step[OF assms(1,2) _ _ _ h this] assms(3) show ?thesis by (simp add: record_key_ok_def)
qed

lemma pg_upsert_step:
  assumes "env_ok E" "db_ok E d" "record_key_ok key" "json_ok p" "pg_upsert E key p d = (r, d')"
  shows "d' = d \<or> db_step (batch_row E (key_source key) (key_collection key) {OpUpsert (key_id key) p}) d d'"
proof (cases "content_hash E p")
  case (Inr h)
  have key: "record_key_new (key_source key) (key_collection key) (key_id key) = key"
    by (simp add: record_key_new_def)
  have ho: "hash_op E (OpUpsert (key_id key) p) = Inr (OpUpsert (key_id key) p, Some h)"
    by (simp add: hash_op_def Inr result_simps)
  have "\<exists>r2. apply_op E (key_source key) (key_collection key) (OpUpsert (key_id key) p, Some h) d = (r2, d')"
    using assms(5) by (simp add: key pg_upsert_def Inr)
  then obtain r2 where "apply_op E (key_source key) (key_collection key) (OpUpsert (key_id key) p, Some h) d = (r2, d')" ..
  from apply_op_step[OF assms(1,2) _ _ _ ho this] assms(3,4) show ?thesis by (simp add: record_key_ok_def)
qed (use assms(5) in \<open>simp add: pg_upsert_def\<close>)

lemma pg_store_simps [simp]:
  "st_upsert (postgres_store E) = pg_upsert E" "st_apply (postgres_store E) = pg_apply E"
  "st_delete (postgres_store E) = pg_delete" "st_authenticate (postgres_store E) = pg_authenticate"
  "st_store_token (postgres_store E) = pg_store_token" "st_list (postgres_store E) = pg_list E"
  "st_changes (postgres_store E) = pg_changes E" "st_manifest (postgres_store E) = pg_manifest E"
  "st_digests (postgres_store E) = pg_digests E" "st_max_seq (postgres_store E) = pg_max_seq"
  "st_get (postgres_store E) = pg_get"
  by (simp_all add: postgres_store_def)

lemma pg_authenticate_ok: "pg_authenticate tk d = Inr (Some source) \<Longrightarrow> source_ok source"
  by (auto simp: pg_authenticate_def transpose_result_def map_err_def split: option.splits sum.splits
      dest: source_name_new_ok)

lemma pg_delete_done:
  assumes "env_ok E" "db_ok E d" "record_key_ok key" "pg_delete key d = (Inr dl, d')" "x \<in> db_contents d'" "sr_key x = key"
  shows "is_deleted x"
proof -
  obtain r where r: "r \<in> set (db_rows d')" "x = record_of r" using assms(5) by (auto simp: db_contents_def)
  with assms(6) have at: "row_at key r" by (auto simp: record_of_def record_key_new_def row_at_def)
  obtain r0 where upd: "update_tombstone key d = (r0, d')" and ok: "is_ok r0"
    using assms(4) by (cases "update_tombstone key d") (auto simp: pg_delete_def write_delete_def split: sum.splits option.splits)
  from assms(2) upd show ?thesis
  proof (cases rule: update_tombstone_cases)
    case refused
    with ok show ?thesis by simp
  next
    case absent
    with r at show ?thesis by simp
  next
    case (written s old)
    with r at have "r = tombstone_row key s (db_now d)" by (auto simp: set_put_row row_at_iff)
    with r(2) show ?thesis by simp
  qed
qed

lemma pg_delete_failed:
  assumes "env_ok E" "db_ok E d" "record_key_ok key" "pg_delete key d = (Inl e, d')"
  shows "d' = d"
proof -
  obtain r0 where upd: "update_tombstone key d = (r0, d')" and r0: "\<And>s. r0 = Inr (Some s) \<Longrightarrow> to_seq s = Inl e" "r0 \<noteq> Inr None"
    using assms(4) by (cases "update_tombstone key d")
      (auto simp: pg_delete_def write_delete_def result_simps split: sum.splits option.splits)
  from assms(2) upd show ?thesis
  proof (cases rule: update_tombstone_cases)
    case (written s old)
    then have "to_seq s = Inl e" "0 \<le> s" using r0(1) assms(2) by (auto simp: db_ok_def)
    then show ?thesis by (simp add: to_seq_ok)
  qed (use r0 in auto)
qed

lemma pg_store_token_step:
  assumes "source_ok source" "pg_store_token tk source label d = (tr, d')"
  shows "d' = d \<or> db_step (row_ok E) d d' \<and> db_rows d' = db_rows d"
proof -
  let ?t = "\<lparr>tk_hash = token_hash_bytes tk, tk_source = source_str source, tk_label = label,
      tk_created_at = db_now d, tk_revoked_at = None\<rparr>"
  have "d' = d \<or> (token_ok ?t \<and> tk_hash ?t \<notin> tk_hash ` set (db_tokens d) \<and> d' = d\<lparr>db_tokens := db_tokens d @ [?t]\<rparr>)"
    using assms by (auto simp: pg_store_token_def token_ok_def split: if_splits)
  then show ?thesis using step_token[of ?t d "row_ok E"] by auto
qed

text \<open>The environment is fixed to one that behaves as documented; on any other the invariant is false.\<close>

definition pg_inv :: "env \<Rightarrow> db \<Rightarrow> bool" where
  "pg_inv E d \<longleftrightarrow> env_ok E \<and> db_ok E d"

interpretation pg: record_store "postgres_store E" "pg_inv E" db_contents "\<lambda>p w. e_jsonb E p = Some w" "db_steps (row_ok E)"
  for E
proof (unfold_locales, goal_cases)
  case (1 s source collection ops r s')
  then have steps: "db_steps (batch_row E source collection (set ops)) s s'"
    by (intro pg_apply_steps) (auto simp: pg_inv_def)
  with 1 show ?case
    using db_steps_ok[OF steps batch_row_ok, of E] db_steps_mono[OF steps batch_row_ok] pg_steps_write[OF steps]
    by (auto simp: pg_inv_def)
next
  case (2 source collection ops s e s')
  then have "s' = s\<lparr>db_seq_last := db_seq_last s'\<rparr>" by (intro pg_apply_failed) simp
  then have "db_rows s' = db_rows s" by (metis db.select_convs(1) db.surjective db.update_convs(2))
  then show ?case by (simp add: db_contents_def)
next
  case (3 s source collection ops outs s')
  then have "runs E source collection s ops outs s'" by (intro pg_apply_runs) (auto simp: pg_inv_def)
  then show ?case by (induction rule: runs.induct) auto
next
  case (4 s key dr s')
  then have step: "db_step (batch_row E (key_source key) (key_collection key) {OpDelete (key_id key)}) s s'"
    by (intro pg_delete_step) (auto simp: pg_inv_def)
  then have steps: "db_steps (batch_row E (key_source key) (key_collection key) {OpDelete (key_id key)}) s s'" by blast
  with 4 show ?case
    using db_steps_ok[OF steps batch_row_ok, of E] db_steps_mono[OF steps batch_row_ok] pg_steps_write[OF steps]
    by (auto simp: pg_inv_def)
next
  case (5 s source collection flt after b p x)
  then show ?case using pg_list_records[of E s] by (simp add: pg_inv_def)
next
  case (6 s source collection after b p x)
  then show ?case using pg_changes_records[of E s] by (simp add: pg_inv_def)
next
  case (7 s key x)
  then have f: "find (row_at key) (db_rows s) \<noteq> None" "x = record_of (the (find (row_at key) (db_rows s)))"
    using pg_get_row[of E s key] by (auto simp: pg_inv_def split: option.splits)
  then obtain r where r: "find (row_at key) (db_rows s) = Some r" "x = record_of r" by auto
  then have at: "r \<in> set (db_rows s)" "row_at key r" by (auto dest: find_SomeD)
  then have "sr_key (record_of r) = key"
    by (cases key) (simp add: record_of_def record_key_new_def row_at_def record_key.defs)
  with at r show ?case by (simp add: db_contents_def)
next
  case (8 s x)
  then obtain r where r: "r \<in> set (db_rows s)" "x = record_of r" by (auto simp: db_contents_def)
  have "row_at (sr_key x) r" by (simp add: r(2) record_of_def record_key_new_def row_at_def)
  with r 8 have "find (row_at (sr_key x)) (db_rows s) = Some r"
    using find_row_Some by (auto simp: pg_inv_def db_ok_def)
  with 8 r show ?case using pg_get_row[of E s "sr_key x"] by (simp add: pg_inv_def)
next
  case (9 tk s source)
  then show ?case using pg_authenticate_ok by simp
next
  case (10 s s' source collection flt after b)
  then have "filter (in_collection source collection) (db_rows s') = filter (in_collection source collection) (db_rows s)"
    by (intro same_top_same_rows) (auto simp: pg_inv_def)
  from same_rows_same_reads[OF this] 10 show ?case by simp
next
  case (11 s source collection q)
  then have ok: "db_ok E s" by (simp add: pg_inv_def)
  with 11 top_range[OF ok, of source collection] show ?case
    by (auto simp: pg_max_seq_top[OF ok] split: if_splits dest!: arg_cong[where f = uint] simp: uint_position)
next
  case (12 s m s' source collection)
  then have ok: "db_ok E s" by (simp add: pg_inv_def)
  then have okm: "db_ok E m" and ok': "db_ok E s'" using 12 db_steps_ok[of "row_ok E"] by blast+
  have "top_position source collection s \<le> top_position source collection m"
    "top_position source collection m \<le> top_position source collection s'"
    using db_steps_top[OF 12(2) _ ok] db_steps_top[OF 12(3) _ okm] by blast+
  with 12(4) show ?case by (simp add: max_seq_eq_iff[OF ok ok'] max_seq_eq_iff[OF ok okm])
next
  case (13 s s')
  then show ?case using db_steps_ok[of "row_ok E" s s' E] by (simp add: pg_inv_def)
next
  case (14 s)
  show ?case by simp
next
  case (15 s m s')
  then show ?case by (rule rtranclp_trans)
next
  case (16 s key dl s' x)
  then show ?case using pg_delete_done[of E s key dl s'] by (auto simp: pg_inv_def)
next
  case (17 s key e s')
  then have "s' = s" using pg_delete_failed[of E s key e s'] by (auto simp: pg_inv_def)
  then show ?case by simp
next
  case (18 s source tk label tr s')
  then have "s' = s \<or> db_step (row_ok E) s s' \<and> db_rows s' = db_rows s" by (intro pg_store_token_step) auto
  with 18 show ?case using db_step_ok[of "row_ok E" s s' E] by (auto simp: pg_inv_def db_contents_def)
next
  case (19 s v w)
  then show ?case by (auto simp: pg_inv_def env_ok_def jsonb_env_ok_def)
qed

end
