(* ===== verification/Http.thy ===== *)
theory Http
  imports Store_Contract
begin

text \<open>
  The parts of the HTTP layer the handlers share: \<open>crates/api/src/error.rs\<close>, \<open>response.rs\<close>,
  \<open>cache.rs\<close>, \<open>query.rs\<close>, \<open>limits.rs\<close> and \<open>metrics.rs\<close>. A response is its status, the headers the
  program sets and a body value; serde's rendering of the body and axum's framing are library code. A
  message that is a rendered error is kept as the error it renders.
\<close>

section \<open>Errors (\<open>error.rs\<close>)\<close>

datatype message =
    MText rstr
  | MIdent string ident_error
  | MIdError id_error
  | MProjection projection_error
  | MCanonical canonical_error
  | MFilter filter_error
  | MRejection rstr
  | MSizes record_id nat nat

datatype api_error =
    BadRequest string message
  | Unauthorized
  | ApiPayloadTooLarge message
  | UnknownCollection
  | NotFound
  | Internal store_error

definition bad_path :: "string \<Rightarrow> ident_error \<Rightarrow> api_error" where
  "bad_path what reason = BadRequest ''invalid_path'' (MIdent what reason)"

section \<open>Bodies (\<open>response.rs\<close>)\<close>

record record_body =
  rb_id :: rstr
  rb_seq :: "64 word"
  rb_ingested_at :: rstr
  rb_content_hash :: rstr
  rb_payload :: json

definition rfc3339_or_default :: "env \<Rightarrow> timestamp \<Rightarrow> rstr" where
  "rfc3339_or_default E t = (case e_rfc3339 E t of Some s \<Rightarrow> s | None \<Rightarrow> [])"

definition record_body_of :: "env \<Rightarrow> stored_record \<Rightarrow> record_body" where
  "record_body_of E r =
     \<lparr>rb_id = id_str (key_id (sr_key r)), rb_seq = seq_get (sr_seq r),
      rb_ingested_at = rfc3339_or_default E (sr_ingested_at r),
      rb_content_hash = hash_to_hex E (sr_hash r), rb_payload = sr_payload r\<rparr>"

record page_body =
  pgb_records :: "record_body list"
  pgb_next_cursor :: "64 word option"
  pgb_max_seq :: "64 word"

definition page_body_new :: "env \<Rightarrow> page \<Rightarrow> 64 word \<Rightarrow> page_body" where
  "page_body_new E p max_seq =
     \<lparr>pgb_records = map (record_body_of E) (pg_records p), pgb_next_cursor = map_option seq_get (pg_next p),
      pgb_max_seq = max_seq\<rparr>"

record change_body =
  chb_id :: rstr
  chb_seq :: "64 word"
  chb_deleted :: bool
  chb_ingested_at :: rstr
  chb_content_hash :: rstr
  chb_payload :: json

definition change_body_of :: "env \<Rightarrow> stored_record \<Rightarrow> change_body" where
  "change_body_of E r =
     \<lparr>chb_id = id_str (key_id (sr_key r)), chb_seq = seq_get (sr_seq r), chb_deleted = is_deleted r,
      chb_ingested_at = rfc3339_or_default E (sr_ingested_at r),
      chb_content_hash = hash_to_hex E (sr_hash r), chb_payload = sr_payload r\<rparr>"

record changes_body =
  csb_changes :: "change_body list"
  csb_next_cursor :: "64 word option"
  csb_max_seq :: "64 word"

definition changes_body_new :: "env \<Rightarrow> page \<Rightarrow> 64 word \<Rightarrow> changes_body" where
  "changes_body_new E p max_seq =
     \<lparr>csb_changes = map (change_body_of E) (pg_records p), csb_next_cursor = map_option seq_get (pg_next p),
      csb_max_seq = max_seq\<rparr>"

record manifest_body =
  mfb_count :: "64 word"
  mfb_checksum :: rstr
  mfb_max_seq :: "64 word"

definition position_or_zero :: "seq option \<Rightarrow> 64 word" where
  "position_or_zero s = (case s of None \<Rightarrow> 0 | Some q \<Rightarrow> seq_get q)"

definition manifest_body_of :: "env \<Rightarrow> manifest \<Rightarrow> manifest_body" where
  "manifest_body_of E m =
     \<lparr>mfb_count = mf_count m, mfb_checksum = hash_to_hex E (mf_checksum m),
      mfb_max_seq = position_or_zero (mf_max_seq m)\<rparr>"

text \<open>The bodies of the ingest surface (\<open>ingest.rs\<close>).\<close>

datatype operation = Upsert | Delete

record dropped_body =
  db_path :: rstr
  db_reason :: string
  db_expected :: "string option"
  db_found :: "string option"

record operation_result =
  or_id :: rstr
  or_op :: operation
  or_outcome :: string
  or_seq :: "64 word option"
  or_dropped :: "dropped_body list"

record digest_body =
  dgb_id :: rstr
  dgb_content_hash :: rstr

record digests_body =
  dsb_digests :: "digest_body list"
  dsb_next_cursor :: "rstr option"

datatype body =
    NoBody
  | HealthBody string
  | ErrorBody string message
  | RecordJson record_body
  | PageJson page_body
  | ChangesJson changes_body
  | ManifestJson manifest_body
  | BatchJson "operation_result list"
  | OperationJson operation_result
  | DigestsJson digests_body

record response =
  rs_status :: nat
  rs_challenge :: "rstr option"
  rs_etag :: "rstr option"
  rs_cache_control :: "rstr option"
  rs_body :: body

definition json_response :: "nat \<Rightarrow> body \<Rightarrow> response" where
  "json_response status b =
     \<lparr>rs_status = status, rs_challenge = None, rs_etag = None, rs_cache_control = None, rs_body = b\<rparr>"

definition challenge :: rstr where "challenge = lit ''Bearer''"

fun error_response :: "api_error \<Rightarrow> response" where
  "error_response Unauthorized =
     (json_response 401 (ErrorBody ''unauthorized'' (MText (lit ''a valid ingest credential is required''))))
       \<lparr>rs_challenge := Some challenge\<rparr>"
| "error_response (BadRequest code msg) = json_response 400 (ErrorBody code msg)"
| "error_response (ApiPayloadTooLarge msg) = json_response 413 (ErrorBody ''payload_too_large'' msg)"
| "error_response UnknownCollection =
     json_response 404 (ErrorBody ''unknown_collection'' (MText (lit ''no collection of that name is served'')))"
| "error_response NotFound =
     json_response 404 (ErrorBody ''not_found'' (MText (lit ''no such record in this collection'')))"
| "error_response (Internal e) =
     json_response 500 (ErrorBody ''internal'' (MText (lit ''the service could not answer this request'')))"

definition respond :: "api_error + response \<Rightarrow> response" where
  "respond r = (case r of Inl e \<Rightarrow> error_response e | Inr ok \<Rightarrow> ok)"

section \<open>Cache validators (\<open>cache.rs\<close>)\<close>

definition strip_weak :: "rstr \<Rightarrow> rstr" where
  "strip_weak etag = (case strip_prefix (lit ''W/'') etag of Some rest \<Rightarrow> rest | None \<Rightarrow> etag)"

text \<open>\<open>header\<close>: the text of \<open>If-None-Match\<close>, if there is one and it is text.\<close>

definition is_fresh :: "rstr option \<Rightarrow> rstr \<Rightarrow> bool" where
  "is_fresh header etag =
     (case header of
        None \<Rightarrow> False
      | Some h \<Rightarrow>
          list_ex (\<lambda>candidate. candidate = lit ''*'' \<or> strip_weak candidate = strip_weak etag)
            (map trim (split_on 44 h)))"

section \<open>The listing query (\<open>query.rs\<close>)\<close>

record list_params =
  lp_limit :: "16 word option"
  lp_cursor :: "64 word option"
  lp_filters :: "(rstr \<times> rstr) list"

definition list_params_default :: list_params where
  "list_params_default = \<lparr>lp_limit = None, lp_cursor = None, lp_filters = []\<rparr>"

definition quote_text :: "rstr \<Rightarrow> rstr" where "quote_text s = lit ''`'' @ s @ lit ''`''"

definition reject_repeat :: "bool \<Rightarrow> rstr \<Rightarrow> api_error + unit" where
  "reject_repeat already_seen key =
     (if already_seen
      then Inl (BadRequest ''invalid_query'' (MText (quote_text key @ lit '' is given more than once'')))
      else Inr ())"

text \<open>\<open>number\<close> for the two widths it is used at; \<open>parsed\<close> is the result of \<open>str::parse\<close>.\<close>

definition query_number :: "rstr \<Rightarrow> rstr \<Rightarrow> nat option \<Rightarrow> api_error + nat" where
  "query_number key v parsed =
     ok_or (BadRequest ''invalid_query''
       (MText (quote_text key @ lit '' must be a number, got '' @ quote_text v))) parsed"

definition U16_MAX :: int where "U16_MAX = 2 ^ 16 - 1"
definition U64_MAX :: int where "U64_MAX = 2 ^ 64 - 1"

definition filter_field :: "rstr \<Rightarrow> rstr option" where
  "filter_field key =
     Option.bind (strip_prefix (lit ''filter['') key)
       (\<lambda>rest. Option.bind (strip_suffix (lit '']'') rest) (\<lambda>field. if field = [] then None else Some field))"

fun list_params_loop :: "(rstr \<times> rstr) list \<Rightarrow> list_params \<Rightarrow> api_error + list_params" where
  "list_params_loop [] params = Inr params"
| "list_params_loop ((key, v) # rest) params =
     (if key = lit ''limit'' then
        ok_then (reject_repeat (lp_limit params \<noteq> None) (lit ''limit''))
          (\<lambda>_. ok_then (query_number key v (parse_unsigned U16_MAX v))
          (\<lambda>n. list_params_loop rest (params\<lparr>lp_limit := Some (word_of_nat n)\<rparr>)))
      else if key = lit ''cursor'' then
        ok_then (reject_repeat (lp_cursor params \<noteq> None) (lit ''cursor''))
          (\<lambda>_. ok_then (query_number key v (parse_unsigned U64_MAX v))
          (\<lambda>n. list_params_loop rest (params\<lparr>lp_cursor := Some (word_of_nat n)\<rparr>)))
      else if starts_with (lit ''filter['') key then
        ok_then (ok_or (BadRequest ''invalid_query''
                   (MText (quote_text key @ lit '' is not a filter; write filter[field]=value'')))
                   (filter_field key))
          (\<lambda>field. list_params_loop rest (params\<lparr>lp_filters := lp_filters params @ [(field, v)]\<rparr>))
      else Inl (BadRequest ''invalid_query''
             (MText (quote_text key @ lit '' is not a parameter of this endpoint''))))"

definition parse_list_params :: "env \<Rightarrow> rstr option \<Rightarrow> api_error + list_params" where
  "parse_list_params E raw =
     (case raw of
        None \<Rightarrow> Inr list_params_default
      | Some text \<Rightarrow> list_params_loop (e_form_parse E text) list_params_default)"

section \<open>Rate limits (\<open>limits.rs\<close>)\<close>

record rate_limits =
  read_per_second :: "32 word"
  read_burst :: "32 word"
  feed_per_second :: "32 word"
  feed_burst :: "32 word"
  trust_forwarded_for :: bool

definition rate_limits_default :: rate_limits where
  "rate_limits_default =
     \<lparr>read_per_second = 20, read_burst = 60, feed_per_second = 2, feed_burst = 10, trust_forwarded_for = False\<rparr>"

text \<open>The reasons: a limit with its two numbers, or a limit the governor would not build.\<close>

datatype limit_error = LimitUnusable string "32 word" "32 word" | LimitNotBuilt string

definition limit_interval :: "32 word \<Rightarrow> 64 word" where
  "limit_interval per_second = max (1000 div ucast (max per_second 1)) 1"

definition check_limit :: "string \<times> 32 word \<times> 32 word \<Rightarrow> limit_error + unit" where
  "check_limit = (\<lambda>(what, per_second, burst).
     if per_second = 0 \<or> burst = 0 then Inl (LimitUnusable what per_second burst) else Inr ())"

definition rate_limits_validate :: "rate_limits \<Rightarrow> limit_error + unit" where
  "rate_limits_validate l =
     for_each check_limit
       [(''read'', read_per_second l, read_burst l), (''feed'', feed_per_second l, feed_burst l)]"

text \<open>
  The route table of the public router, in the order it is built: the path, the handler and the limiter
  in front of it. \<open>finish\<close> is the governor's builder for a refill interval in milliseconds, a burst and
  what the limit is per; it may refuse.
\<close>

datatype segment = Static string | Param string

datatype handler = Health | ListCollection | Changes | Manifest | GetRecord

datatype client_key = PeerIp | SmartIp

record 'g route =
  rt_path :: "segment list"
  rt_handler :: handler
  rt_limiter :: "'g option"

definition public_router ::
    "(64 word \<Rightarrow> 32 word \<Rightarrow> client_key \<Rightarrow> 'g option) \<Rightarrow> rate_limits \<Rightarrow> client_key \<Rightarrow> limit_error + 'g route list" where
  "public_router finish l key =
     ok_then (rate_limits_validate l)
       (\<lambda>_. ok_then (ok_or (LimitNotBuilt ''read'') (finish (limit_interval (read_per_second l)) (read_burst l) key))
       (\<lambda>read. ok_then (ok_or (LimitNotBuilt ''feed'') (finish (limit_interval (feed_per_second l)) (feed_burst l) key))
       (\<lambda>feed. let collection = [Static ''v1'', Param ''source'', Param ''collection''] in
          Inr [\<lparr>rt_path = [Static ''health''], rt_handler = Health, rt_limiter = None\<rparr>,
               \<lparr>rt_path = collection, rt_handler = ListCollection, rt_limiter = Some read\<rparr>,
               \<lparr>rt_path = collection @ [Static ''changes''], rt_handler = Changes, rt_limiter = Some feed\<rparr>,
               \<lparr>rt_path = collection @ [Static ''manifest''], rt_handler = Manifest, rt_limiter = Some read\<rparr>,
               \<lparr>rt_path = collection @ [Param ''id''], rt_handler = GetRecord, rt_limiter = Some read\<rparr>])))"

definition router ::
    "(64 word \<Rightarrow> 32 word \<Rightarrow> client_key \<Rightarrow> 'g option) \<Rightarrow> rate_limits \<Rightarrow> limit_error + 'g route list" where
  "router finish l =
     (if trust_forwarded_for l then public_router finish l SmartIp else public_router finish l PeerIp)"

text \<open>A header map holds the values of a name; \<open>insert\<close> replaces them.\<close>

type_synonym header_map = "(rstr \<times> rstr) list"

definition header_insert :: "rstr \<Rightarrow> rstr \<Rightarrow> header_map \<Rightarrow> header_map" where
  "header_insert name v hs = filter (\<lambda>h. fst h \<noteq> name) hs @ [(name, v)]"

definition merge_headers :: "header_map \<Rightarrow> header_map \<Rightarrow> nat \<Rightarrow> header_map" where
  "merge_headers target extra wait_time =
     header_insert (lit ''retry-after'') (dec wait_time)
       (foldl (\<lambda>hs (name, v). header_insert name v hs) target extra)"

datatype governor_error =
    TooManyRequests nat "header_map option"
  | UnableToExtractKey
  | GovernorOther nat "rstr option" "header_map option"

record refusal =
  rf_status :: nat
  rf_code :: string
  rf_message :: rstr
  rf_headers :: header_map

definition refusal_of :: "header_map \<Rightarrow> governor_error \<Rightarrow> refusal" where
  "refusal_of own e =
     (case e of
        TooManyRequests wait_time headers \<Rightarrow>
          let wait = max wait_time 1;
              extra = (case headers of None \<Rightarrow> [] | Some hs \<Rightarrow> hs)
          in \<lparr>rf_status = 429, rf_code = ''rate_limited'',
              rf_message = lit ''too many requests; retry in '' @ dec wait @ lit ''s'',
              rf_headers = merge_headers own extra wait\<rparr>
      | UnableToExtractKey \<Rightarrow>
          \<lparr>rf_status = 500, rf_code = ''internal'',
           rf_message = lit ''the service could not answer this request'', rf_headers = own\<rparr>
      | GovernorOther code msg headers \<Rightarrow>
          \<lparr>rf_status = code, rf_code = ''rate_limited'',
           rf_message = (case msg of Some m \<Rightarrow> m | None \<Rightarrow> lit ''request refused''),
           rf_headers = (case headers of None \<Rightarrow> own | Some hs \<Rightarrow> merge_headers own hs 0)\<rparr>)"

section \<open>Metrics (\<open>metrics.rs\<close>)\<close>

text \<open>A counter increment: the metric and its labels.\<close>

datatype increment =
    DroppedIncrement collection_name rstr string
  | OutcomeIncrement collection_name string

fun label_path_loop :: "rstr \<Rightarrow> bool \<Rightarrow> rstr \<Rightarrow> rstr" where
  "label_path_loop [] in_index label = label"
| "label_path_loop (c # cs) in_index label =
     (if c = 91 then label_path_loop cs True (label @ [91])
      else if c = 93 then label_path_loop cs False (label @ [93])
      else if in_index then label_path_loop cs in_index label
      else label_path_loop cs in_index (label @ [c]))"

definition label_path :: "rstr \<Rightarrow> rstr" where
  "label_path path = label_path_loop path False []"

definition record_dropped :: "collection_name \<Rightarrow> dropped_field list \<Rightarrow> increment list" where
  "record_dropped collection dropped =
     map (\<lambda>f. DroppedIncrement collection (label_path (df_path f))
            (case df_reason f of UnknownKey \<Rightarrow> ''unknown_key'' | TypeMismatch _ _ \<Rightarrow> ''type_mismatch''))
       dropped"

definition record_outcomes :: "collection_name \<Rightarrow> applied list \<Rightarrow> increment list" where
  "record_outcomes collection outcomes =
     map (\<lambda>a. OutcomeIncrement collection
            (case a of AStored _ \<Rightarrow> ''stored'' | ATombstoned _ \<Rightarrow> ''tombstoned'' | AUnchanged \<Rightarrow> ''unchanged''))
       outcomes"

text \<open>The middleware \<open>track\<close> around a service: what a request was answered, how long it took, and the
  request counts made on the way. The route is the matched pattern.\<close>

record request_labels =
  rl_method :: rstr
  rl_route :: rstr
  rl_status :: rstr

record request_info =
  rq_method :: rstr
  rq_matched :: "rstr option"

record exchange =
  ex_status :: nat
  ex_millis :: nat
  ex_counted :: "request_labels list"

definition track :: "(request_info \<Rightarrow> exchange) \<Rightarrow> request_info \<Rightarrow> exchange" where
  "track inner rq =
     (let route = (case rq_matched rq of None \<Rightarrow> lit ''unmatched'' | Some path \<Rightarrow> path);
          response = inner rq
      in response\<lparr>ex_counted := ex_counted response @
           [\<lparr>rl_method = rq_method rq, rl_route = route, rl_status = dec (ex_status response)\<rparr>]\<rparr>)"

end
