(* ===== verification/Http_Properties.thy ===== *)
theory Http_Properties
  imports Http
begin

text \<open>What the shared HTTP layer promises: queries without silent defaults, limits that never refuse
  everything, and metric labels that forget array indices.\<close>

section \<open>The listing query\<close>

definition number_pair :: "string \<Rightarrow> int \<Rightarrow> rstr \<times> rstr \<Rightarrow> bool" where
  "number_pair name mx kv \<longleftrightarrow> fst kv = lit name \<and> parse_unsigned mx (snd kv) \<noteq> None"

definition known_pair :: "rstr \<times> rstr \<Rightarrow> bool" where
  "known_pair kv \<longleftrightarrow>
     number_pair ''limit'' U16_MAX kv \<or> number_pair ''cursor'' U64_MAX kv \<or> filter_field (fst kv) \<noteq> None"

definition given :: "string \<Rightarrow> int \<Rightarrow> (rstr \<times> rstr) list \<Rightarrow> nat option" where
  "given name mx pairs = Option.bind (map_of pairs (lit name)) (parse_unsigned mx)"

definition filter_pairs :: "(rstr \<times> rstr) list \<Rightarrow> (rstr \<times> rstr) list" where
  "filter_pairs pairs = List.map_filter (\<lambda>kv. map_option (\<lambda>f. (f, snd kv)) (filter_field (fst kv))) pairs"

definition occurrences :: "string \<Rightarrow> (rstr \<times> rstr) list \<Rightarrow> nat" where
  "occurrences name pairs = length (filter (\<lambda>kv. fst kv = lit name) pairs)"

lemma filter_field_prefix: "filter_field k = Some f \<Longrightarrow> k = lit ''filter['' @ f @ lit '']'' \<and> f \<noteq> []"
  by (auto simp: filter_field_def bind_eq_Some_conv strip_prefix_Some_iff strip_suffix_Some_iff split: if_splits)

lemma filter_field_plain [simp]: "filter_field (lit ''limit'') = None" "filter_field (lit ''cursor'') = None"
  using filter_field_prefix[of "lit ''limit''"] filter_field_prefix[of "lit ''cursor''"] by fastforce+

lemma filter_field_starts: "filter_field k = Some f \<Longrightarrow> starts_with (lit ''filter['') k"
  by (auto simp: starts_with_def dest!: filter_field_prefix)

text \<open>The loop with what it has read so far.\<close>

lemma list_params_loop_Inr:
  "list_params_loop pairs ps = Inr out \<longleftrightarrow>
     list_all known_pair pairs \<and>
     occurrences ''limit'' pairs + (if lp_limit ps = None then 0 else 1) \<le> 1 \<and>
     occurrences ''cursor'' pairs + (if lp_cursor ps = None then 0 else 1) \<le> 1 \<and>
     out = \<lparr>lp_limit = (case given ''limit'' U16_MAX pairs of None \<Rightarrow> lp_limit ps | Some n \<Rightarrow> Some (word_of_nat n)),
            lp_cursor = (case given ''cursor'' U64_MAX pairs of None \<Rightarrow> lp_cursor ps | Some n \<Rightarrow> Some (word_of_nat n)),
            lp_filters = lp_filters ps @ filter_pairs pairs\<rparr>" (is "?loop pairs ps \<longleftrightarrow> ?spec pairs ps")
proof (induction pairs arbitrary: ps)
  case Nil
  show ?case by (cases ps) (auto simp: occurrences_def given_def filter_pairs_def split: if_splits)
next
  case (Cons kv pairs)
  obtain k v where kv: "kv = (k, v)" by fastforce
  have occ: "occurrences name (kv # pairs) = (if k = lit name then 1 else 0) + occurrences name pairs" for name
    by (simp add: occurrences_def kv)
  have giv: "given name mx (kv # pairs) = (if k = lit name then parse_unsigned mx v else given name mx pairs)" for name mx
    by (simp add: given_def kv)
  have flt: "filter_pairs (kv # pairs) = (case filter_field k of None \<Rightarrow> [] | Some f \<Rightarrow> [(f, v)]) @ filter_pairs pairs"
    by (simp add: filter_pairs_def kv split: option.split)
  have none: "given name mx pairs = None" if "occurrences name pairs = 0" for name mx
  proof -
    have "map_of pairs (lit name) = None"
      using that by (force simp: occurrences_def filter_empty_conv map_of_eq_None_iff simp del: lit_simps)
    then show ?thesis by (simp add: given_def)
  qed
  have ne: "lit ''limit'' \<noteq> lit ''cursor''" "lit ''cursor'' \<noteq> lit ''limit''" by simp_all
  consider (limit) "k = lit ''limit''" | (cursor) "k = lit ''cursor''"
    | (filter) f where "filter_field k = Some f" "k \<noteq> lit ''limit''" "k \<noteq> lit ''cursor''"
    | (other) "filter_field k = None" "k \<noteq> lit ''limit''" "k \<noteq> lit ''cursor''"
    by (cases "filter_field k") auto
  then show ?case
  proof cases
    case limit
    have run: "list_params_loop (kv # pairs) ps =
        (if lp_limit ps \<noteq> None then Inl (BadRequest ''invalid_query'' (MText (quote_text k @ lit '' is given more than once'')))
         else ok_then (query_number k v (parse_unsigned U16_MAX v)) (\<lambda>n. list_params_loop pairs (ps\<lparr>lp_limit := Some (word_of_nat n)\<rparr>)))"
      by (simp add: kv limit reject_repeat_def del: lit_simps)
    have known: "known_pair kv \<longleftrightarrow> parse_unsigned U16_MAX v \<noteq> None"
      by (simp add: known_pair_def number_pair_def kv limit ne del: lit_simps)
    show ?thesis
    proof (cases "parse_unsigned U16_MAX v")
      case (Some n)
      then show ?thesis
        using none[of "''limit''" U16_MAX] unfolding run occ giv flt list.pred_inject known limit filter_field_plain
        by (auto simp: Cons.IH query_number_def ne simp del: lit_simps cong: option.case_cong)
    qed (use known in \<open>simp add: run query_number_def\<close>)
  next
    case cursor
    have run: "list_params_loop (kv # pairs) ps =
        (if lp_cursor ps \<noteq> None then Inl (BadRequest ''invalid_query'' (MText (quote_text k @ lit '' is given more than once'')))
         else ok_then (query_number k v (parse_unsigned U64_MAX v)) (\<lambda>n. list_params_loop pairs (ps\<lparr>lp_cursor := Some (word_of_nat n)\<rparr>)))"
      by (simp add: kv cursor reject_repeat_def ne del: lit_simps)
    have known: "known_pair kv \<longleftrightarrow> parse_unsigned U64_MAX v \<noteq> None"
      by (simp add: known_pair_def number_pair_def kv cursor ne del: lit_simps)
    show ?thesis
    proof (cases "parse_unsigned U64_MAX v")
      case (Some n)
      then show ?thesis
        using none[of "''cursor''" U64_MAX] unfolding run occ giv flt list.pred_inject known cursor filter_field_plain
        by (auto simp: Cons.IH query_number_def ne simp del: lit_simps cong: option.case_cong)
    qed (use known in \<open>simp add: run query_number_def\<close>)
  next
    case (filter f)
    have run: "list_params_loop (kv # pairs) ps = list_params_loop pairs (ps\<lparr>lp_filters := lp_filters ps @ [(f, v)]\<rparr>)"
      using filter by (simp add: kv filter_field_starts del: lit_simps)
    have "known_pair kv" using filter by (simp add: known_pair_def kv)
    then show ?thesis using filter unfolding run occ giv flt by (simp add: Cons.IH del: lit_simps cong: option.case_cong)
  next
    case other
    then have "\<not> known_pair kv" by (simp add: known_pair_def number_pair_def kv del: lit_simps)
    moreover have "\<exists>e. list_params_loop (kv # pairs) ps = Inl e"
      using other by (simp add: kv ok_or_def del: lit_simps)
    ultimately show ?thesis by auto
  qed
qed

text \<open>C36: A listing query is never answered by a silent default: it is accepted exactly when every parameter
  is a known one with a number in range or a named filter and neither paging parameter is repeated, and
  then the parameters are those given and the filters all of them in the order sent.\<close>

theorem listing_query_has_no_silent_default:
  "parse_list_params E (Some raw) = Inr params \<longleftrightarrow>
     list_all known_pair (e_form_parse E raw) \<and>
     occurrences ''limit'' (e_form_parse E raw) \<le> 1 \<and> occurrences ''cursor'' (e_form_parse E raw) \<le> 1 \<and>
     params = \<lparr>lp_limit = map_option word_of_nat (given ''limit'' U16_MAX (e_form_parse E raw)),
               lp_cursor = map_option word_of_nat (given ''cursor'' U64_MAX (e_form_parse E raw)),
               lp_filters = filter_pairs (e_form_parse E raw)\<rparr>"
  unfolding parse_list_params_def option.case list_params_loop_Inr
  by (simp add: list_params_default_def map_option_case cong: option.case_cong)

section \<open>Limits\<close>

lemma uint_max: "uint (max a b) = max (uint a) (uint b)" for a b :: "'a::len word"
  by (simp add: max_def word_le_def)

lemma uint_limit_interval: "uint (limit_interval p) = max (1000 div max (uint p) 1) 1"
proof -
  have "uint (ucast (max p 1) :: 64 word) = max (uint p) 1"
    by (simp add: uint_max unsigned_ucast_eq take_bit_int_eq_self_iff) (simp add: max_def unsigned_less [THEN less_trans])
  then show ?thesis by (simp add: limit_interval_def uint_max uint_div)
qed

lemma limit_interval_bounds: "1 \<le> uint (limit_interval p)" "uint (limit_interval p) \<le> 1000"
  unfolding uint_limit_interval using zdiv_mono2[of 1000 1 "max (uint p) 1"] by auto

lemma limit_interval_rate:
  assumes "p \<noteq> 0" "uint p \<le> 1000"
  shows "uint (limit_interval p) * uint p \<le> 1000"
proof -
  have "uint p \<noteq> 0" "0 \<le> uint p" using assms(1) by (simp_all add: uint_0_iff)
  then have p: "1 \<le> uint p" by linarith
  then have "1 \<le> 1000 div uint p" using assms(2) by (simp add: pos_imp_zdiv_pos_iff int_one_le_iff_zero_less)
  then have i: "uint (limit_interval p) = 1000 div uint p" using p by (simp add: uint_limit_interval max_def)
  have "1000 = 1000 div uint p * uint p + 1000 mod uint p" by simp
  moreover have "0 \<le> 1000 mod uint p" using p by simp
  ultimately show ?thesis unfolding i by linarith
qed



section \<open>Metric labels\<close>

text \<open>Where a field was dropped: keys and array indices, outermost first; \<open>drop_path\<close> is the path the
  projection engine builds for it.\<close>

datatype path_step = Key rstr | Index nat

fun drop_path :: "rstr \<Rightarrow> path_step list \<Rightarrow> rstr" where
  "drop_path path [] = path"
| "drop_path path (Key k # steps) = drop_path (child_path path k) steps"
| "drop_path path (Index i # steps) = drop_path (element_path path i) steps"

fun same_step :: "path_step \<Rightarrow> path_step \<Rightarrow> bool" where
  "same_step (Key k) st = (st = Key k \<and> 91 \<notin> set k \<and> 93 \<notin> set k)"
| "same_step (Index _) st = (case st of Key _ \<Rightarrow> False | Index _ \<Rightarrow> True)"

text \<open>Whether the loop is inside brackets after a piece of the path.\<close>

fun inside_after :: "bool \<Rightarrow> rstr \<Rightarrow> bool" where
  "inside_after b [] = b"
| "inside_after b (c # cs) = inside_after (if c = 91 then True else if c = 93 then False else b) cs"

lemma label_loop_append:
  "label_path_loop (xs @ ys) b acc = label_path_loop ys (inside_after b xs) (label_path_loop xs b acc)"
  by (induction xs arbitrary: b acc) auto

lemma inside_after_append: "inside_after b (xs @ ys) = inside_after (inside_after b xs) ys"
  by (induction xs arbitrary: b) auto

lemma label_loop_plain:
  "91 \<notin> set k \<Longrightarrow> 93 \<notin> set k \<Longrightarrow>
     label_path_loop k b acc = acc @ (if b then [] else k) \<and> inside_after b k = b"
  by (induction k arbitrary: acc) auto

lemma label_element:
  "label_path_loop (element_path p i) False [] = label_path_loop (lit ''[]'') (inside_after False p) (label_path_loop p False []) \<and>
   \<not> inside_after False (element_path p i)"
proof -
  have "91 \<notin> set (dec i)" "93 \<notin> set (dec i)" using dec_chars by fastforce+
  from label_loop_plain[OF this] show ?thesis
    by (simp add: element_path_def label_loop_append inside_after_append)
qed

text \<open>One array is one series: two drop paths that differ in array indices only have the same metric
  label, as long as no key contains a bracket.\<close>

theorem labels_forget_indices:
  assumes "list_all2 same_step steps steps'"
  shows "label_path (drop_path [] steps) = label_path (drop_path [] steps')"
proof -
  have "label_path (drop_path p steps) = label_path (drop_path p' steps')"
    if "label_path p = label_path p'" "\<not> inside_after False p" "\<not> inside_after False p'" "p = [] \<longleftrightarrow> p' = []" for p p'
    using assms that
  proof (induction arbitrary: p p' rule: list_all2_induct)
    case (Cons st steps st' steps')
    show ?case
    proof (cases st)
      case (Key k)
      with Cons.hyps have k: "st' = Key k" "91 \<notin> set k" "93 \<notin> set k" by simp_all
      note plain = label_loop_plain[OF k(2,3)]
      show ?thesis
        using Cons.prems Key k Cons.IH[of "child_path p k" "child_path p' k"] plain
        by (auto simp: child_path_def label_path_def label_loop_append inside_after_append)
    next
      case (Index i)
      with Cons.hyps obtain j where j: "st' = Index j" by (cases st') auto
      have "element_path p i \<noteq> []" "element_path p' j \<noteq> []" by (simp_all add: element_path_def)
      with Cons.prems Index j Cons.IH[of "element_path p i" "element_path p' j"] label_element[of p i] label_element[of p' j]
      show ?thesis by (simp add: label_path_def)
    qed
  qed simp
  then show ?thesis by simp
qed

lemma labels_forget_indices_witness:
  "label_path (lit ''images[7].url'') = label_path (lit ''images[2].url'')"
proof -
  have "drop_path [] [Key (lit ''images''), Index 7, Key (lit ''url'')] = lit ''images[7].url''"
    "drop_path [] [Key (lit ''images''), Index 2, Key (lit ''url'')] = lit ''images[2].url''"
    by (simp_all add: child_path_def element_path_def dec.simps)
  with labels_forget_indices[of "[Key (lit ''images''), Index 7, Key (lit ''url'')]" "[Key (lit ''images''), Index 2, Key (lit ''url'')]"]
  show ?thesis by simp
qed

end
