(* ===== verification/Store_Properties.thy ===== *)
theory Store_Properties
  imports Store_Contract
begin

text \<open>What the store promises beyond batches and paging: its invariant, tombstones, credentials, and the
  two cheap comparisons, feed position and checksum.\<close>

lemma sample_record_key_ok: "record_key_ok (record_key_new erp products (RecordId (lit ''A'')))"
  by (simp add: record_key_ok_new) (simp add: ident_eval)

section \<open>The invariant\<close>

text \<open>C9: Every writing operation, whether it succeeds or fails, keeps the database consistent: keys and
  positions are unique, every position was given out by the sequence, hashes are 32 bytes and belong
  to the payload, tombstones are empty, identifiers and credentials are well-formed.\<close>

theorem store_keeps_invariant:
  assumes "env_ok E" and "db_ok E d"
  shows "(record_key_ok key \<and> json_ok p \<longrightarrow> db_ok E (snd (pg_upsert E key p d))) \<and>
    (record_key_ok key \<longrightarrow> db_ok E (snd (pg_delete key d))) \<and>
    (source_ok source \<and> collection_ok collection \<and> list_all op_ok ops \<longrightarrow>
       db_ok E (snd (pg_apply E source collection ops d))) \<and>
    (source_ok source \<longrightarrow> db_ok E (snd (pg_store_token tk source label d)))"
proof (intro conjI impI)
  assume a: "record_key_ok key \<and> json_ok p"
  obtain r d' where run: "pg_upsert E key p d = (r, d')" by fastforce
  then have "d' = d \<or> db_step (batch_row E (key_source key) (key_collection key) {OpUpsert (key_id key) p}) d d'"
    using a pg_upsert_step[OF assms] by blast
  with run show "db_ok E (snd (pg_upsert E key p d))"
    using assms(2) db_step_ok[OF _ batch_row_ok assms(2)] by auto
next
  assume a: "record_key_ok key"
  obtain r d' where run: "pg_delete key d = (r, d')" by fastforce
  with pg_delete_step[OF assms a run] show "db_ok E (snd (pg_delete key d))"
    using db_step_ok[OF _ batch_row_ok assms(2)] by auto
next
  assume "source_ok source \<and> collection_ok collection \<and> list_all op_ok ops"
  then show "db_ok E (snd (pg_apply E source collection ops d))"
    using pg_apply_ok[OF assms] by (metis prod.collapse)
next
  assume "source_ok source"
  then show "db_ok E (snd (pg_store_token tk source label d))"
    using assms(2) by (auto simp: pg_store_token_def db_ok_def token_ok_def)
qed

lemma store_keeps_invariant_witness:
  "db_ok sample_env (snd (pg_delete (record_key_new erp products (RecordId (lit ''A''))) sample_db))"
proof -
  have "record_key_ok (record_key_new erp products (RecordId (lit ''A'')))"
    by (rule sample_record_key_ok)
  with store_keeps_invariant[OF sample_env_ok sample_db_ok] show ?thesis by blast
qed

section \<open>Tombstones\<close>

lemma same_shape_empty: "same_shape p (JObject []) \<Longrightarrow> p = JObject [] \<or> p = JObject []"
  by (cases p) (auto simp: is_number_def)

text \<open>A deleted record serves nothing of its last state: whatever reads it gets the empty document and
  the hash of the empty document.\<close>

theorem tombstones_are_empty:
  assumes "env_ok E" and "db_ok E d" and "pg_get key d = Inr (Some x)" and "is_deleted x"
  shows "sr_payload x = JObject [] \<and> sr_hash x = EMPTY_DOCUMENT"
proof -
  obtain r where r: "r \<in> set (db_rows d)" "x = record_of r"
    using assms(3) pg_get_row[OF assms(2), of key] by (auto split: option.splits dest: find_SomeD)
  then have "row_ok E r" using assms(2) by (simp add: db_ok_def)
  with r assms(4) obtain p where p: "r_payload r = JObject []" "json_ok p" "e_jsonb E p = Some (JObject [])"
      "content_hash E p = Inr (ContentHash (r_hash r))"
    by (auto simp: row_ok_def)
  then have "same_shape p (JObject [])" using assms(1) by (auto simp: env_ok_def jsonb_env_ok_def)
  then have "p = JObject []" using same_shape_empty by blast
  with p(4) EMPTY_DOCUMENT_hash[OF env_okD(1)[OF assms(1)]] have "ContentHash (r_hash r) = EMPTY_DOCUMENT" by simp
  with r p show ?thesis by (simp add: record_of_def)
qed

lemma tombstones_are_empty_witness:
  "\<exists>d x. pg_get (record_key_new erp products (RecordId (lit ''A''))) d = Inr (Some x) \<and> is_deleted x \<and>
       sr_payload x = JObject []"
proof -
  let ?k = "record_key_new erp products (RecordId (lit ''A''))"
  let ?d = "snd (pg_delete ?k sample_db)"
  have k: "record_key_ok ?k" by (rule sample_record_key_ok)
  have step: "db_step (batch_row sample_env (key_source ?k) (key_collection ?k) {OpDelete (key_id ?k)}) sample_db ?d"
    by (rule pg_delete_step[OF sample_env_ok sample_db_ok k, of "fst (pg_delete ?k sample_db)"]) simp
  have ok: "db_ok sample_env ?d" by (rule db_step_ok[OF step batch_row_ok sample_db_ok])
  have get: "pg_get ?k ?d = Inr (Some (record_of (tombstone_row ?k 3 7)))" by code_simp
  have del: "is_deleted (record_of (tombstone_row ?k 3 7))" by simp
  from tombstones_are_empty[OF sample_env_ok ok get del] get del show ?thesis by blast
qed

section \<open>Credentials\<close>

text \<open>A recorded credential authenticates its source and changes what no other credential resolves to.\<close>

theorem recorded_token_authenticates:
  assumes "source_ok source" and "pg_store_token tk source label d = (Inr (), d')"
  shows "pg_authenticate tk d' = Inr (Some source) \<and>
    (\<forall>other. other \<noteq> tk \<longrightarrow> pg_authenticate other d' = pg_authenticate other d)"
proof -
  let ?row = "\<lparr>tk_hash = token_hash_bytes tk, tk_source = source_str source, tk_label = label,
    tk_created_at = db_now d, tk_revoked_at = None\<rparr>"
  have new: "\<forall>t \<in> set (db_tokens d). tk_hash t \<noteq> token_hash_bytes tk" and d': "db_tokens d' = db_tokens d @ [?row]"
    using assms(2) by (auto simp: pg_store_token_def split: if_splits)
  have app: "find P (xs @ [x]) = (case find P xs of Some y \<Rightarrow> Some y | None \<Rightarrow> if P x then Some x else None)"
    for P and xs :: "token_row list" and x
    by (induction xs) auto
  have none: "find (\<lambda>t. tk_hash t = token_hash_bytes tk \<and> tk_revoked_at t = None) (db_tokens d) = None"
    using new by (auto simp: find_None_iff)
  have "pg_authenticate tk d' = Inr (Some source)"
    using assms(1) by (simp add: pg_authenticate_def d' app none source_ok_def transpose_result_def)
  moreover have "pg_authenticate other d' = pg_authenticate other d" if "other \<noteq> tk" for other
  proof -
    have "token_hash_bytes tk \<noteq> token_hash_bytes other" using that tokenhash.expand by metis
    then show ?thesis by (simp add: pg_authenticate_def d' app split: option.split)
  qed
  ultimately show ?thesis by blast
qed

definition sample_token :: tokenhash where "sample_token = TokenHash (replicate 32 5)"

lemma recorded_token_authenticates_witness:
  "pg_authenticate sample_token (snd (pg_store_token sample_token erp (lit ''outbox'') sample_db)) = Inr (Some erp)"
proof -
  have "pg_store_token sample_token erp (lit ''outbox'') sample_db =
      (Inr (), snd (pg_store_token sample_token erp (lit ''outbox'') sample_db))"
    by code_simp
  from recorded_token_authenticates[OF sample_names_ok(1) this] show ?thesis by blast
qed

section \<open>The feed position as a validator\<close>

text \<open>The highest feed position validates a collection: if it is the same after any number of writes,
  then every listing, every page of the feed and the manifest are the same too.\<close>

theorem same_position_same_answers:
  assumes "env_ok E" and "db_ok E d" and "db_steps (row_ok E) d d'" and "pg_max_seq s c d' = pg_max_seq s c d"
  shows "pg_list E s c flt after b d' = pg_list E s c flt after b d \<and>
    pg_changes E s c since b d' = pg_changes E s c since b d \<and> pg_manifest E s c d' = pg_manifest E s c d"
  using pg.same_position[of E d d' s c] assms by (simp add: pg_inv_def)

lemma same_position_same_answers_witness:
  "pg_manifest sample_env erp products (snd (pg_apply sample_env erp products sample_batch sample_db)) =
     pg_manifest sample_env erp products sample_db"
proof -
  have steps: "db_steps (row_ok sample_env) sample_db (sample_db\<lparr>db_seq_last := 4\<rparr>)"
    using db_steps_mono[OF pg_apply_steps[OF sample_env_ok sample_db_ok sample_names_ok sample_batch_ok sample_rerun] batch_row_ok] .
  have "pg_max_seq erp products (sample_db\<lparr>db_seq_last := 4\<rparr>) = pg_max_seq erp products sample_db"
    by (simp add: pg_max_seq_def)
  with same_position_same_answers[OF sample_env_ok sample_db_ok steps] show ?thesis by (simp add: sample_rerun)
qed

section \<open>The checksum\<close>

definition live_pairs :: "source_name \<Rightarrow> collection_name \<Rightarrow> db \<Rightarrow> (rstr \<times> contenthash) list" where
  "live_pairs s c d = map (\<lambda>r. (r_id r, ContentHash (r_hash r))) (filter (live_in s c) (db_rows d))"

lemma distinct_live_pairs:
  assumes "db_ok E d"
  shows "distinct (map fst (live_pairs s c d))"
proof -
  have "distinct (map row_id (filter (live_in s c) (db_rows d)))"
    using assms by (simp add: db_ok_def distinct_map_filter)
  then show ?thesis
    by (auto simp: live_pairs_def comp_def distinct_map inj_on_def live_in_def in_collection_def row_id_def)
qed

lemma live_pairs_map:
  assumes "db_ok E d"
  shows "map_of (live_pairs s c d) i = map_option (\<lambda>c. ContentHash (snd c)) (live s c d i)"
proof (cases "\<exists>r \<in> set (db_rows d). in_collection s c r \<and> r_id r = i")
  case True
  then obtain r where r: "r \<in> set (db_rows d)" "in_collection s c r" "r_id r = i" by blast
  have dist: "distinct (map row_id (db_rows d))" using assms by (simp add: db_ok_def)
  have only: "q = r" if "q \<in> set (db_rows d)" "in_collection s c q" "r_id q = i" for q
    using that r dist by (auto simp: distinct_map inj_on_def row_id_def in_collection_def)
  have l: "live s c d i = row_content r" using live_row[OF dist r(1,2)] r(3) by simp
  show ?thesis
  proof (cases "r_deleted_at r")
    case None
    then have "(i, ContentHash (r_hash r)) \<in> set (live_pairs s c d)"
      using r by (force simp: live_pairs_def live_in_def)
    then have "map_of (live_pairs s c d) i = Some (ContentHash (r_hash r))"
      using distinct_live_pairs[OF assms] by simp
    with l None show ?thesis by (simp add: row_content_def)
  next
    case (Some t)
    then have "i \<notin> fst ` set (live_pairs s c d)"
      using only by (auto simp: live_pairs_def live_in_def)
    with l Some show ?thesis by (simp add: row_content_def map_of_eq_None_iff)
  qed
next
  case False
  then have "i \<notin> fst ` set (live_pairs s c d)" by (auto simp: live_pairs_def live_in_def)
  moreover have "live s c d i = None" using False by (intro live_absent) auto
  ultimately show ?thesis by (simp add: map_of_eq_None_iff)
qed

lemma pg_manifest_pairs:
  assumes "db_ok E d" "pg_manifest E s c d = Inr m"
  shows "collection_checksum E (live_pairs s c d) = Inr (mf_checksum m) \<and> mf_count m = word_of_nat (length (live_pairs s c d))"
proof -
  have "traverse (\<lambda>r. map_ok (Pair (r_id r)) (to_content_hash (r_hash r))) (filter (live_in s c) (db_rows d)) =
      Inr (live_pairs s c d)"
    unfolding live_pairs_def
    using assms(1) by (intro traverse_Inr_map) (auto simp: db_ok_def row_ok_def to_content_hash_def hash_from_bytes_def)
  with assms(2) show ?thesis by (auto simp: pg_manifest_def result_simps split: if_splits)
qed

lemma map_option_hash:
  "map_option (\<lambda>c. ContentHash (snd c)) a = map_option (\<lambda>c. ContentHash (snd c)) b \<longleftrightarrow> map_option snd a = map_option snd b"
  by (cases a; cases b) auto

text \<open>C26: The manifest detects drift and only drift: two stores report the same checksum for a collection
  exactly when they hold the same live ids with the same content hashes, as long as the two summaries
  do not collide under the digest.\<close>

theorem manifest_detects_drift:
  assumes "env_ok E" and "db_ok E d" and "db_ok E d'"
    and "pg_manifest E s c d = Inr m" and "pg_manifest E s c d' = Inr m'"
    and "content_hash E (checksum_document E (live_pairs s c d)) = content_hash E (checksum_document E (live_pairs s c d'))
      \<Longrightarrow> checksum_document E (live_pairs s c d) = checksum_document E (live_pairs s c d')"
  shows "mf_checksum m = mf_checksum m' \<longleftrightarrow>
    (\<forall>i. map_option snd (live s c d i) = map_option snd (live s c d' i))"
proof -
  let ?p = "live_pairs s c d" and ?p' = "live_pairs s c d'"
  have d: "distinct (map fst ?p)" "distinct (map fst ?p')" using distinct_live_pairs assms(2,3) by blast+
  have "mf_checksum m = mf_checksum m' \<longleftrightarrow> collection_checksum E ?p = collection_checksum E ?p'"
    using pg_manifest_pairs[OF assms(2,4)] pg_manifest_pairs[OF assms(3,5)] by auto
  also have "\<dots> \<longleftrightarrow> checksum_document E ?p = checksum_document E ?p'"
    using assms(6) by (auto simp: collection_checksum_def)
  also have "\<dots> \<longleftrightarrow> mset ?p = mset ?p'"
    by (rule checksum_document_eq_iff[OF env_okD(1)[OF assms(1)] d(1)])
  also have "\<dots> \<longleftrightarrow> set ?p = set ?p'"
    using d by (auto simp: distinct_map set_eq_iff_mset_eq_distinct)
  also have "\<dots> \<longleftrightarrow> map_of ?p = map_of ?p'" using map_of_inject_set[OF d] by blast
  also have "\<dots> \<longleftrightarrow> (\<forall>i. map_option snd (live s c d i) = map_option snd (live s c d' i))"
    unfolding fun_eq_iff live_pairs_map[OF assms(2)] live_pairs_map[OF assms(3)]
    by (rule iff_allI, rule map_option_hash)
  finally show ?thesis .
qed

lemma manifest_detects_drift_witness:
  "\<exists>m m'. pg_manifest sample_env erp products sample_db = Inr m \<and>
     pg_manifest sample_env erp products (empty_db 7) = Inr m' \<and> mf_checksum m \<noteq> mf_checksum m'"
proof -
  have "is_ok (pg_manifest sample_env erp products sample_db)" "is_ok (pg_manifest sample_env erp products (empty_db 7))"
    by code_simp+
  then obtain m m' where m: "pg_manifest sample_env erp products sample_db = Inr m"
      "pg_manifest sample_env erp products (empty_db 7) = Inr m'"
    by (auto simp: is_ok_iff)
  have apart: "content_hash sample_env (checksum_document sample_env (live_pairs erp products sample_db)) \<noteq>
      content_hash sample_env (checksum_document sample_env (live_pairs erp products (empty_db 7)))"
    by code_simp
  have "map_option snd (live erp products sample_db (lit ''A'')) \<noteq> map_option snd (live erp products (empty_db 7) (lit ''A''))"
    by code_simp
  with manifest_detects_drift[OF sample_env_ok sample_db_ok empty_db_ok m] apart have "mf_checksum m \<noteq> mf_checksum m'"
    by blast
  with m show ?thesis by blast
qed

end
