(* ===== verification/Digest_Walk.thy ===== *)
theory Digest_Walk
  imports Store_Contract
begin

text \<open>
  The walk a sender makes over the digests of its collection (\<open>Store::digests\<close>, by id in the database's
  collation), while others write between its requests: every id that stays live is reported once, and
  nothing is reported that was not live.
\<close>

section \<open>Rows in the order of their ids\<close>

lemma set_insert_by [simp]: "set (insert_by lt x xs) = insert x (set xs)"
  by (induction xs) auto

lemma set_sort_by [simp]: "set (sort_by lt xs) = set xs"
  by (induction xs) (auto simp: sort_by_def)

lemma insert_by_sorted:
  assumes "transp lt"
  shows "sorted_wrt lt xs \<Longrightarrow> (\<forall>y \<in> set xs. lt x y \<or> lt y x) \<Longrightarrow> sorted_wrt lt (insert_by lt x xs)"
  by (induction xs) (use assms in \<open>auto dest: transpD\<close>)

lemma sort_by_sorted:
  assumes "transp lt"
  shows "pairwise (\<lambda>a b. lt a b \<or> lt b a) (set xs) \<Longrightarrow> distinct xs \<Longrightarrow> sorted_wrt lt (sort_by lt xs)"
proof (induction xs)
  case (Cons x xs)
  then have "\<forall>y \<in> set xs. lt x y \<or> lt y x" by (auto simp: pairwise_insert)
  then have "\<forall>y \<in> set (sort_by lt xs). lt x y \<or> lt y x" by simp
  moreover have "sorted_wrt lt (sort_by lt xs)" using Cons by (simp add: pairwise_insert)
  ultimately show ?case using insert_by_sorted[OF assms] by (simp add: sort_by_def)
qed (simp add: sort_by_def)

abbreviation by_id :: "env \<Rightarrow> row \<Rightarrow> row \<Rightarrow> bool" where
  "by_id E a b \<equiv> e_collate E (r_id a) (r_id b)"

definition digest_rows :: "env \<Rightarrow> source_name \<Rightarrow> collection_name \<Rightarrow> rstr \<Rightarrow> db \<Rightarrow> row list" where
  "digest_rows E s c lo d = sort_by (by_id E) (filter (\<lambda>r. live_in s c r \<and> e_collate E lo (r_id r)) (db_rows d))"

lemma set_digest_rows: "set (digest_rows E s c lo d) = {r \<in> set (db_rows d). live_in s c r \<and> e_collate E lo (r_id r)}"
  by (simp add: digest_rows_def)

lemma digest_rows_sorted:
  assumes "collation_ok (e_collate E)" and "db_ok E d"
  shows "sorted_wrt (by_id E) (digest_rows E s c lo d)"
  unfolding digest_rows_def
proof (rule sort_by_sorted)
  show "transp (by_id E)" using assms(1) unfolding collation_ok_def transp_def by blast
  have keys: "distinct (map row_id (db_rows d))" using assms(2) by (simp add: db_ok_def)
  then show "distinct (filter (\<lambda>r. live_in s c r \<and> e_collate E lo (r_id r)) (db_rows d))"
    by (simp add: distinct_map)
  have "by_id E a b \<or> by_id E b a"
    if "a \<in> set (db_rows d)" "b \<in> set (db_rows d)" "live_in s c a" "live_in s c b" "a \<noteq> b" for a b
  proof -
    have "row_id a \<noteq> row_id b" using keys that by (auto simp: distinct_map inj_on_def)
    with that have "r_id a \<noteq> r_id b" by (auto simp: row_id_def live_in_def in_collection_def)
    then show ?thesis using assms(1) unfolding collation_ok_def by blast
  qed
  then show "pairwise (\<lambda>a b. by_id E a b \<or> by_id E b a)
      (set (filter (\<lambda>r. live_in s c r \<and> e_collate E lo (r_id r)) (db_rows d)))"
    by (auto simp: pairwise_def)
qed

section \<open>One page\<close>

definition digest_of_row :: "row \<Rightarrow> digest" where
  "digest_of_row r = \<lparr>dg_id = RecordId (r_id r), dg_hash = ContentHash (r_hash r)\<rparr>"

lemma digest_of_row_simps [simp]:
  "dg_id (digest_of_row r) = RecordId (r_id r)" "dg_hash (digest_of_row r) = ContentHash (r_hash r)"
  by (simp_all add: digest_of_row_def)

definition lower_id :: "record_id option \<Rightarrow> rstr" where
  "lower_id after = (case after of None \<Rightarrow> [] | Some i \<Rightarrow> id_str i)"

lemma digest_entries:
  assumes "\<forall>r \<in> set rows. row_ok E r"
  shows "traverse (\<lambda>r. ok_then (map_err (\<lambda>e. Corrupt (BadId e)) (record_id_new (r_id r)))
      (\<lambda>i. ok_then (to_content_hash (r_hash r)) (\<lambda>h. Inr \<lparr>dg_id = i, dg_hash = h\<rparr>))) rows =
    Inr (map digest_of_row rows)"
  by (rule traverse_Inr_map)
    (use assms in \<open>auto simp: row_ok_def record_id_ok_def to_content_hash_def digest_of_row_def
      hash_from_bytes_def result_simps\<close>)

lemma pg_digests_page:
  assumes "db_ok E d" and "limit_ok limit"
  shows "pg_digests E s c after limit d =
    (let all = digest_rows E s c (lower_id after) d; n = unat (limit_get limit)
     in Inr \<lparr>dp_entries = map digest_of_row (take n all),
             dp_next = (if n \<le> length all then Some (RecordId (r_id (all ! (n - 1)))) else None)\<rparr>)"
proof -
  let ?n = "unat (limit_get limit)" and ?all = "digest_rows E s c (lower_id after) d"
  have n: "0 < ?n" using limit_ok_unat[OF assms(2)] by simp
  have "\<forall>r \<in> set (take ?n ?all). row_ok E r"
    using assms(1) by (auto simp: db_ok_def set_digest_rows dest!: in_set_takeD)
  note entries = digest_entries[OF this]
  have last: "last_opt (map digest_of_row (take ?n ?all)) = Some (digest_of_row (?all ! (?n - 1)))" if "?n \<le> length ?all"
  proof -
    have "take ?n ?all \<noteq> []" using that n by auto
    then show ?thesis using that n by (simp add: last_opt_def last_map take_Suc_last)
  qed
  show ?thesis
    unfolding pg_digests_def Let_def lower_id_def[symmetric] digest_rows_def[symmetric] entries ok_then_Inr
    using last by (cases "?n \<le> length ?all") simp_all
qed

section \<open>The walk\<close>

text \<open>\<open>ask k after\<close> is the answer to the \<open>k\<close>-th request: the store it finds is not the one before.\<close>

fun digest_walk :: "(nat \<Rightarrow> record_id option \<Rightarrow> store_error + digest_page) \<Rightarrow> nat \<Rightarrow> nat \<Rightarrow> record_id option \<Rightarrow> digest list option" where
  "digest_walk ask 0 k after = None"
| "digest_walk ask (Suc fuel) k after =
     (case ask k after of
        Inl e \<Rightarrow> None
      | Inr p \<Rightarrow>
          (case dp_next p of
             None \<Rightarrow> Some (dp_entries p)
           | Some i \<Rightarrow> map_option ((@) (dp_entries p)) (digest_walk ask fuel (Suc k) (Some i))))"

definition live_digest :: "source_name \<Rightarrow> collection_name \<Rightarrow> db \<Rightarrow> digest \<Rightarrow> bool" where
  "live_digest s c d e \<longleftrightarrow> (\<exists>r \<in> set (db_rows d). live_in s c r \<and> digest_of_row r = e)"

definition live_id :: "source_name \<Rightarrow> collection_name \<Rightarrow> db \<Rightarrow> rstr \<Rightarrow> bool" where
  "live_id s c d i \<longleftrightarrow> (\<exists>r \<in> set (db_rows d). live_in s c r \<and> r_id r = i)"

abbreviation digest_id :: "digest \<Rightarrow> rstr" where
  "digest_id e \<equiv> id_str (dg_id e)"

abbreviation by_digest_id :: "env \<Rightarrow> digest \<Rightarrow> digest \<Rightarrow> bool" where
  "by_digest_id E a b \<equiv> e_collate E (digest_id a) (digest_id b)"

text \<open>What a walk from \<open>lo\<close> that starts with the \<open>k\<close>-th request reports.\<close>

definition walked :: "env \<Rightarrow> source_name \<Rightarrow> collection_name \<Rightarrow> (nat \<Rightarrow> db) \<Rightarrow> nat \<Rightarrow> nat \<Rightarrow> rstr \<Rightarrow> digest list \<Rightarrow> bool" where
  "walked E s c ds k fuel lo es \<longleftrightarrow>
     sorted_wrt (by_digest_id E) es \<and>
     (\<forall>e \<in> set es. e_collate E lo (digest_id e) \<and> (\<exists>j \<in> {k..<k + fuel}. live_digest s c (ds j) e)) \<and>
     (\<forall>i. e_collate E lo i \<and> (\<forall>j \<in> {k..<k + fuel}. live_id s c (ds j) i) \<longrightarrow> i \<in> digest_id ` set es)"

lemma walked_page:
  assumes "collation_ok (e_collate E)" and "db_ok E (ds k)" and "0 < fuel"
  shows "walked E s c ds k fuel lo (map digest_of_row (digest_rows E s c lo (ds k)))"
proof -
  let ?all = "digest_rows E s c lo (ds k)"
  have k: "k \<in> {k..<k + fuel}" using assms(3) by simp
  have "sorted_wrt (by_digest_id E) (map digest_of_row ?all)"
    using digest_rows_sorted[OF assms(1,2)] by (simp add: sorted_wrt_map)
  moreover have "e_collate E lo (digest_id e) \<and> (\<exists>j \<in> {k..<k + fuel}. live_digest s c (ds j) e)"
    if "e \<in> set (map digest_of_row ?all)" for e
    using that by (auto simp: set_digest_rows live_digest_def intro!: bexI[OF _ k])
  moreover have "i \<in> digest_id ` set (map digest_of_row ?all)"
    if "e_collate E lo i \<and> (\<forall>j \<in> {k..<k + fuel}. live_id s c (ds j) i)" for i
    using that k by (force simp: set_digest_rows live_id_def)
  ultimately show ?thesis unfolding walked_def by blast
qed

lemma walked_append:
  assumes lt: "collation_ok (e_collate E)" and ok: "db_ok E (ds k)"
    and n: "0 < n" "n \<le> length (digest_rows E s c lo (ds k))"
    and rest: "walked E s c ds (Suc k) fuel (r_id (digest_rows E s c lo (ds k) ! (n - 1))) es"
  shows "walked E s c ds k (Suc fuel) lo (map digest_of_row (take n (digest_rows E s c lo (ds k))) @ es)"
proof -
  let ?all = "digest_rows E s c lo (ds k)"
  let ?m = "r_id (?all ! (n - 1))"
  have trans: "e_collate E a b' \<Longrightarrow> e_collate E b' c' \<Longrightarrow> e_collate E a c'" for a b' c'
    using lt unfolding collation_ok_def by blast
  have sorted: "sorted_wrt (by_id E) ?all" by (rule digest_rows_sorted[OF lt ok])
  have m_in: "?all ! (n - 1) \<in> set ?all" using n by simp
  then have lo_m: "e_collate E lo ?m" by (simp add: set_digest_rows)
  have upto: "r_id r = ?m \<or> e_collate E (r_id r) ?m" if "r \<in> set (take n ?all)" for r
  proof -
    from that obtain j where "j < n" "j < length ?all" "r = ?all ! j" by (auto simp: in_set_conv_nth)
    then show ?thesis using sorted_wrt_nth_less[OF sorted, of j "n - 1"] n by (cases "j = n - 1") auto
  qed
  have beyond: "e_collate E ?m (r_id r)" if "r \<in> set (drop n ?all)" for r
  proof -
    from that obtain j where "j < length ?all - n" "r = ?all ! (n + j)" by (auto simp: in_set_conv_nth)
    then show ?thesis using sorted_wrt_nth_less[OF sorted, of "n - 1" "n + j"] n by auto
  qed
  have after: "e_collate E ?m (digest_id e)" if "e \<in> set es" for e using rest that by (simp add: walked_def)
  have "sorted_wrt (by_digest_id E) (map digest_of_row (take n ?all) @ es)"
    using sorted_wrt_take[OF sorted, of n] rest upto after trans
    by (auto simp: sorted_wrt_append sorted_wrt_map walked_def) metis
  moreover have "e_collate E lo (digest_id e) \<and> (\<exists>j \<in> {k..<k + Suc fuel}. live_digest s c (ds j) e)"
    if e: "e \<in> set (map digest_of_row (take n ?all) @ es)" for e
  proof (cases "e \<in> set es")
    case True
    then obtain j where "j \<in> {Suc k..<Suc k + fuel}" "live_digest s c (ds j) e" using rest by (auto simp: walked_def)
    moreover have "e_collate E lo (digest_id e)" using trans[OF lo_m after[OF True]] .
    ultimately show ?thesis by (intro conjI bexI[of _ j]) auto
  next
    case False
    with e obtain r where "r \<in> set ?all" "e = digest_of_row r" by (auto dest: in_set_takeD)
    then show ?thesis by (auto simp: set_digest_rows live_digest_def intro!: bexI[of _ k])
  qed
  moreover have "i \<in> digest_id ` set (map digest_of_row (take n ?all) @ es)"
    if i: "e_collate E lo i" "\<forall>j \<in> {k..<k + Suc fuel}. live_id s c (ds j) i" for i
  proof -
    have "live_id s c (ds k) i" using i(2) by simp
    then obtain r where "r \<in> set ?all" and id: "r_id r = i"
      using i(1) by (auto simp: live_id_def set_digest_rows)
    then have r: "r \<in> set (take n ?all) \<or> r \<in> set (drop n ?all)"
      by (metis append_take_drop_id set_append UnE)
    show ?thesis
    proof (cases "r \<in> set (take n ?all)")
      case True
      then show ?thesis using id by force
    next
      case False
      then have "e_collate E ?m i" using r beyond id by blast
      moreover have "\<forall>j \<in> {Suc k..<Suc k + fuel}. live_id s c (ds j) i" using i(2) by simp
      ultimately show ?thesis using rest by (auto simp: walked_def)
    qed
  qed
  ultimately show ?thesis unfolding walked_def by blast
qed

lemma digest_walk_from:
  assumes E: "env_ok E" and ok: "\<And>k. db_ok E (ds k)" and limit: "limit_ok limit"
    and ids: "finite ids" "\<forall>k i. live_id s c (ds k) i \<longrightarrow> i \<in> ids"
  shows "card {i \<in> ids. e_collate E (lower_id after) i} < fuel \<Longrightarrow>
    \<exists>es. digest_walk (\<lambda>k after. pg_digests E s c after limit (ds k)) fuel k after = Some es \<and>
         walked E s c ds k fuel (lower_id after) es"
proof (induction fuel arbitrary: k after)
  case (Suc fuel)
  note lt = env_okD(3)[OF E]
  let ?lo = "lower_id after" and ?n = "unat (limit_get limit)"
  let ?all = "digest_rows E s c ?lo (ds k)"
  have n: "0 < ?n" using limit_ok_unat[OF limit] by simp
  show ?case
  proof (cases "?n \<le> length ?all")
    case False
    then show ?thesis
      using walked_page[OF lt ok, where fuel = "Suc fuel"] by (simp add: pg_digests_page[OF ok limit] Let_def)
  next
    case True
    let ?m = "r_id (?all ! (?n - 1))"
    have "?all ! (?n - 1) \<in> set ?all" using True n by simp
    then have m: "?m \<in> ids" "e_collate E ?lo ?m" using ids(2) by (auto simp: set_digest_rows live_id_def)
    have "{i \<in> ids. e_collate E ?m i} \<subset> {i \<in> ids. e_collate E ?lo i}"
      using m lt unfolding collation_ok_def by blast
    then have "card {i \<in> ids. e_collate E ?m i} < card {i \<in> ids. e_collate E ?lo i}"
      using ids(1) by (intro psubset_card_mono) auto
    then have "card {i \<in> ids. e_collate E (lower_id (Some (RecordId ?m))) i} < fuel"
      using Suc.prems by (simp add: lower_id_def)
    from Suc.IH[OF this, of "Suc k"] obtain es where es:
        "digest_walk (\<lambda>k after. pg_digests E s c after limit (ds k)) fuel (Suc k) (Some (RecordId ?m)) = Some es"
        "walked E s c ds (Suc k) fuel ?m es" by (auto simp: lower_id_def)
    show ?thesis
      using walked_append[OF lt ok n True es(2)] es(1) True by (simp add: pg_digests_page[OF ok limit] Let_def)
  qed
qed simp

text \<open>C24: A sender that follows the digest cursors while others write learns what it needs to find drift: the
  walk ends, every entry was live when it was read, no id is reported twice, and every id that was live
  all along is reported, whatever the page size and whatever was written between the requests.\<close>

theorem digests_walk_complete:
  assumes "env_ok E" and "\<And>k. db_ok E (ds k)" and "limit_ok limit"
    and "finite ids" and "\<And>k i. live_id s c (ds k) i \<Longrightarrow> i \<in> ids" and "card ids < fuel"
  shows "\<exists>es. digest_walk (\<lambda>k after. pg_digests E s c after limit (ds k)) fuel 0 None = Some es \<and>
    distinct (map dg_id es) \<and>
    (\<forall>e \<in> set es. \<exists>k < fuel. live_digest s c (ds k) e) \<and>
    (\<forall>i. (\<forall>k < fuel. live_id s c (ds k) i) \<longrightarrow> RecordId i \<in> dg_id ` set es)"
proof -
  note lt = env_okD(3)[OF assms(1)]
  have "card {i \<in> ids. e_collate E (lower_id None) i} \<le> card ids" using assms(4) by (intro card_mono) auto
  with assms(6) have "card {i \<in> ids. e_collate E (lower_id None) i} < fuel" by simp
  moreover have "\<forall>k i. live_id s c (ds k) i \<longrightarrow> i \<in> ids" using assms(5) by blast
  ultimately have "\<exists>es. digest_walk (\<lambda>k after. pg_digests E s c after limit (ds k)) fuel 0 None = Some es \<and>
      walked E s c ds 0 fuel (lower_id None) es"
    using assms(4) by (intro digest_walk_from assms(1-3))
  then obtain es where es:
      "digest_walk (\<lambda>k after. pg_digests E s c after limit (ds k)) fuel 0 None = Some es"
      "walked E s c ds 0 fuel [] es" by (auto simp: lower_id_def)
  have "distinct (map dg_id es)"
    using es(2) lt unfolding walked_def collation_ok_def distinct_conv_nth sorted_wrt_iff_nth_less length_map
    by (metis linorder_neqE_nat nth_map)
  moreover have "RecordId i \<in> dg_id ` set es" if live: "\<forall>k < fuel. live_id s c (ds k) i" for i
  proof -
    from live assms(6) obtain r where "r \<in> set (db_rows (ds 0))" "r_id r = i" by (auto simp: live_id_def)
    with assms(2)[of 0] have "i \<noteq> []" by (auto simp: db_ok_def row_ok_def ident_eval)
    then have "e_collate E [] i" using lt by (simp add: collation_ok_def)
    with live es(2) obtain e where "e \<in> set es" "i = digest_id e" by (auto simp: walked_def)
    then show ?thesis by (intro image_eqI[of _ _ e]) (auto simp: record_id.expand)
  qed
  moreover have "\<exists>k < fuel. live_digest s c (ds k) e" if "e \<in> set es" for e
    using es(2) that unfolding walked_def by (metis add_0 atLeastLessThan_iff)
  ultimately show ?thesis using es(1) by blast
qed

lemma digests_walk_complete_witness:
  "\<exists>es. digest_walk (\<lambda>k after. pg_digests sample_env erp products after (PageLimit 1) sample_db) 3 0 None = Some es \<and>
     distinct (map dg_id es) \<and> RecordId (lit ''A'') \<in> dg_id ` set es"
proof -
  have a: "live_id erp products sample_db i \<longleftrightarrow> i = lit ''A'' \<or> i = lit ''B''" for i
    by (auto simp: live_id_def live_in_def sample_db_def sample_row_def in_collection_def proposed_row_def record_key_new_def)
  have "limit_ok (PageLimit 1)" using sample_budget by (simp add: budget_valid_def page_budget_of_def)
  from digests_walk_complete[where ds = "\<lambda>_. sample_db", OF sample_env_ok sample_db_ok this,
      of "{lit ''A'', lit ''B''}" erp products 3]
  show ?thesis using a by (auto simp: card_insert_if)
qed

end
