(* ===== verification/Public_Api.thy ===== *)
theory Public_Api
  imports Http
begin

text \<open>
  The public read routes: \<open>crates/api/src/public.rs\<close> and \<open>state.rs\<close>. A handler is a function of the
  shared state, the decoded path segments, the query, the text of \<open>If-None-Match\<close>, and of the store. A
  handler that asks the store twice takes two store states: other requests may write between the two
  queries, and the second state is what the second query finds.
\<close>

section \<open>Shared state (\<open>state.rs\<close>)\<close>

record 's api_state =
  as_store :: "'s store"
  as_schemas :: schema_set
  as_response_bytes :: byte_budget

definition api_state_new :: "'s store \<Rightarrow> schema_set \<Rightarrow> 's api_state" where
  "api_state_new st schemas =
     \<lparr>as_store = st, as_schemas = schemas, as_response_bytes = budget_default\<rparr>"

definition with_response_bytes :: "byte_budget \<Rightarrow> 's api_state \<Rightarrow> 's api_state" where
  "with_response_bytes b a = a\<lparr>as_response_bytes := b\<rparr>"

section \<open>Helpers\<close>

definition parse_path :: "(rstr \<Rightarrow> ident_error + 'a) \<Rightarrow> rstr \<Rightarrow> string \<Rightarrow> api_error + 'a" where
  "parse_path from_str v what = map_err (bad_path what) (from_str v)"

definition quoted :: "rstr \<Rightarrow> rstr" where "quoted v = [34] @ v @ [34]"

definition validator :: "rstr \<Rightarrow> seq option \<Rightarrow> seq option \<Rightarrow> page_limit option \<Rightarrow> rstr" where
  "validator kind max_seq after limit =
     (let position = dec (unat (position_or_zero max_seq))
      in case limit of
           Some l \<Rightarrow>
             quoted (kind @ [46] @ position @ [46] @ dec (unat (position_or_zero after)) @ [46] @
                     dec (unat (limit_get l)))
         | None \<Rightarrow> quoted (kind @ [46] @ position))"

definition filter_fingerprint :: "env \<Rightarrow> query_filter \<Rightarrow> rstr" where
  "filter_fingerprint E flt =
     (case content_hash E (filter_as_json flt) of
        Inl _ \<Rightarrow> lit ''unhashable''
      | Inr hash \<Rightarrow> take 16 (hash_to_hex E hash))"

definition trim_end_quotes :: "rstr \<Rightarrow> rstr" where
  "trim_end_quotes s = rev (dropWhile (\<lambda>c. c = 34) (rev s))"

definition listing_validator :: "env \<Rightarrow> seq option \<Rightarrow> seq option \<Rightarrow> page_limit \<Rightarrow> query_filter \<Rightarrow> rstr" where
  "listing_validator E max_seq after limit flt =
     (let base = validator (lit ''l'') max_seq after (Some limit)
      in if filter_is_empty flt then base
         else trim_end_quotes base @ [46] @ filter_fingerprint E flt @ [34])"

definition find_schema :: "'s api_state \<Rightarrow> collection_name \<Rightarrow> api_error + collection_schema" where
  "find_schema a collection = ok_or UnknownCollection (schema_set_get (as_schemas a) collection)"

definition declared_max_age :: "'s api_state \<Rightarrow> collection_name \<Rightarrow> api_error + 32 word" where
  "declared_max_age a collection = map_ok (\<lambda>s. shared_max_age (cs_cache s)) (find_schema a collection)"

text \<open>The \<open>ETag\<close> and the \<open>Cache-Control\<close> of a cacheable response.\<close>

definition cache_headers :: "env \<Rightarrow> 32 word \<Rightarrow> rstr \<Rightarrow> rstr \<times> rstr" where
  "cache_headers E max_age etag =
     (let control = lit ''public, s-maxage='' @ dec (unat max_age)
      in (if e_header E etag then etag else [34, 34],
          if e_header E control then control else lit ''public''))"

definition cached_response :: "nat \<Rightarrow> env \<Rightarrow> 32 word \<Rightarrow> rstr \<Rightarrow> body \<Rightarrow> response" where
  "cached_response status E max_age etag b =
     (json_response status b)
       \<lparr>rs_etag := Some (fst (cache_headers E max_age etag)),
        rs_cache_control := Some (snd (cache_headers E max_age etag))\<rparr>"

definition not_modified :: "env \<Rightarrow> 32 word \<Rightarrow> rstr \<Rightarrow> response" where
  "not_modified E max_age etag = cached_response 304 E max_age etag NoBody"

section \<open>Handlers\<close>

record changes_query =
  cq_since :: "64 word option"
  cq_limit :: "16 word option"

definition page_limit_of :: "16 word option \<Rightarrow> page_limit" where
  "page_limit_of l = (case l of None \<Rightarrow> limit_default | Some n \<Rightarrow> limit_clamp n)"

definition health :: response where
  "health = json_response 200 (HealthBody ''ok'')"

definition list_collection ::
    "env \<Rightarrow> 's api_state \<Rightarrow> rstr \<Rightarrow> rstr \<Rightarrow> rstr option \<Rightarrow> rstr option \<Rightarrow> 's \<Rightarrow> 's \<Rightarrow> api_error + response" where
  "list_collection E a source_text collection_text query if_none_match now later_on =
     ok_then (parse_path source_name_new source_text ''source'')
       (\<lambda>source. ok_then (parse_path collection_name_new collection_text ''collection'')
       (\<lambda>collection. ok_then (find_schema a collection)
       (\<lambda>schema. ok_then (parse_list_params E query)
       (\<lambda>params. ok_then (map_err (\<lambda>e. BadRequest ''invalid_filter'' (MFilter e)) (filter_parse schema (lp_filters params)))
       (\<lambda>flt.
          let max_age = shared_max_age (cs_cache schema);
              limit = page_limit_of (lp_limit params);
              budget = \<lparr>pb_records = limit, pb_bytes = as_response_bytes a\<rparr>;
              after = map_option seq_new (lp_cursor params)
          in ok_then (map_err Internal (st_max_seq (as_store a) source collection now))
               (\<lambda>max_seq.
                  let etag = listing_validator E max_seq after limit flt
                  in if is_fresh if_none_match etag then Inr (not_modified E max_age etag)
                     else ok_then (map_err Internal (st_list (as_store a) source collection flt after budget later_on))
                            (\<lambda>p. Inr (cached_response 200 E max_age etag
                                    (PageJson (page_body_new E p (position_or_zero max_seq)))))))))))"

definition get_record ::
    "env \<Rightarrow> 's api_state \<Rightarrow> rstr \<Rightarrow> rstr \<Rightarrow> rstr \<Rightarrow> rstr option \<Rightarrow> 's \<Rightarrow> api_error + response" where
  "get_record E a source_text collection_text id_text if_none_match now =
     ok_then (parse_path collection_name_new collection_text ''collection'')
       (\<lambda>collection. ok_then (declared_max_age a collection)
       (\<lambda>max_age. ok_then (parse_path source_name_new source_text ''source'')
       (\<lambda>source. ok_then (parse_path record_id_new id_text ''record id'')
       (\<lambda>i. ok_then (map_err Internal (st_get (as_store a) (record_key_new source collection i) now))
       (\<lambda>found. ok_then (ok_or NotFound found)
       (\<lambda>r. if is_deleted r then Inl NotFound
            else let etag = quoted (hash_to_hex E (sr_hash r))
                 in if is_fresh if_none_match etag then Inr (not_modified E max_age etag)
                    else Inr (cached_response 200 E max_age etag (RecordJson (record_body_of E r)))))))))"

text \<open>\<open>query\<close> is what axum's \<open>Query\<close> extractor made of the query string: the text of its rejection or
  the two parameters.\<close>

definition changes ::
    "env \<Rightarrow> 's api_state \<Rightarrow> rstr \<Rightarrow> rstr \<Rightarrow> rstr + changes_query \<Rightarrow> rstr option \<Rightarrow> 's \<Rightarrow> 's \<Rightarrow> api_error + response" where
  "changes E a source_text collection_text query if_none_match now later_on =
     ok_then (parse_path source_name_new source_text ''source'')
       (\<lambda>source. ok_then (parse_path collection_name_new collection_text ''collection'')
       (\<lambda>collection. ok_then (declared_max_age a collection)
       (\<lambda>max_age. ok_then (map_err (\<lambda>t. BadRequest ''invalid_query'' (MRejection t)) query)
       (\<lambda>q.
          let limit = page_limit_of (cq_limit q);
              budget = \<lparr>pb_records = limit, pb_bytes = as_response_bytes a\<rparr>;
              since = map_option seq_new (cq_since q)
          in ok_then (map_err Internal (st_max_seq (as_store a) source collection now))
               (\<lambda>max_seq.
                  let etag = validator (lit ''c'') max_seq since (Some limit)
                  in if is_fresh if_none_match etag then Inr (not_modified E max_age etag)
                     else ok_then (map_err Internal (st_changes (as_store a) source collection since budget later_on))
                            (\<lambda>p. Inr (cached_response 200 E max_age etag
                                    (ChangesJson (changes_body_new E p (position_or_zero max_seq))))))))))"

definition manifest_route ::
    "env \<Rightarrow> 's api_state \<Rightarrow> rstr \<Rightarrow> rstr \<Rightarrow> rstr option \<Rightarrow> 's \<Rightarrow> 's \<Rightarrow> api_error + response" where
  "manifest_route E a source_text collection_text if_none_match now later_on =
     ok_then (parse_path source_name_new source_text ''source'')
       (\<lambda>source. ok_then (parse_path collection_name_new collection_text ''collection'')
       (\<lambda>collection. ok_then (declared_max_age a collection)
       (\<lambda>max_age. ok_then (map_err Internal (st_max_seq (as_store a) source collection now))
       (\<lambda>max_seq.
          let etag = validator (lit ''m'') max_seq None None
          in if is_fresh if_none_match etag then Inr (not_modified E max_age etag)
             else ok_then (map_err Internal (st_manifest (as_store a) source collection later_on))
                    (\<lambda>m. Inr (cached_response 200 E max_age etag (ManifestJson (manifest_body_of E m))))))))"

end
