(* ===== verification/Validators.thy ===== *)
theory Validators
  imports Public_Api Sample_Store
begin

text \<open>
  The text of the validators of the collection routes: it determines the kind of the representation, the
  position of the collection and the slice.
\<close>

section \<open>The text of a validator\<close>

definition validator_inner :: "rstr \<Rightarrow> seq option \<Rightarrow> seq option \<Rightarrow> page_limit option \<Rightarrow> rstr" where
  "validator_inner kind max_seq after limit =
     kind @ 46 # dec (unat (position_or_zero max_seq)) @
       (case limit of
          Some l \<Rightarrow> 46 # dec (unat (position_or_zero after)) @ 46 # dec (unat (limit_get l))
        | None \<Rightarrow> [])"

lemma validator_quoted: "validator kind max_seq after limit = quoted (validator_inner kind max_seq after limit)"
  by (simp add: validator_def validator_inner_def split: option.split)

lemma quoted_inj [simp]: "quoted a = quoted b \<longleftrightarrow> a = b"
  by (simp add: quoted_def)

lemma unat_eq_iff: "unat a = unat b \<longleftrightarrow> a = b" for a b :: "'a::len word"
  by (simp add: word_unat_eq_iff)

lemma not_in_dec: "c < 48 \<or> 57 < c \<Longrightarrow> c \<notin> set (dec n)"
  using dec_chars by fastforce

lemma validator_inner_chars:
  "c \<in> set (validator_inner kind m a l) \<Longrightarrow> c \<in> set kind \<or> c = 46 \<or> (48 \<le> c \<and> c \<le> 57)"
  using dec_chars by (auto simp: validator_inner_def split: option.splits)

lemma validator_pieces:
  assumes "46 \<notin> set kind"
  shows "split_on 46 (validator_inner kind m a l) = kind # dec (unat (position_or_zero m)) #
    (case l of Some l \<Rightarrow> [dec (unat (position_or_zero a)), dec (unat (limit_get l))] | None \<Rightarrow> [])"
  using assms
  by (simp add: validator_inner_def split_on_append split_on_no_sep not_in_dec split: option.split)

lemma listing_validator_quoted:
  "listing_validator E m a l flt = quoted (validator_inner (lit ''l'') m a (Some l) @
     (if filter_is_empty flt then [] else 46 # filter_fingerprint E flt))"
proof -
  let ?i = "validator_inner (lit ''l'') m a (Some l)"
  have "?i \<noteq> []" "34 \<notin> set ?i" using validator_inner_chars[of 34 "lit ''l''" m a "Some l"]
    by (auto simp: validator_inner_def)
  then have "trim_end_quotes (quoted ?i) = 34 # ?i"
    by (cases ?i rule: rev_cases) (auto simp: trim_end_quotes_def quoted_def)
  then show ?thesis
    by (simp add: listing_validator_def validator_quoted quoted_def Let_def)
qed

lemma fingerprint_chars:
  assumes "hash_env_ok E" "c \<in> set (filter_fingerprint E flt)"
  shows "48 \<le> c \<and> c \<le> 117"
proof (cases "content_hash E (filter_as_json flt)")
  case (Inl e)
  with assms(2) show ?thesis by (auto simp: filter_fingerprint_def)
next
  case (Inr h)
  with assms(2) have "c \<in> set (hash_to_hex E h)" by (auto simp: filter_fingerprint_def dest: in_set_takeD)
  then show ?thesis using hash_envD(9)[OF assms(1), of "hash_bytes h"]
    by (auto simp: hash_to_hex_def list_all_iff)
qed

lemma listing_pieces:
  assumes "hash_env_ok E"
  shows "split_on 46 (validator_inner (lit ''l'') m a (Some l) @
     (if filter_is_empty flt then [] else 46 # filter_fingerprint E flt)) =
    [lit ''l'', dec (unat (position_or_zero m)), dec (unat (position_or_zero a)), dec (unat (limit_get l))] @
     (if filter_is_empty flt then [] else [filter_fingerprint E flt])"
proof -
  have "46 \<notin> set (filter_fingerprint E flt)" using fingerprint_chars[OF assms, of 46] by auto
  then show ?thesis by (simp add: validator_inner_def split_on_append split_on_no_sep not_in_dec)
qed

lemma validator_eqD:
  assumes "46 \<notin> set k" "46 \<notin> set k'" "validator k m a l = validator k' m' a' l'"
  shows "k = k' \<and> position_or_zero m = position_or_zero m' \<and>
    map_option limit_get l = map_option limit_get l' \<and> (l \<noteq> None \<longrightarrow> position_or_zero a = position_or_zero a')"
proof -
  have "validator_inner k m a l = validator_inner k' m' a' l'" using assms(3) by (simp add: validator_quoted)
  then have "split_on 46 (validator_inner k m a l) = split_on 46 (validator_inner k' m' a' l')" by simp
  then show ?thesis unfolding validator_pieces[OF assms(1)] validator_pieces[OF assms(2)]
    by (cases l; cases l') (auto simp: unat_eq_iff)
qed

lemma listing_validator_eq:
  assumes "hash_env_ok E"
  shows "listing_validator E m a l f = listing_validator E m' a' l' f' \<longleftrightarrow>
    position_or_zero m = position_or_zero m' \<and> position_or_zero a = position_or_zero a' \<and>
    limit_get l = limit_get l' \<and> filter_is_empty f = filter_is_empty f' \<and>
    (filter_is_empty f \<or> filter_fingerprint E f = filter_fingerprint E f')" (is "?l = ?r")
proof
  assume ?l
  then have "validator_inner (lit ''l'') m a (Some l) @ (if filter_is_empty f then [] else 46 # filter_fingerprint E f) =
      validator_inner (lit ''l'') m' a' (Some l') @ (if filter_is_empty f' then [] else 46 # filter_fingerprint E f')"
    by (simp add: listing_validator_quoted)
  from arg_cong[OF this, of "split_on 46"] show ?r
    unfolding listing_pieces[OF assms] by (auto simp: unat_eq_iff split: if_splits)
qed (auto simp: listing_validator_quoted validator_inner_def)

lemma listing_not_validator:
  assumes "hash_env_ok E" "46 \<notin> set k" "k \<noteq> lit ''l''"
  shows "listing_validator E m a l f \<noteq> validator k m' a' l'"
proof
  assume "listing_validator E m a l f = validator k m' a' l'"
  then have "validator_inner (lit ''l'') m a (Some l) @ (if filter_is_empty f then [] else 46 # filter_fingerprint E f) =
      validator_inner k m' a' l'"
    by (simp add: listing_validator_quoted validator_quoted)
  from arg_cong[OF this, of "split_on 46"] show False
    unfolding listing_pieces[OF assms(1)] validator_pieces[OF assms(2)] using assms(3) by simp
qed

text \<open>No cache can answer one representation with another: a listing's validator determines the
  position, the cursor, the page size and the filter's fingerprint, a feed page's the first three, a
  manifest's the position, and validators of different kinds never coincide.\<close>

theorem validators_tell_slices_apart:
  assumes "hash_env_ok E"
  shows "(listing_validator E m a l f = listing_validator E m' a' l' f' \<longleftrightarrow>
       position_or_zero m = position_or_zero m' \<and> position_or_zero a = position_or_zero a' \<and>
       limit_get l = limit_get l' \<and> filter_is_empty f = filter_is_empty f' \<and>
       (filter_is_empty f \<or> filter_fingerprint E f = filter_fingerprint E f')) \<and>
    (validator (lit ''c'') m a (Some l) = validator (lit ''c'') m' a' (Some l') \<longleftrightarrow>
       position_or_zero m = position_or_zero m' \<and> position_or_zero a = position_or_zero a' \<and> limit_get l = limit_get l') \<and>
    (validator (lit ''m'') m None None = validator (lit ''m'') m' None None \<longleftrightarrow> position_or_zero m = position_or_zero m') \<and>
    listing_validator E m a l f \<noteq> validator (lit ''c'') m' a' (Some l') \<and>
    listing_validator E m a l f \<noteq> validator (lit ''m'') m' None None \<and>
    validator (lit ''c'') m a (Some l) \<noteq> validator (lit ''m'') m' None None"
proof -
  have c: "validator (lit ''c'') m a (Some l) = validator (lit ''c'') m' a' (Some l') \<longleftrightarrow>
      position_or_zero m = position_or_zero m' \<and> position_or_zero a = position_or_zero a' \<and> limit_get l = limit_get l'"
    using validator_eqD[of "lit ''c''" "lit ''c''" m a "Some l" m' a' "Some l'"] by (auto simp: validator_def)
  have m: "validator (lit ''m'') m None None = validator (lit ''m'') m' None None \<longleftrightarrow> position_or_zero m = position_or_zero m'"
    using validator_eqD[of "lit ''m''" "lit ''m''" m None None m' None None] by (auto simp: validator_def)
  have cm: "validator (lit ''c'') m a (Some l) \<noteq> validator (lit ''m'') m' None None"
    using validator_eqD[of "lit ''c''" "lit ''m''" m a "Some l" m' None None] by auto
  show ?thesis
    using listing_validator_eq[OF assms] listing_not_validator[OF assms, of "lit ''c''"]
      listing_not_validator[OF assms, of "lit ''m''"] c m cm by auto
qed

lemma validators_tell_slices_apart_witness:
  "listing_validator sample_env (Some (Seq 7)) None (PageLimit 12) filter_default \<noteq>
     listing_validator sample_env (Some (Seq 7)) None (PageLimit 1) filter_default"
  using validators_tell_slices_apart[OF env_okD(1)[OF sample_env_ok],
      of "Some (Seq 7)" None "PageLimit 12" filter_default "Some (Seq 7)" None "PageLimit 1" filter_default] by simp

end
