(* ===== verification/Conditional.thy ===== *)
theory Conditional
  imports Validators Store_Contract
begin

text \<open>
  Conditional requests: what a 304 promises on the three collection routes, where other requests may
  write at any point between the store queries of the handlers.
\<close>

section \<open>Freshness\<close>

lemma fresh_quoted: "44 \<notin> set x \<Longrightarrow> is_fresh (Some (quoted x)) (quoted y) \<longleftrightarrow> x = y"
proof -
  assume "44 \<notin> set x"
  then have split: "split_on 44 (quoted x) = [quoted x]" by (intro split_on_no_sep) (simp add: quoted_def)
  have trim: "trim (quoted x) = quoted x" by (simp add: trim_id_iff quoted_def is_whitespace_def)
  have weak: "strip_weak (quoted z) = quoted z" for z by (simp add: strip_weak_def quoted_def)
  show ?thesis by (simp add: is_fresh_def split trim weak) (auto simp: quoted_def)
qed

lemma fresh_None [simp]: "\<not> is_fresh None etag"
  by (simp add: is_fresh_def)

lemma position_inner_ok:
  assumes "c \<in> set (validator_inner kind m a l)" "\<forall>c \<in> set kind. 97 \<le> c \<and> c \<le> 122"
  shows "c \<noteq> 44 \<and> 32 \<le> c \<and> c \<le> 126"
  using validator_inner_chars[OF assms(1)] assms(2) by fastforce

lemma listing_inner_ok:
  assumes "hash_env_ok E"
    "c \<in> set (validator_inner (lit ''l'') m a (Some l) @ (if filter_is_empty f then [] else 46 # filter_fingerprint E f))"
  shows "c \<noteq> 44 \<and> 32 \<le> c \<and> c \<le> 126"
  using assms(2) position_inner_ok[of c "lit ''l''" m a "Some l"] fingerprint_chars[OF assms(1), of c f]
  by (auto split: if_splits)

lemma quoted_header:
  assumes "header_env_ok E" "\<And>c. c \<in> set x \<Longrightarrow> c \<noteq> 44 \<and> 32 \<le> c \<and> c \<le> 126"
  shows "rs_etag (cached_response status E max_age (quoted x) b) = Some (quoted x)"
    and "is_fresh (rs_etag (cached_response status E max_age (quoted x) b)) (quoted y) \<longleftrightarrow> x = y"
proof -
  have "e_header E (quoted x)" using assms by (auto simp: header_env_ok_def quoted_def list_all_iff)
  then show e: "rs_etag (cached_response status E max_age (quoted x) b) = Some (quoted x)"
    by (simp add: cached_response_def cache_headers_def Let_def)
  have "44 \<notin> set x" using assms(2)[of 44] by blast
  then show "is_fresh (rs_etag (cached_response status E max_age (quoted x) b)) (quoted y) \<longleftrightarrow> x = y"
    unfolding e by (rule fresh_quoted)
qed

lemma listing_fresh:
  assumes "env_ok E"
  shows "is_fresh (rs_etag (cached_response status E max_age (listing_validator E m a l f) b)) (listing_validator E m' a' l' f')
    \<longleftrightarrow> listing_validator E m a l f = listing_validator E m' a' l' f'"
  unfolding listing_validator_quoted quoted_inj
  by (rule quoted_header(2)[OF env_okD(4)[OF assms]]) (rule listing_inner_ok[OF env_okD(1)[OF assms]])

lemma validator_fresh:
  assumes "env_ok E" "\<forall>c \<in> set kind. 97 \<le> c \<and> c \<le> 122"
  shows "is_fresh (rs_etag (cached_response status E max_age (validator kind m a l) b)) (validator kind' m' a' l')
    \<longleftrightarrow> validator kind m a l = validator kind' m' a' l'"
  unfolding validator_quoted quoted_inj
  by (rule quoted_header(2)[OF env_okD(4)[OF assms(1)]]) (rule position_inner_ok[OF _ assms(2)])

lemma cached_response_simps [simp]:
  "rs_status (cached_response status E max_age etag b) = status"
  "rs_body (cached_response status E max_age etag b) = b"
  by (simp_all add: cached_response_def json_response_def)

lemma not_modified_status [simp]: "rs_status (not_modified E max_age etag) = 304" "rs_body (not_modified E max_age etag) = NoBody"
  by (simp_all add: not_modified_def)

lemma full_not_304 [simp]: "cached_response 200 E max_age etag b \<noteq> not_modified E max_age' etag'"
  "not_modified E max_age' etag' \<noteq> cached_response 200 E max_age etag b"
  by (auto simp: cached_response_def not_modified_def json_response_def)

section \<open>The handlers, case by case\<close>

text \<open>What a listing request comes to once its address and query are accepted.\<close>

definition listing_request ::
    "env \<Rightarrow> 's api_state \<Rightarrow> rstr \<Rightarrow> rstr \<Rightarrow> rstr option \<Rightarrow> source_name \<Rightarrow> collection_name \<Rightarrow> 32 word \<Rightarrow>
     query_filter \<Rightarrow> page_limit \<Rightarrow> seq option \<Rightarrow> bool" where
  "listing_request E a st ct q source collection max_age flt limit after \<longleftrightarrow>
     (\<exists>schema params. source_name_new st = Inr source \<and> collection_name_new ct = Inr collection \<and>
        schema_set_get (as_schemas a) collection = Some schema \<and> parse_list_params E q = Inr params \<and>
        filter_parse schema (lp_filters params) = Inr flt \<and> max_age = shared_max_age (cs_cache schema) \<and>
        limit = page_limit_of (lp_limit params) \<and> after = map_option seq_new (lp_cursor params))"

lemma listing_request_unique:
  assumes "listing_request E a st ct q source collection max_age flt limit after"
    and "listing_request E a st ct q source' collection' max_age' flt' limit' after'"
  shows "source' = source \<and> collection' = collection \<and> max_age' = max_age \<and> flt' = flt \<and> limit' = limit \<and> after' = after"
  using assms by (auto simp: listing_request_def)

lemma list_collection_Inr:
  "list_collection E a st ct q inm s1 s2 = Inr r \<longleftrightarrow>
     (\<exists>source collection max_age flt limit after m.
        listing_request E a st ct q source collection max_age flt limit after \<and>
        st_max_seq (as_store a) source collection s1 = Inr m \<and>
        (if is_fresh inm (listing_validator E m after limit flt)
         then r = not_modified E max_age (listing_validator E m after limit flt)
         else (\<exists>p. st_list (as_store a) source collection flt after
                     \<lparr>pb_records = limit, pb_bytes = as_response_bytes a\<rparr> s2 = Inr p \<and>
                r = cached_response 200 E max_age (listing_validator E m after limit flt)
                      (PageJson (page_body_new E p (position_or_zero m))))))"
  by (auto simp: list_collection_def listing_request_def parse_path_def find_schema_def result_simps Let_def split: if_splits)

text \<open>The address of a collection that is served, with the age its cache directive declares.\<close>

definition collection_request ::
    "'s api_state \<Rightarrow> rstr \<Rightarrow> rstr \<Rightarrow> source_name \<Rightarrow> collection_name \<Rightarrow> 32 word \<Rightarrow> bool" where
  "collection_request a st ct source collection max_age \<longleftrightarrow>
     source_name_new st = Inr source \<and> collection_name_new ct = Inr collection \<and>
     (\<exists>schema. schema_set_get (as_schemas a) collection = Some schema \<and> max_age = shared_max_age (cs_cache schema))"

lemma changes_Inr:
  "changes E a st ct q inm s1 s2 = Inr r \<longleftrightarrow>
     (\<exists>source collection max_age cq m.
        collection_request a st ct source collection max_age \<and> q = Inr cq \<and>
        st_max_seq (as_store a) source collection s1 = Inr m \<and>
        (let since = map_option seq_new (cq_since cq); limit = page_limit_of (cq_limit cq);
             etag = validator (lit ''c'') m since (Some limit) in
         if is_fresh inm etag then r = not_modified E max_age etag
         else (\<exists>p. st_changes (as_store a) source collection since
                     \<lparr>pb_records = limit, pb_bytes = as_response_bytes a\<rparr> s2 = Inr p \<and>
                r = cached_response 200 E max_age etag (ChangesJson (changes_body_new E p (position_or_zero m))))))"
  by (auto simp: changes_def collection_request_def parse_path_def declared_max_age_def find_schema_def result_simps
        Let_def split: if_splits)

lemma manifest_Inr:
  "manifest_route E a st ct inm s1 s2 = Inr r \<longleftrightarrow>
     (\<exists>source collection max_age m.
        collection_request a st ct source collection max_age \<and>
        st_max_seq (as_store a) source collection s1 = Inr m \<and>
        (let etag = validator (lit ''m'') m None None in
         if is_fresh inm etag then r = not_modified E max_age etag
         else (\<exists>mf. st_manifest (as_store a) source collection s2 = Inr mf \<and>
                r = cached_response 200 E max_age etag (ManifestJson (manifest_body_of E mf)))))"
  by (auto simp: manifest_route_def collection_request_def parse_path_def declared_max_age_def find_schema_def result_simps
        Let_def split: if_splits)

section \<open>A 304 is right\<close>

text \<open>The states of two requests for one collection, in the chain of that collection.\<close>

definition request_chain ::
    "(source_name \<Rightarrow> collection_name \<Rightarrow> 's \<Rightarrow> 's \<Rightarrow> 's \<Rightarrow> bool) \<Rightarrow> rstr \<Rightarrow> rstr \<Rightarrow> 's \<Rightarrow> 's \<Rightarrow> 's \<Rightarrow> bool" where
  "request_chain chain st ct s1 s2 s3 \<longleftrightarrow>
     (\<forall>source collection. source_name_new st = Inr source \<longrightarrow> collection_name_new ct = Inr collection \<longrightarrow>
        chain source collection s1 s2 s3)"

text \<open>
  What a cache relies on: along a chain of states (the handler's two queries and the request that is
  answered 304), the same position of a collection means the same answers about it. The record store's
  contract gives it for states that follow each other by writes.
\<close>

locale cached_reads =
  fixes S :: "'s store"
    and chain :: "source_name \<Rightarrow> collection_name \<Rightarrow> 's \<Rightarrow> 's \<Rightarrow> 's \<Rightarrow> bool"
  assumes same_reads: "chain source collection s1 s2 s3 \<Longrightarrow>
      st_max_seq S source collection s1 = Inr m1 \<Longrightarrow> st_max_seq S source collection s3 = Inr m3 \<Longrightarrow>
      position_or_zero m1 = position_or_zero m3 \<Longrightarrow>
      m3 = m1 \<and>
      st_list S source collection flt after b s3 = st_list S source collection flt after b s2 \<and>
      st_changes S source collection after b s3 = st_changes S source collection after b s2 \<and>
      st_manifest S source collection s3 = st_manifest S source collection s2"
begin

lemma list_304:
  assumes "env_ok E" "as_store a = S" "request_chain chain st ct s1 s2 s3"
    and "list_collection E a st ct q inm s1 s2 = Inr r" "rs_status r = 200"
    and "list_collection E a st ct q (rs_etag r) s3 s4 = Inr r'" "rs_status r' = 304"
  shows "list_collection E a st ct q None s3 s3 = Inr r"
proof -
  from assms(4,5) obtain source collection max_age flt limit after m1 p where
      req: "listing_request E a st ct q source collection max_age flt limit after"
    and m1: "st_max_seq S source collection s1 = Inr m1"
    and p: "st_list S source collection flt after \<lparr>pb_records = limit, pb_bytes = as_response_bytes a\<rparr> s2 = Inr p"
    and r: "r = cached_response 200 E max_age (listing_validator E m1 after limit flt)
          (PageJson (page_body_new E p (position_or_zero m1)))"
    unfolding list_collection_Inr assms(2) by (auto simp: not_modified_def split: if_splits)
  have linked: "chain source collection s1 s2 s3"
    using assms(3) req by (auto simp: request_chain_def listing_request_def)
  from assms(6,7) obtain m3 where m3: "st_max_seq S source collection s3 = Inr m3"
    and fresh: "is_fresh (rs_etag r) (listing_validator E m3 after limit flt)"
    unfolding list_collection_Inr assms(2) by (auto dest: listing_request_unique[OF req] split: if_splits)
  from fresh have "listing_validator E m1 after limit flt = listing_validator E m3 after limit flt"
    unfolding r listing_fresh[OF assms(1)] .
  then have "position_or_zero m1 = position_or_zero m3"
    unfolding listing_validator_eq[OF env_okD(1)[OF assms(1)]] by simp
  note same = same_reads[OF linked m1 m3 this]
  show ?thesis unfolding list_collection_Inr assms(2) using req m3 p same r by fastforce
qed

lemma changes_304:
  assumes "env_ok E" "as_store a = S" "request_chain chain st ct s1 s2 s3"
    and "changes E a st ct q inm s1 s2 = Inr r" "rs_status r = 200"
    and "changes E a st ct q (rs_etag r) s3 s4 = Inr r'" "rs_status r' = 304"
  shows "changes E a st ct q None s3 s3 = Inr r"
proof -
  let ?v = "\<lambda>m cq. validator (lit ''c'') m (map_option seq_new (cq_since cq)) (Some (page_limit_of (cq_limit cq)))"
  from assms(4,5) obtain source collection max_age cq m1 p where
      req: "collection_request a st ct source collection max_age" "q = Inr cq"
    and m1: "st_max_seq S source collection s1 = Inr m1"
    and p: "st_changes S source collection (map_option seq_new (cq_since cq))
      \<lparr>pb_records = page_limit_of (cq_limit cq), pb_bytes = as_response_bytes a\<rparr> s2 = Inr p"
    and r: "r = cached_response 200 E max_age (?v m1 cq) (ChangesJson (changes_body_new E p (position_or_zero m1)))"
    unfolding changes_Inr assms(2) Let_def by (auto simp: not_modified_def split: if_splits)
  have linked: "chain source collection s1 s2 s3"
    using assms(3) req by (auto simp: request_chain_def collection_request_def)
  from assms(6,7) req obtain m3 where m3: "st_max_seq S source collection s3 = Inr m3"
    and fresh: "is_fresh (rs_etag r) (?v m3 cq)"
    unfolding changes_Inr assms(2) Let_def collection_request_def by (auto split: if_splits)
  have "?v m1 cq = ?v m3 cq"
    using fresh unfolding r by (subst (asm) validator_fresh[OF assms(1)]) auto
  then have "position_or_zero m1 = position_or_zero m3" by (auto dest!: validator_eqD[rotated 2])
  note same = same_reads[OF linked m1 m3 this]
  show ?thesis unfolding changes_Inr assms(2) Let_def using req m3 p same r by fastforce
qed

lemma manifest_304:
  assumes "env_ok E" "as_store a = S" "request_chain chain st ct s1 s2 s3"
    and "manifest_route E a st ct inm s1 s2 = Inr r" "rs_status r = 200"
    and "manifest_route E a st ct (rs_etag r) s3 s4 = Inr r'" "rs_status r' = 304"
  shows "manifest_route E a st ct None s3 s3 = Inr r"
proof -
  let ?v = "\<lambda>m. validator (lit ''m'') m None None"
  from assms(4,5) obtain source collection max_age m1 mf where
      req: "collection_request a st ct source collection max_age"
    and m1: "st_max_seq S source collection s1 = Inr m1"
    and mf: "st_manifest S source collection s2 = Inr mf"
    and r: "r = cached_response 200 E max_age (?v m1) (ManifestJson (manifest_body_of E mf))"
    unfolding manifest_Inr assms(2) Let_def by (auto simp: not_modified_def split: if_splits)
  have linked: "chain source collection s1 s2 s3"
    using assms(3) req by (auto simp: request_chain_def collection_request_def)
  from assms(6,7) req obtain m3 where m3: "st_max_seq S source collection s3 = Inr m3"
    and fresh: "is_fresh (rs_etag r) (?v m3)"
    unfolding manifest_Inr assms(2) Let_def collection_request_def by (auto split: if_splits)
  have "?v m1 = ?v m3"
    using fresh unfolding r by (subst (asm) validator_fresh[OF assms(1)]) auto
  then have "position_or_zero m1 = position_or_zero m3" by (auto dest!: validator_eqD[rotated 2])
  note same = same_reads[OF linked m1 m3 this]
  show ?thesis unfolding manifest_Inr assms(2) Let_def using req m3 mf same r by fastforce
qed

end

context record_store
begin

lemma same_position_chain:
  assumes "inv s1" "later s1 s2" "later s2 s3"
    and "st_max_seq S source collection s1 = Inr m1" "st_max_seq S source collection s3 = Inr m3"
    and "position_or_zero m1 = position_or_zero m3"
  shows "m3 = m1 \<and>
    st_list S source collection flt after b s3 = st_list S source collection flt after b s2 \<and>
    st_changes S source collection after b s3 = st_changes S source collection after b s2 \<and>
    st_manifest S source collection s3 = st_manifest S source collection s2"
proof -
  have inv2: "inv s2" and inv3: "inv s3" using later_inv assms(1-3) by blast+
  have pos: "seq_get q \<noteq> 0" if "m1 = Some q \<or> m3 = Some q" for q
    using that position_some[OF assms(1)] position_some[OF inv3] assms(4,5) by blast
  have m: "m3 = m1"
  proof (cases m1)
    case None
    with assms(6) pos show ?thesis by (cases m3) (auto simp: position_or_zero_def)
  next
    case (Some q)
    with assms(6) pos show ?thesis by (cases m3) (auto simp: position_or_zero_def seq.expand)
  qed
  have "st_max_seq S source collection s2 = st_max_seq S source collection s1"
    using position_between[OF assms(1-3)] assms(4,5) m by simp
  then have "st_max_seq S source collection s3 = st_max_seq S source collection s2" using assms(4,5) m by simp
  from same_position[OF inv2 assms(3) this] m show ?thesis by blast
qed

end

sublocale record_store \<subseteq> cached: cached_reads S "\<lambda>source collection s1 s2 s3. inv s1 \<and> later s1 s2 \<and> later s2 s3"
  using same_position_chain by unfold_locales blast

end
