(* ===== verification/Ingest_Api.thy ===== *)
theory Ingest_Api
  imports Http
begin

text \<open>
  The ingest routes: \<open>crates/api/src/ingest.rs\<close>. A handler is a function of the shared state, the text
  of the \<open>Authorization\<close> header, the decoded path, the decoded body and the store; it returns its answer,
  the metric increments it made, and the store afterwards. The credential is looked up in one store state
  (\<open>seen\<close>) and the request is carried out on another (\<open>s\<close>): requests interleave at the calls to the
  store. Decoding a body into envelopes is axum's and
  serde's; what they made of it is an argument.
\<close>

definition MAX_PAYLOAD_BYTES :: "64 word" where "MAX_PAYLOAD_BYTES = 64 * 1024"
definition MAX_BODY_BYTES :: "64 word" where "MAX_BODY_BYTES = 4 * 1024 * 1024"
definition MAX_BATCH :: int where "MAX_BATCH = 1000"

record 's ingest_state =
  is_store :: "'s store"
  is_schemas :: schema_set
  is_secret :: bytes
  is_max_payload_bytes :: "64 word"
  is_max_body_bytes :: "64 word"

definition ingest_state_new :: "'s store \<Rightarrow> schema_set \<Rightarrow> bytes \<Rightarrow> 's ingest_state" where
  "ingest_state_new st schemas secret =
     \<lparr>is_store = st, is_schemas = schemas, is_secret = secret,
      is_max_payload_bytes = MAX_PAYLOAD_BYTES, is_max_body_bytes = MAX_BODY_BYTES\<rparr>"

definition with_limits :: "64 word \<Rightarrow> 64 word \<Rightarrow> 's ingest_state \<Rightarrow> 's ingest_state" where
  "with_limits max_payload max_body a =
     a\<lparr>is_max_payload_bytes := max_payload, is_max_body_bytes := max_body\<rparr>"

section \<open>Authentication\<close>

text \<open>\<open>authorization\<close>: the value of the \<open>Authorization\<close> header, if there is one and it is text.\<close>

definition authenticated :: "env \<Rightarrow> 's ingest_state \<Rightarrow> rstr option \<Rightarrow> 's \<Rightarrow> api_error + source_name" where
  "authenticated E a authorization s =
     ok_then (ok_or Unauthorized (Option.bind authorization (strip_prefix (lit ''Bearer ''))))
       (\<lambda>presented. ok_then (map_err (\<lambda>_. Unauthorized) (token_hash E (is_secret a) (token_from_presented presented)))
       (\<lambda>h. ok_then (map_err Internal (st_authenticate (is_store a) h s)) (ok_or Unauthorized)))"

section \<open>Preparing one operation\<close>

record envelope =
  ev_op :: operation
  ev_id :: "record_id option"
  ev_payload :: "json option"

definition dropped_body_of :: "dropped_field \<Rightarrow> dropped_body" where
  "dropped_body_of f =
     (case df_reason f of
        UnknownKey \<Rightarrow>
          \<lparr>db_path = df_path f, db_reason = ''unknown_key'', db_expected = None, db_found = None\<rparr>
      | TypeMismatch expected found \<Rightarrow>
          \<lparr>db_path = df_path f, db_reason = ''type_mismatch'', db_expected = Some expected, db_found = Some found\<rparr>)"

type_synonym prepared = "ingest_op \<times> dropped_body list"

text \<open>The increments are those \<open>record_dropped\<close> made before an early return.\<close>

definition prepare_upsert ::
    "env \<Rightarrow> collection_schema \<Rightarrow> envelope \<Rightarrow> 64 word \<Rightarrow> (api_error + prepared) \<times> increment list" where
  "prepare_upsert E schema ev max_payload =
     (case ev_payload ev of
        None \<Rightarrow> (Inl (BadRequest ''missing_payload'' (MText (lit ''an upsert needs a payload''))), [])
      | Some payload \<Rightarrow>
          (case (case ev_id ev of
                   Some i \<Rightarrow> Inr i
                 | None \<Rightarrow> map_err (\<lambda>e. BadRequest ''missing_id'' (MIdError e)) (id_path_extract (cs_id schema) payload)) of
             Inl e \<Rightarrow> (Inl e, [])
           | Inr i \<Rightarrow>
               (case project schema payload of
                  Inl e \<Rightarrow> (Inl (BadRequest ''invalid_payload'' (MProjection e)), [])
                | Inr projected \<Rightarrow>
                    let counted = (if pj_dropped projected \<noteq> []
                                   then record_dropped (cs_collection schema) (pj_dropped projected) else [])
                    in (case canonicalize E (pj_payload projected) of
                          Inl e \<Rightarrow> (Inl (BadRequest ''invalid_payload'' (MCanonical e)), counted)
                        | Inr canonical \<Rightarrow>
                            let size = length canonical
                            in if int size > uint max_payload
                               then (Inl (ApiPayloadTooLarge (MSizes i size (unat max_payload))), counted)
                               else (Inr (OpUpsert i (pj_payload projected),
                                          map dropped_body_of (pj_dropped projected)), counted)))))"

definition prepare_delete :: "envelope \<Rightarrow> api_error + prepared" where
  "prepare_delete ev =
     (if ev_payload ev \<noteq> None
      then Inl (BadRequest ''payload_on_delete'' (MText (lit ''a delete carries no payload'')))
      else ok_then (ok_or (BadRequest ''missing_id'' (MText (lit ''a delete needs an explicit id''))) (ev_id ev))
             (\<lambda>i. Inr (OpDelete i, [])))"

definition prepare ::
    "env \<Rightarrow> collection_schema \<Rightarrow> envelope \<Rightarrow> 64 word \<Rightarrow> (api_error + prepared) \<times> increment list" where
  "prepare E schema ev max_payload =
     (case ev_op ev of
        Upsert \<Rightarrow> prepare_upsert E schema ev max_payload
      | Delete \<Rightarrow> (prepare_delete ev, []))"

text \<open>The loop of \<open>ingest\<close>: the first envelope that cannot be prepared ends it.\<close>

fun prepare_all ::
    "env \<Rightarrow> collection_schema \<Rightarrow> 64 word \<Rightarrow> envelope list \<Rightarrow> (api_error + prepared list) \<times> increment list" where
  "prepare_all E schema max_payload [] = (Inr [], [])"
| "prepare_all E schema max_payload (ev # evs) =
     (case prepare E schema ev max_payload of
        (Inl e, counted) \<Rightarrow> (Inl e, counted)
      | (Inr p, counted) \<Rightarrow>
          (case prepare_all E schema max_payload evs of
             (r, later_counted) \<Rightarrow> (map_ok (\<lambda>ps. p # ps) r, counted @ later_counted)))"

section \<open>Results\<close>

definition result_of :: "ingest_op \<Rightarrow> applied \<Rightarrow> dropped_body list \<Rightarrow> operation_result" where
  "result_of op outcome dropped =
     \<lparr>or_id = id_str (op_id op),
      or_op = (case op of OpUpsert _ _ \<Rightarrow> Upsert | OpDelete _ \<Rightarrow> Delete),
      or_outcome = (case outcome of AStored _ \<Rightarrow> ''stored'' | ATombstoned _ \<Rightarrow> ''tombstoned'' | AUnchanged \<Rightarrow> ''unchanged''),
      or_seq = map_option seq_get (applied_seq outcome),
      or_dropped = dropped\<rparr>"

definition zip_results :: "ingest_op list \<Rightarrow> applied list \<Rightarrow> dropped_body list list \<Rightarrow> operation_result list" where
  "zip_results ops outcomes dropped_per_op =
     map (\<lambda>((op, outcome), dropped). result_of op outcome dropped) (zip (zip ops outcomes) dropped_per_op)"

section \<open>Handlers\<close>

text \<open>\<open>body\<close>: the envelopes of the request, or axum's rejection, whether it says the body is too large
  and its text.\<close>

definition rejected_body :: "bool \<times> rstr \<Rightarrow> api_error" where
  "rejected_body = (\<lambda>(too_large, reason).
     if too_large then ApiPayloadTooLarge (MRejection reason)
     else BadRequest ''invalid_body'' (MRejection reason))"

definition ingest_batch ::
    "env \<Rightarrow> 's ingest_state \<Rightarrow> source_name \<Rightarrow> collection_name \<Rightarrow> collection_schema \<Rightarrow> envelope list \<Rightarrow> 's
     \<Rightarrow> (api_error + response) \<times> increment list \<times> 's" where
  "ingest_batch E a source collection schema envelopes s =
     (if int (length envelopes) > MAX_BATCH
      then (Inl (BadRequest ''batch_too_large''
              (MText (lit ''a batch may carry at most '' @ dec (nat MAX_BATCH) @ lit '' operations''))), [], s)
      else (case prepare_all E schema (is_max_payload_bytes a) envelopes of
              (Inl e, counted) \<Rightarrow> (Inl e, counted, s)
            | (Inr prepared, counted) \<Rightarrow>
                (case st_apply (is_store a) source collection (map fst prepared) s of
                   (Inl e, s') \<Rightarrow> (Inl (Internal e), counted, s')
                 | (Inr outcomes, s') \<Rightarrow>
                     (Inr (json_response 200
                        (BatchJson (zip_results (map fst prepared) outcomes (map snd prepared)))),
                      counted @ record_outcomes collection outcomes, s'))))"

definition ingest ::
    "env \<Rightarrow> 's ingest_state \<Rightarrow> rstr option \<Rightarrow> rstr \<Rightarrow> bool \<times> rstr + envelope list \<Rightarrow> 's \<Rightarrow> 's
     \<Rightarrow> (api_error + response) \<times> increment list \<times> 's" where
  "ingest E a authorization collection_text body seen s =
     (case ok_then (authenticated E a authorization seen)
             (\<lambda>source. ok_then (map_err (bad_path ''collection'') (collection_name_new collection_text))
             (\<lambda>collection. ok_then (ok_or UnknownCollection (schema_set_get (is_schemas a) collection))
             (\<lambda>schema. ok_then (map_err rejected_body body)
             (\<lambda>envelopes. Inr (source, collection, schema, envelopes))))) of
        Inl e \<Rightarrow> (Inl e, [], s)
      | Inr (source, collection, schema, envelopes) \<Rightarrow> ingest_batch E a source collection schema envelopes s)"

definition delete_record ::
    "env \<Rightarrow> 's ingest_state \<Rightarrow> rstr option \<Rightarrow> rstr \<Rightarrow> rstr \<Rightarrow> 's \<Rightarrow> 's \<Rightarrow> (api_error + response) \<times> 's" where
  "delete_record E a authorization collection_text id_text seen s =
     (case ok_then (authenticated E a authorization seen)
             (\<lambda>source. ok_then (map_err (bad_path ''collection'') (collection_name_new collection_text))
             (\<lambda>collection. ok_then (if schema_set_contains (is_schemas a) collection then Inr () else Inl UnknownCollection)
             (\<lambda>_. ok_then (map_err (bad_path ''record id'') (record_id_new id_text))
             (\<lambda>i. Inr (record_key_new source collection i))))) of
        Inl e \<Rightarrow> (Inl e, s)
      | Inr key \<Rightarrow>
          (case st_delete (is_store a) key s of
             (Inl e, s') \<Rightarrow> (Inl (Internal e), s')
           | (Inr outcome, s') \<Rightarrow>
               (Inr (json_response 200 (OperationJson
                  \<lparr>or_id = id_str (key_id key), or_op = Delete,
                   or_outcome = (case outcome of DTombstoned _ \<Rightarrow> ''tombstoned'' | DUnchanged \<Rightarrow> ''unchanged''),
                   or_seq = map_option seq_get (deletion_seq outcome), or_dropped = []\<rparr>)), s')))"

record digests_query =
  dq_after :: "rstr option"
  dq_limit :: "16 word option"

definition digests_body_of :: "env \<Rightarrow> digest_page \<Rightarrow> digests_body" where
  "digests_body_of E p =
     \<lparr>dsb_digests = map (\<lambda>d. \<lparr>dgb_id = id_str (dg_id d), dgb_content_hash = hash_to_hex E (dg_hash d)\<rparr>) (dp_entries p),
      dsb_next_cursor = map_option id_str (dp_next p)\<rparr>"

definition digests ::
    "env \<Rightarrow> 's ingest_state \<Rightarrow> rstr option \<Rightarrow> rstr \<Rightarrow> rstr + digests_query \<Rightarrow> 's \<Rightarrow> 's \<Rightarrow> api_error + response" where
  "digests E a authorization collection_text query seen s =
     ok_then (authenticated E a authorization seen)
       (\<lambda>source. ok_then (map_err (bad_path ''collection'') (collection_name_new collection_text))
       (\<lambda>collection. ok_then (if schema_set_contains (is_schemas a) collection then Inr () else Inl UnknownCollection)
       (\<lambda>_. ok_then (map_err (\<lambda>t. BadRequest ''invalid_query'' (MRejection t)) query)
       (\<lambda>q. ok_then (map_err (bad_path ''after'') (transpose_result (map_option record_id_new (dq_after q))))
       (\<lambda>after.
          let limit = (case dq_limit q of None \<Rightarrow> limit_default | Some n \<Rightarrow> limit_clamp n)
          in ok_then (map_err Internal (st_digests (is_store a) source collection after limit s))
               (\<lambda>p. Inr (json_response 200 (DigestsJson (digests_body_of E p)))))))))"

section \<open>The ingest router (\<open>lib.rs\<close>)\<close>

datatype http_method = Get | Head | Post | DeleteMethod | OtherMethod

datatype ingest_handler = Ingest | Digests | DeleteRecord

text \<open>The routes of the ingest surface, the body limit in front of them and the state behind them.\<close>

record 's ingest_routes =
  ir_routes :: "(http_method \<times> segment list \<times> ingest_handler) list"
  ir_body_limit :: "64 word"
  ir_state :: "'s ingest_state"

definition ingest_router :: "'s ingest_state \<Rightarrow> 's ingest_routes" where
  "ingest_router a =
     (let collection = [Static ''v1'', Static ''ingest'', Param ''collection'']
      in \<lparr>ir_routes = [(Post, collection, Ingest), (Get, collection @ [Static ''digests''], Digests),
                       (DeleteMethod, collection @ [Param ''id''], DeleteRecord)],
          ir_body_limit = is_max_body_bytes a, ir_state = a\<rparr>)"

end
