(* ===== verification/Service.thy ===== *)
theory Service
  imports Conditional Ingest_Api
begin

text \<open>
  The service as a whole: what the ingest routes hand to the store, what they leave in it, and the
  states the service runs through. The lemmas are proved over the store contract.
\<close>

section \<open>Declared records\<close>

lemma accepts_same_shape: "accepts ty v \<Longrightarrow> same_shape v w \<Longrightarrow> accepts ty w"
  by (cases ty; cases v) (auto simp: is_string_def is_number_def is_boolean_def is_object_def is_array_def split: json.splits)

lemma list_all2_all: "list_all2 R xs ys \<Longrightarrow> (\<And>x y. x \<in> set xs \<Longrightarrow> R x y \<Longrightarrow> P x \<Longrightarrow> Q y) \<Longrightarrow> list_all P xs \<Longrightarrow> list_all Q ys"
  by (induction rule: list_all2_induct) auto

lemma conforms_same_shape: "conforms spec v \<Longrightarrow> same_shape v w \<Longrightarrow> conforms spec w"
proof (induction spec v arbitrary: w rule: conforms.induct)
  case (1 ty i v)
  then show ?case by (auto intro: accepts_same_shape)
next
  case (2 allow v)
  from "2.prems"(1) obtain m where v1: "v = JObject m" by (cases v) simp_all
  with "2.prems"(2) obtain n where v2: "w = JObject n"
    and shape: "list_all2 (\<lambda>a b. fst a = fst b \<and> same_shape (snd a) (snd b)) m n"
    by (cases w) simp_all
  note v = v1 v2
  let ?P = "\<lambda>kv. case lookup_field (fst kv) allow of None \<Rightarrow> False | Some spec \<Rightarrow> conforms spec (snd kv)"
  have "list_all ?P n"
  proof (rule list_all2_all[OF shape])
    fix x y assume x: "x \<in> set m" and xy: "fst x = fst y \<and> same_shape (snd x) (snd y)" and P: "?P x"
    from P obtain spec where "lookup_field (fst x) allow = Some spec" "conforms spec (snd x)"
      by (auto split: option.splits)
    with "2.IH"[OF v(1) x _ this(2)] xy show "?P y" by simp
  qed (use "2.prems"(1) v in simp)
  then show ?case by (simp add: v)
next
  case (3 items v)
  from "3.prems"(1) obtain vs where v1: "v = JArray vs" by (cases v) simp_all
  with "3.prems"(2) obtain ws where v2: "w = JArray ws" and shape: "list_all2 same_shape vs ws"
    by (cases w) simp_all
  note v = v1 v2
  have "list_all (conforms items) ws"
    by (rule list_all2_all[OF shape _, of "conforms items"]) (use "3.IH"[OF v(1)] "3.prems"(1) v in simp_all)
  then show ?case by (simp add: v)
qed

lemma document_conforms_same_shape: "document_conforms schema v \<Longrightarrow> same_shape v w \<Longrightarrow> document_conforms schema w"
  unfolding document_conforms_def by (rule conforms_same_shape)

text \<open>A record of a collection a schema declares, with nothing in its payload the schema does not release.\<close>

definition declared :: "schema_set \<Rightarrow> stored_record \<Rightarrow> bool" where
  "declared schemas x \<longleftrightarrow>
     (\<exists>schema. schema_set_get schemas (key_collection (sr_key x)) = Some schema \<and> document_conforms schema (sr_payload x))"

section \<open>Preparing\<close>

definition envelope_ok :: "envelope \<Rightarrow> bool" where
  "envelope_ok ev \<longleftrightarrow>
     (\<forall>p. ev_payload ev = Some p \<longrightarrow> json_ok p) \<and> (\<forall>i. ev_id ev = Some i \<longrightarrow> record_id_ok i)"

lemma prepare_Inr:
  assumes "fst (prepare E schema ev mx) = Inr (op, dropped)"
  obtains (upsert) payload i pj c where "ev_op ev = Upsert" "ev_payload ev = Some payload"
      "ev_id ev = Some i \<or> (ev_id ev = None \<and> id_path_extract (cs_id schema) payload = Inr i)"
      "project schema payload = Inr pj" "canonicalize E (pj_payload pj) = Inr c" "int (length c) \<le> uint mx"
      "op = OpUpsert i (pj_payload pj)" "dropped = map dropped_body_of (pj_dropped pj)"
  | (delete) i where "ev_op ev = Delete" "ev_payload ev = None" "ev_id ev = Some i" "op = OpDelete i" "dropped = []"
proof (cases "ev_op ev")
  case Upsert
  with assms show ?thesis
    by (auto simp: prepare_def prepare_upsert_def Let_def result_simps split: option.splits sum.splits if_splits intro: upsert)
next
  case Delete
  with assms show ?thesis
    by (auto simp: prepare_def prepare_delete_def result_simps split: if_splits intro: delete)
qed

lemma extracted_id_ok: "id_path_extract path v = Inr i \<Longrightarrow> record_id_ok i"
  by (auto simp: id_path_extract_def result_simps intro: record_id_new_ok)

definition op_conforms :: "collection_schema \<Rightarrow> ingest_op \<Rightarrow> bool" where
  "op_conforms schema op \<longleftrightarrow> (case op of OpUpsert _ p \<Rightarrow> document_conforms schema p | OpDelete _ \<Rightarrow> True)"

lemma prepared_ok:
  assumes "fst (prepare E schema ev mx) = Inr (op, dropped)" "envelope_ok ev"
  shows "op_ok op \<and> op_conforms schema op"
  using assms(1)
proof (cases rule: prepare_Inr)
  case (upsert payload i pj c)
  then have "json_ok payload" "record_id_ok i" using assms(2) extracted_id_ok by (auto simp: envelope_ok_def)
  with upsert project_conforms_released[of payload schema pj] show ?thesis by (simp add: op_conforms_def)
next
  case (delete i)
  with assms(2) show ?thesis by (simp add: op_conforms_def envelope_ok_def)
qed

lemma prepare_all_Inr:
  "fst (prepare_all E schema mx evs) = Inr ps \<longleftrightarrow> list_all2 (\<lambda>ev p. fst (prepare E schema ev mx) = Inr p) evs ps"
proof (induction evs arbitrary: ps)
  case (Cons ev evs)
  obtain r c where p: "prepare E schema ev mx = (r, c)" by fastforce
  obtain r' c' where q: "prepare_all E schema mx evs = (r', c')" by fastforce
  from Cons.IH q have IH: "r' = Inr ps' \<longleftrightarrow> list_all2 (\<lambda>ev p. fst (prepare E schema ev mx) = Inr p) evs ps'" for ps'
    by (metis fst_conv)
  show ?case by (cases r) (auto simp: p q list_all2_Cons1 result_simps simp flip: IH)
qed auto

lemma prepared_all_ok:
  assumes "fst (prepare_all E schema mx evs) = Inr ps" "list_all envelope_ok evs"
  shows "list_all op_ok (map fst ps)" "list_all (op_conforms schema) (map fst ps)"
proof -
  have "list_all2 (\<lambda>ev p. fst (prepare E schema ev mx) = Inr p) evs ps" using assms(1) by (simp add: prepare_all_Inr)
  then have "list_all (\<lambda>p. op_ok (fst p) \<and> op_conforms schema (fst p)) ps"
    by (rule list_all2_all[OF _ _ assms(2)]) (metis prepared_ok prod.collapse)
  then show "list_all op_ok (map fst ps)" "list_all (op_conforms schema) (map fst ps)"
    by (auto simp: list_all_iff)
qed

section \<open>The two writing routes\<close>

lemma ingest_cases:
  assumes "ingest E a auth ct body seen s = (r, counted, s')"
  obtains (refused) e where "r = Inl e" "s' = s"
  | (applied) source collection schema envs ps ar where "authenticated E a auth seen = Inr source"
      "collection_name_new ct = Inr collection" "schema_set_get (is_schemas a) collection = Some schema"
      "body = Inr envs" "int (length envs) \<le> MAX_BATCH"
      "fst (prepare_all E schema (is_max_payload_bytes a) envs) = Inr ps"
      "st_apply (is_store a) source collection (map fst ps) s = (ar, s')"
      "r = (case ar of Inl e \<Rightarrow> Inl (Internal e)
            | Inr outs \<Rightarrow> Inr (json_response 200 (BatchJson (zip_results (map fst ps) outs (map snd ps)))))"
proof -
  let ?pre = "ok_then (authenticated E a auth seen)
             (\<lambda>source. ok_then (map_err (bad_path ''collection'') (collection_name_new ct))
             (\<lambda>collection. ok_then (ok_or UnknownCollection (schema_set_get (is_schemas a) collection))
             (\<lambda>schema. ok_then (map_err rejected_body body)
             (\<lambda>envelopes. Inr (source, collection, schema, envelopes)))))"
  show ?thesis
  proof (cases ?pre)
    case (Inl e)
    with assms have "r = Inl e" "s' = s" by (simp_all add: ingest_def)
    then show ?thesis by (rule refused)
  next
    case (Inr q)
    then obtain source collection schema envs where q: "q = (source, collection, schema, envs)"
      and pre: "authenticated E a auth seen = Inr source" "collection_name_new ct = Inr collection"
        "schema_set_get (is_schemas a) collection = Some schema" "body = Inr envs"
      by (auto simp: result_simps)
    have run: "ingest_batch E a source collection schema envs s = (r, counted, s')"
      using assms Inr by (simp add: ingest_def q)
    obtain pr c where prep: "prepare_all E schema (is_max_payload_bytes a) envs = (pr, c)" by fastforce
    show ?thesis
    proof (cases "int (length envs) \<le> MAX_BATCH")
      case False
      with run show ?thesis by (intro refused) (auto simp: ingest_batch_def)
    next
      case True
      show ?thesis
      proof (cases pr)
        case (Inl e)
        with run True prep show ?thesis by (intro refused) (auto simp: ingest_batch_def)
      next
        case (Inr ps)
        obtain ar s2 where ap: "st_apply (is_store a) source collection (map fst ps) s = (ar, s2)" by fastforce
        with run True prep Inr have "s2 = s'" "r = (case ar of Inl e \<Rightarrow> Inl (Internal e)
            | Inr outs \<Rightarrow> Inr (json_response 200 (BatchJson (zip_results (map fst ps) outs (map snd ps)))))"
          by (auto simp: ingest_batch_def split: sum.splits)
        with pre True prep Inr ap show ?thesis by (intro applied) auto
      qed
    qed
  qed
qed

lemma delete_cases:
  assumes "delete_record E a auth ct it seen s = (r, s')"
  obtains (refused) e where "r = Inl e" "s' = s"
  | (applied) source collection i dr where "authenticated E a auth seen = Inr source"
      "collection_name_new ct = Inr collection" "schema_set_contains (is_schemas a) collection"
      "record_id_new it = Inr i" "st_delete (is_store a) (record_key_new source collection i) s = (dr, s')"
      "is_ok r \<longleftrightarrow> is_ok dr" "\<And>ok. r = Inr ok \<Longrightarrow> rs_status ok = 200"
proof -
  let ?pre = "ok_then (authenticated E a auth seen)
             (\<lambda>source. ok_then (map_err (bad_path ''collection'') (collection_name_new ct))
             (\<lambda>collection. ok_then (if schema_set_contains (is_schemas a) collection then Inr () else Inl UnknownCollection)
             (\<lambda>_. ok_then (map_err (bad_path ''record id'') (record_id_new it))
             (\<lambda>i. Inr (record_key_new source collection i)))))"
  show ?thesis
  proof (cases ?pre)
    case (Inl e)
    with assms have "r = Inl e" "s' = s" by (simp_all add: delete_record_def)
    then show ?thesis by (rule refused)
  next
    case (Inr key)
    then obtain source collection i where key: "key = record_key_new source collection i"
      and pre: "authenticated E a auth seen = Inr source" "collection_name_new ct = Inr collection"
        "schema_set_contains (is_schemas a) collection" "record_id_new it = Inr i"
      by (auto simp: result_simps split: if_splits)
    obtain dr s2 where dl: "st_delete (is_store a) key s = (dr, s2)" by fastforce
    with assms Inr have "s2 = s'" "is_ok r \<longleftrightarrow> is_ok dr" "\<And>ok. r = Inr ok \<Longrightarrow> rs_status ok = 200"
      by (auto simp: delete_record_def json_response_def split: sum.splits)
    with pre dl key show ?thesis by (intro applied) auto
  qed
qed

text \<open>The body of an ingest request holds well-formed documents and identifiers.\<close>

definition body_ok :: "bool \<times> rstr + envelope list \<Rightarrow> bool" where
  "body_ok body \<longleftrightarrow> (\<forall>envs. body = Inr envs \<longrightarrow> list_all envelope_ok envs)"

context record_store
begin

lemma authenticated_ok: "is_store a = S \<Longrightarrow> authenticated E a auth s = Inr source \<Longrightarrow> source_ok source"
  by (auto simp: authenticated_def result_simps intro: authenticate_ok)

text \<open>Everything one ingest request does to the store.\<close>

lemma ingest_effect:
  assumes "inv s" "is_store a = S" "body_ok body" "ingest E a auth ct body seen s = (r, counted, s')"
  shows "inv s' \<and> later s s' \<and>
    (s' = s \<or> (\<exists>source collection schema ops. authenticated E a auth seen = Inr source \<and>
       collection_name_new ct = Inr collection \<and> schema_set_get (is_schemas a) collection = Some schema \<and>
       list_all op_ok ops \<and> list_all (op_conforms schema) ops \<and>
       only_writes keeps source collection (set ops) (contents s) (contents s'))) \<and>
    (\<not> is_ok r \<longrightarrow> contents s' = contents s)"
  using assms(4)
proof (cases rule: ingest_cases)
  case (refused e)
  with assms(1) later_refl show ?thesis by simp
next
  case (applied source collection schema envs ps ar)
  have envs: "list_all envelope_ok envs" using applied(4) assms(3) by (simp add: body_ok_def)
  note ops = prepared_all_ok[OF applied(6) envs]
  have ap: "st_apply S source collection (map fst ps) s = (ar, s')" using applied(7) assms(2) by simp
  have names: "source_ok source" "collection_ok collection"
    using authenticated_ok[OF assms(2) applied(1)] collection_name_new_ok[OF applied(2)] by auto
  note w = apply_writes[OF assms(1) names ops(1) ap]
  have "contents s' = contents s" if "\<not> is_ok r"
    using that applied(8) ap apply_failed by (cases ar) auto
  with w ops applied(1-3) show ?thesis by blast
qed

lemma delete_effect:
  assumes "inv s" "is_store a = S" "delete_record E a auth ct it seen s = (r, s')"
  shows "inv s' \<and> later s s' \<and>
    (s' = s \<or> (\<exists>source collection i. authenticated E a auth seen = Inr source \<and>
       collection_name_new ct = Inr collection \<and> schema_set_contains (is_schemas a) collection \<and>
       record_id_new it = Inr i \<and>
       only_writes keeps source collection {OpDelete i} (contents s) (contents s') \<and>
       (is_ok r \<longrightarrow> (\<forall>x \<in> contents s'. sr_key x = record_key_new source collection i \<longrightarrow> is_deleted x)))) \<and>
    (\<not> is_ok r \<longrightarrow> contents s' = contents s)"
  using assms(3)
proof (cases rule: delete_cases)
  case (refused e)
  with assms(1) later_refl show ?thesis by simp
next
  case (applied source collection i dr)
  let ?key = "record_key_new source collection i"
  have dl: "st_delete S ?key s = (dr, s')" using applied(5) assms(2) by simp
  have key: "record_key_ok ?key"
    using authenticated_ok[OF assms(2) applied(1)] collection_name_new_ok[OF applied(2)] record_id_new_ok[OF applied(4)]
    by (simp add: record_key_ok_new)
  have "is_deleted x" if "is_ok r" "x \<in> contents s'" "sr_key x = ?key" for x
    using that applied(6) dl delete_done[OF assms(1) key] by (auto simp: is_ok_iff)
  moreover have "contents s' = contents s" if "\<not> is_ok r"
    using that applied(6) dl delete_failed[OF assms(1) key] by (cases dr) auto
  ultimately show ?thesis
    using delete_writes[OF assms(1) key dl] applied(1-4) by (auto simp: record_key_new_def)
qed

end

section \<open>The states of the service\<close>

text \<open>One request that writes, or a credential issued from the command line.\<close>

inductive service_step :: "env \<Rightarrow> 's ingest_state \<Rightarrow> 's \<Rightarrow> 's \<Rightarrow> bool" for E a where
  req_ingest: "body_ok body \<Longrightarrow> ingest E a auth ct body seen s = (r, counted, s') \<Longrightarrow> service_step E a s s'"
| req_delete: "delete_record E a auth ct it seen s = (r, s') \<Longrightarrow> service_step E a s s'"
| req_token: "source_ok source \<Longrightarrow> st_store_token (is_store a) tk source label s = (tr, s') \<Longrightarrow> service_step E a s s'"

text \<open>The payloads a response carries.\<close>

fun served_payloads :: "body \<Rightarrow> json list" where
  "served_payloads (RecordJson b) = [rb_payload b]"
| "served_payloads (PageJson p) = map rb_payload (pgb_records p)"
| "served_payloads (ChangesJson c) = map chb_payload (csb_changes c)"
| "served_payloads _ = []"

lemma get_record_Inr:
  "get_record E a st ct it inm s = Inr r \<longleftrightarrow>
     (\<exists>source collection max_age i x.
        collection_request a st ct source collection max_age \<and> record_id_new it = Inr i \<and>
        st_get (as_store a) (record_key_new source collection i) s = Inr (Some x) \<and> \<not> is_deleted x \<and>
        (let etag = quoted (hash_to_hex E (sr_hash x)) in
         if is_fresh inm etag then r = not_modified E max_age etag
         else r = cached_response 200 E max_age etag (RecordJson (record_body_of E x))))"
  by (auto simp: get_record_def collection_request_def parse_path_def declared_max_age_def find_schema_def result_simps
        Let_def split: if_splits)

lemma collection_name_new_value: "collection_name_new v = Inr c \<Longrightarrow> c = CollectionName v"
  by (auto simp: collection_name_new_def result_simps)

lemma declared_served:
  assumes "\<And>x. x \<in> X \<Longrightarrow> declared schemas x \<and> key_collection (sr_key x) = collection"
    and "schema_set_get schemas collection = Some schema" "x \<in> X"
  shows "document_conforms schema (sr_payload x)"
  using assms by (fastforce simp: declared_def)

context record_store
begin

lemma ops_declared:
  assumes "only_writes keeps source collection (set ops) C C'" "inv s" "list_all op_ok ops" "list_all (op_conforms schema) ops"
    and "schema_set_get schemas collection = Some schema" "\<And>x. x \<in> C \<Longrightarrow> declared schemas x" "x \<in> C'"
  shows "declared schemas x"
proof (rule only_writes_all[OF assms(1,6) _ assms(7)])
  fix op y assume op: "op \<in> set ops" "in_scope source collection y" "op_result keeps op y"
  have "document_conforms schema (sr_payload y)"
  proof (cases op)
    case (OpUpsert i p)
    with op(1) assms(3,4) have "json_ok p" "document_conforms schema p" by (auto simp: list_all_iff op_conforms_def)
    with op(3) OpUpsert keeps_shape[OF assms(2), of p] show ?thesis
      by (auto intro: document_conforms_same_shape)
  next
    case (OpDelete i)
    with op(3) show ?thesis by (simp add: document_conforms_def)
  qed
  with op(2) assms(5) show "declared schemas y" by (auto simp: declared_def in_scope_def)
qed

lemma service_step_inv:
  assumes "service_step E a s s'" "is_store a = S" "inv s" "\<forall>x \<in> contents s. declared (is_schemas a) x"
  shows "inv s' \<and> later s s' \<and> (\<forall>x \<in> contents s'. declared (is_schemas a) x)"
  using assms(1)
proof cases
  case (req_ingest body auth ct seen r counted)
  note e = ingest_effect[OF assms(3,2) req_ingest]
  show ?thesis
  proof (cases "s' = s")
    case False
    with e obtain source collection schema ops where w: "only_writes keeps source collection (set ops) (contents s) (contents s')"
      and ops: "list_all op_ok ops" "list_all (op_conforms schema) ops"
      and schema: "schema_set_get (is_schemas a) collection = Some schema" by blast
    with e assms(4) ops_declared[OF w assms(3) ops schema] show ?thesis by blast
  qed (use e assms(4) in blast)
next
  case (req_delete auth ct it seen r)
  note e = delete_effect[OF assms(3,2) req_delete]
  show ?thesis
  proof (cases "s' = s")
    case False
    with e obtain source collection i where w: "only_writes keeps source collection (set [OpDelete i]) (contents s) (contents s')"
      and i: "record_id_new it = Inr i" and c: "schema_set_contains (is_schemas a) collection" by auto
    from c obtain schema where schema: "schema_set_get (is_schemas a) collection = Some schema"
      by (auto simp: schema_set_contains_def)
    have ops: "list_all op_ok [OpDelete i]" "list_all (op_conforms schema) [OpDelete i]"
      using record_id_new_ok[OF i] by (simp_all add: op_conforms_def)
    from e assms(4) ops_declared[OF w assms(3) ops schema] show ?thesis by blast
  qed (use e assms(4) in blast)
next
  case (req_token source tk label tr)
  with token_writes[OF assms(3) req_token(1), of tk label tr s'] assms(2,4) show ?thesis by simp
qed

lemma service_run_inv:
  assumes "(service_step E a)\<^sup>*\<^sup>* s s'" "is_store a = S" "inv s" "\<forall>x \<in> contents s. declared (is_schemas a) x"
  shows "inv s' \<and> later s s' \<and> (\<forall>x \<in> contents s'. declared (is_schemas a) x)"
  using assms(1)
proof (induction rule: rtranclp_induct)
  case base
  then show ?case using assms(3,4) later_refl by simp
next
  case (step s1 s2)
  then show ?case using service_step_inv[OF step.hyps(2) assms(2)] later_trans by blast
qed

lemma reads_declared:
  assumes "inv s" "\<forall>x \<in> contents s. declared (as_schemas a) x" "as_store a = S"
    and "list_collection E a st ct q inm s1 s = Inr r \<or> changes E a st ct cq inm s1 s = Inr r \<or>
      get_record E a st ct it inm s = Inr r"
  shows "\<exists>schema. schema_set_get (as_schemas a) (CollectionName ct) = Some schema \<and>
    (\<forall>w \<in> set (served_payloads (rs_body r)). document_conforms schema w)"
proof -
  have d: "document_conforms schema (sr_payload x)"
    if "schema_set_get (as_schemas a) c = Some schema" "x \<in> contents s" "key_collection (sr_key x) = c" for schema c x
    using that assms(2) by (auto simp: declared_def)
  from assms(4) show ?thesis
  proof (elim disjE)
    assume "list_collection E a st ct q inm s1 s = Inr r"
    then obtain source collection max_age flt limit after m where
        req: "listing_request E a st ct q source collection max_age flt limit after"
      and r: "if is_fresh inm (listing_validator E m after limit flt)
         then r = not_modified E max_age (listing_validator E m after limit flt)
         else (\<exists>p. st_list S source collection flt after \<lparr>pb_records = limit, pb_bytes = as_response_bytes a\<rparr> s = Inr p \<and>
                r = cached_response 200 E max_age (listing_validator E m after limit flt)
                      (PageJson (page_body_new E p (position_or_zero m))))"
      unfolding list_collection_Inr assms(3) by blast
    from req obtain schema where schema: "schema_set_get (as_schemas a) collection = Some schema" "collection = CollectionName ct"
      unfolding listing_request_def by (blast dest: collection_name_new_value)
    have "document_conforms schema (sr_payload x)" if "st_list S source collection flt after b s = Inr p" "x \<in> set (pg_records p)" for b p x
      using list_sound[OF assms(1) that] d[OF schema(1)] by (simp add: in_scope_def)
    with r schema show ?thesis by (auto simp: page_body_new_def record_body_of_def split: if_splits)
  next
    assume "changes E a st ct cq inm s1 s = Inr r"
    then obtain source collection max_age b etag m since where
        req: "collection_request a st ct source collection max_age"
      and r: "r = not_modified E max_age etag \<or> (\<exists>p. st_changes S source collection since b s = Inr p \<and>
                r = cached_response 200 E max_age etag (ChangesJson (changes_body_new E p (position_or_zero m))))"
      unfolding changes_Inr assms(3) Let_def by (metis (no_types, lifting))
    from req obtain schema where schema: "schema_set_get (as_schemas a) collection = Some schema" "collection = CollectionName ct"
      unfolding collection_request_def by (blast dest: collection_name_new_value)
    have "document_conforms schema (sr_payload x)" if "st_changes S source collection since b s = Inr p" "x \<in> set (pg_records p)" for p x
      using changes_sound[OF assms(1) that] d[OF schema(1)] by (simp add: in_scope_def)
    with r schema show ?thesis by (auto simp: changes_body_new_def change_body_of_def)
  next
    assume "get_record E a st ct it inm s = Inr r"
    then obtain source collection max_age i x etag where
        req: "collection_request a st ct source collection max_age"
      and x: "st_get S (record_key_new source collection i) s = Inr (Some x)"
      and r: "r = not_modified E max_age etag \<or> r = cached_response 200 E max_age etag (RecordJson (record_body_of E x))"
      unfolding get_record_Inr assms(3) Let_def by (metis (no_types, lifting))
    from req obtain schema where schema: "schema_set_get (as_schemas a) collection = Some schema" "collection = CollectionName ct"
      unfolding collection_request_def by (blast dest: collection_name_new_value)
    have "document_conforms schema (sr_payload x)"
      using get_sound[OF assms(1) x] d[OF schema(1)] by (simp add: record_key_new_def)
    with r schema show ?thesis by (auto simp: record_body_of_def)
  qed
qed

end

end
