(* ===== verification/Public_Properties.thy ===== *)
theory Public_Properties
  imports Conditional
begin

text \<open>The public routes over the PostgreSQL store.\<close>

definition sample_api :: "db api_state" where
  "sample_api = api_state_new (postgres_store sample_env) (SchemaSet [(products, shop_schema)])"

lemma sample_api_store [simp]: "as_store sample_api = postgres_store sample_env"
  by (simp add: sample_api_def api_state_new_def)

text \<open>A 304 is right, whatever was written meanwhile: if a client repeats a listing, a feed page or a
  manifest request with the validator it was given and is answered 304, then a request without the
  validator would be answered with exactly the response the client already holds. Writes may have
  happened between the two store queries of the first request and between the two requests.\<close>

theorem not_modified_is_right:
  assumes "env_ok E" and "db_ok E d1" and "db_steps (row_ok E) d1 d2" and "db_steps (row_ok E) d2 d3"
    and "as_store a = postgres_store E" and "rs_status r = 200" and "rs_status r' = 304"
  shows "(list_collection E a st ct q inm d1 d2 = Inr r \<longrightarrow> list_collection E a st ct q (rs_etag r) d3 d4 = Inr r' \<longrightarrow>
       list_collection E a st ct q None d3 d3 = Inr r) \<and>
    (changes E a st ct cq inm d1 d2 = Inr r \<longrightarrow> changes E a st ct cq (rs_etag r) d3 d4 = Inr r' \<longrightarrow>
       changes E a st ct cq None d3 d3 = Inr r) \<and>
    (manifest_route E a st ct inm d1 d2 = Inr r \<longrightarrow> manifest_route E a st ct (rs_etag r) d3 d4 = Inr r' \<longrightarrow>
       manifest_route E a st ct None d3 d3 = Inr r)"
proof -
  have "pg_inv E d1" using assms(1,2) by (simp add: pg_inv_def)
  with assms(3,4) have "request_chain (\<lambda>source collection s1 s2 s3. pg_inv E s1 \<and> db_steps (row_ok E) s1 s2 \<and> db_steps (row_ok E) s2 s3) st ct d1 d2 d3"
    by (simp add: request_chain_def)
  note chain = assms(1,5) this
  show ?thesis
    using pg.cached.list_304[OF chain] pg.cached.changes_304[OF chain] pg.cached.manifest_304[OF chain] assms(6,7) by blast
qed

lemma not_modified_is_right_witness:
  "\<exists>r r'. changes sample_env sample_api (lit ''erp'') (lit ''products'') (Inr \<lparr>cq_since = None, cq_limit = None\<rparr>) (rs_etag r)
       sample_db sample_db = Inr r' \<and> rs_status r' = 304 \<and>
     changes sample_env sample_api (lit ''erp'') (lit ''products'') (Inr \<lparr>cq_since = None, cq_limit = None\<rparr>) None
       sample_db sample_db = Inr r"
proof -
  let ?ask = "\<lambda>inm. changes sample_env sample_api (lit ''erp'') (lit ''products'')
    (Inr \<lparr>cq_since = None, cq_limit = None\<rparr>) inm sample_db sample_db"
  have "(case ?ask None of Inl _ \<Rightarrow> False
       | Inr r \<Rightarrow> rs_status r = 200 \<and> (case ?ask (rs_etag r) of Inl _ \<Rightarrow> False | Inr r' \<Rightarrow> rs_status r' = 304))"
    by code_simp
  then obtain r r' where r: "?ask None = Inr r" "rs_status r = 200" "?ask (rs_etag r) = Inr r'" "rs_status r' = 304"
    by (auto split: sum.splits)
  with not_modified_is_right[OF sample_env_ok sample_db_ok rtranclp.rtrancl_refl rtranclp.rtrancl_refl sample_api_store r(2,4)]
  show ?thesis by blast
qed

end
