(* ===== verification/Service_Properties.thy ===== *)
theory Service_Properties
  imports Service Public_Properties
begin

text \<open>The whole service over the PostgreSQL store: what its reachable states hold and serve, who may write
  what, and what a sender is told.\<close>

section \<open>A deployment for the witnesses\<close>

definition sample_ingest :: "db ingest_state" where
  "sample_ingest = with_limits 200 4000
     (ingest_state_new (postgres_store sample_env) (SchemaSet [(products, shop_schema)]) [1, 2, 3])"

definition sample_auth :: "rstr option" where "sample_auth = Some (lit ''Bearer hyd_1'')"

definition sample_credential :: tokenhash where
  "sample_credential = TokenHash (sample_digest ([1, 2, 3] @ utf8_bytes (lit ''hyd_1'')))"

definition shop_db :: db where
  "shop_db = snd (pg_store_token sample_credential erp (lit ''outbox'') (empty_db 7))"

definition shop_envelopes :: "envelope list" where
  "shop_envelopes =
     [\<lparr>ev_op = Upsert, ev_id = None, ev_payload = Some shop_payload\<rparr>,
      \<lparr>ev_op = Delete, ev_id = Some (RecordId (lit ''gone'')), ev_payload = None\<rparr>]"

definition shop_after :: db where
  "shop_after = snd (snd (ingest sample_env sample_ingest sample_auth (lit ''products'') (Inr shop_envelopes) shop_db shop_db))"

lemma sample_ingest_simps [simp]: "is_store sample_ingest = postgres_store sample_env"
  "is_schemas sample_ingest = as_schemas sample_api"
  by (simp_all add: sample_ingest_def ingest_state_new_def with_limits_def sample_api_def api_state_new_def)

lemma shop_ingest: "is_ok (fst (ingest sample_env sample_ingest sample_auth (lit ''products'') (Inr shop_envelopes) shop_db shop_db))"
  by code_simp

lemma shop_ingested:
  obtains resp counted where
    "ingest sample_env sample_ingest sample_auth (lit ''products'') (Inr shop_envelopes) shop_db shop_db = (Inr resp, counted, shop_after)"
  using shop_ingest unfolding shop_after_def
  by (cases "ingest sample_env sample_ingest sample_auth (lit ''products'') (Inr shop_envelopes) shop_db shop_db")
     (auto simp: is_ok_iff)

lemma shop_envelopes_ok: "body_ok (Inr shop_envelopes)"
  using shop_payload_ok by (simp add: body_ok_def shop_envelopes_def envelope_ok_def) (simp add: ident_eval)

section \<open>Reachable states\<close>

text \<open>A deployment starts on an empty database; requests, credentials and time move it on.\<close>

inductive deployed :: "env \<Rightarrow> db ingest_state \<Rightarrow> db \<Rightarrow> bool" for E a where
  deployed_empty: "deployed E a (empty_db t)"
| deployed_request: "deployed E a d \<Longrightarrow> service_step E a d d' \<Longrightarrow> deployed E a d'"
| deployed_clock: "deployed E a d \<Longrightarrow> deployed E a (d\<lparr>db_now := t\<rparr>)"

lemma deployed_inv:
  assumes "deployed E a d" "env_ok E" "is_store a = postgres_store E"
  shows "pg_inv E d \<and> (\<forall>x \<in> db_contents d. declared (is_schemas a) x)"
  using assms(1)
proof (induction rule: deployed.induct)
  case (deployed_empty t)
  then show ?case using assms(2) by (simp add: pg_inv_def db_contents_def empty_db_def [of t] db_ok_def BIGINT_MAX_def)
next
  case (deployed_request d d')
  then show ?case using pg.service_step_inv[OF deployed_request.hyps(2) assms(3)] by blast
next
  case (deployed_clock d t)
  then show ?case by (auto simp: pg_inv_def db_contents_def db_ok_def)
qed

lemma shop_db_deployed: "deployed sample_env sample_ingest shop_db"
proof -
  obtain r where "pg_store_token sample_credential erp (lit ''outbox'') (empty_db 7) = (r, shop_db)"
    by (metis prod.collapse shop_db_def)
  then have "service_step sample_env sample_ingest (empty_db 7) shop_db"
    by (intro req_token[of erp]) simp_all
  then show ?thesis by (rule deployed_request[OF deployed_empty])
qed

lemma shop_after_deployed: "deployed sample_env sample_ingest shop_after"
proof -
  obtain resp counted where "ingest sample_env sample_ingest sample_auth (lit ''products'') (Inr shop_envelopes) shop_db shop_db =
      (Inr resp, counted, shop_after)"
    by (rule shop_ingested)
  from deployed_request[OF shop_db_deployed req_ingest[OF shop_envelopes_ok this]] show ?thesis .
qed

section \<open>What is served\<close>

text \<open>The public surface cannot leak: in every state a deployment reaches, whatever was sent to it and
  by whom, a listing, a feed page and an item carry only payloads of a declared collection that conform
  to its schema, so a field no schema releases is never served.\<close>

theorem public_serves_declared_fields:
  assumes "env_ok E" and "is_store a = postgres_store E" and "deployed E a d"
    and "as_store pub = postgres_store E" and "as_schemas pub = is_schemas a"
    and "list_collection E pub st ct q inm d0 d = Inr r \<or> changes E pub st ct cq inm d0 d = Inr r \<or>
      get_record E pub st ct it inm d = Inr r"
  shows "\<exists>schema. schema_set_get (as_schemas pub) (CollectionName ct) = Some schema \<and>
    (\<forall>w \<in> set (served_payloads (rs_body r)). document_conforms schema w)"
  using pg.reads_declared[of E d pub E st ct q inm d0 r cq it] deployed_inv[OF assms(3,1,2)] assms(4-6) by auto

lemma public_serves_declared_fields_witness:
  "\<exists>r. get_record sample_env sample_api (lit ''erp'') (lit ''products'') (lit ''SW1'') None shop_after = Inr r \<and>
     served_payloads (rs_body r) = [shop_released] \<and> document_conforms shop_schema shop_released"
proof -
  have "(case get_record sample_env sample_api (lit ''erp'') (lit ''products'') (lit ''SW1'') None shop_after of
      Inl _ \<Rightarrow> False | Inr r \<Rightarrow> served_payloads (rs_body r) = [shop_released])"
    by code_simp
  then obtain r where r: "get_record sample_env sample_api (lit ''erp'') (lit ''products'') (lit ''SW1'') None shop_after = Inr r"
      "served_payloads (rs_body r) = [shop_released]"
    by (auto split: sum.splits)
  have schema: "schema_set_get (as_schemas sample_api) (CollectionName (lit ''products'')) = Some shop_schema"
    by (simp add: sample_api_def api_state_new_def schema_set_get_def bt_get_def products_def)
  have "\<exists>schema. schema_set_get (as_schemas sample_api) (CollectionName (lit ''products'')) = Some schema \<and>
      (\<forall>w \<in> set (served_payloads (rs_body r)). document_conforms schema w)"
    by (rule public_serves_declared_fields[OF sample_env_ok _ shop_after_deployed _ _ disjI2[OF disjI2[OF r(1)]]]) simp_all
  with r schema show ?thesis by simp
qed

section \<open>Who may write what\<close>



lemma request_scope:
  assumes "env_ok E" and "db_ok E d" and "is_store a = postgres_store E" and "body_ok body"
    and "ingest E a auth ct body seen d = (r, counted, d') \<or> delete_record E a auth ct it seen d = (r, d')"
  shows "(is_ok r \<or> db_contents d' = db_contents d) \<and>
    (db_contents d' = db_contents d \<or>
      (\<exists>source collection. authenticated E a auth seen = Inr source \<and> collection_name_new ct = Inr collection \<and>
        schema_set_contains (is_schemas a) collection \<and>
        {x \<in> db_contents d'. \<not> in_scope source collection x} = {x \<in> db_contents d. \<not> in_scope source collection x}))"
proof -
  have inv: "pg_inv E d" using assms(1,2) by (simp add: pg_inv_def)
  have scope: "{x \<in> C'. \<not> in_scope source collection x} = {x \<in> C. \<not> in_scope source collection x}"
    if "only_writes k source collection ops C C'" for k source collection ops C C'
    using that by (auto simp: only_writes_def)
  from assms(5) show ?thesis
  proof
    assume run: "ingest E a auth ct body seen d = (r, counted, d')"
    note e = pg.ingest_effect[OF inv assms(3,4) run]
    show ?thesis
    proof (cases "d' = d")
      case False
      with e obtain source collection schema ops where
          "authenticated E a auth seen = Inr source" "collection_name_new ct = Inr collection"
          "schema_set_get (is_schemas a) collection = Some schema"
          "only_writes (\<lambda>p w. e_jsonb E p = Some w) source collection (set ops) (db_contents d) (db_contents d')"
        by blast
      then have "\<exists>source collection. authenticated E a auth seen = Inr source \<and> collection_name_new ct = Inr collection \<and>
        schema_set_contains (is_schemas a) collection \<and>
        {x \<in> db_contents d'. \<not> in_scope source collection x} = {x \<in> db_contents d. \<not> in_scope source collection x}"
        using scope by (auto simp: schema_set_contains_def)
      with e show ?thesis by blast
    qed (use e in blast)
  next
    assume run: "delete_record E a auth ct it seen d = (r, d')"
    note e = pg.delete_effect[OF inv assms(3) run]
    show ?thesis
    proof (cases "d' = d")
      case False
      with e obtain source collection i where
          "authenticated E a auth seen = Inr source" "collection_name_new ct = Inr collection"
          "schema_set_contains (is_schemas a) collection"
          "only_writes (\<lambda>p w. e_jsonb E p = Some w) source collection {OpDelete i} (db_contents d) (db_contents d')"
        by blast
      then have "\<exists>source collection. authenticated E a auth seen = Inr source \<and> collection_name_new ct = Inr collection \<and>
        schema_set_contains (is_schemas a) collection \<and>
        {x \<in> db_contents d'. \<not> in_scope source collection x} = {x \<in> db_contents d. \<not> in_scope source collection x}"
        using scope by blast
      with e show ?thesis by blast
    qed (use e in blast)
  qed
qed

text \<open>No sender can touch another's records: an ingest or delete request changes only records of the
  source its credential names and of the declared collection in its path, and a request that is
  answered with an error changes no record at all.\<close>

theorem writes_stay_in_scope:
  assumes "env_ok E" and "db_ok E d" and "is_store a = postgres_store E" and "body_ok body"
    and "ingest E a auth ct body seen d = (r, counted, d') \<or> delete_record E a auth ct it seen d = (r, d')"
  shows "(is_ok r \<or> db_contents d' = db_contents d) \<and>
    (db_contents d' = db_contents d \<or>
      (\<exists>source collection. authenticated E a auth seen = Inr source \<and> collection_name_new ct = Inr collection \<and>
        schema_set_contains (is_schemas a) collection \<and>
        {x \<in> db_contents d'. \<not> in_scope source collection x} = {x \<in> db_contents d. \<not> in_scope source collection x}))"
  by (rule request_scope[OF assms])

lemma writes_stay_in_scope_witness:
  "\<exists>r counted d'. ingest sample_env sample_ingest None (lit ''products'') (Inr shop_envelopes) sample_db sample_db = (r, counted, d') \<and>
     db_contents d' = db_contents sample_db"
proof -
  obtain r counted d' where run: "ingest sample_env sample_ingest None (lit ''products'') (Inr shop_envelopes) sample_db sample_db =
      (r, counted, d')"
    by (metis prod_cases3)
  have none: "authenticated sample_env sample_ingest None sample_db = Inl Unauthorized" by (simp add: authenticated_def)
  from writes_stay_in_scope[OF sample_env_ok sample_db_ok sample_ingest_simps(1) shop_envelopes_ok disjI1[OF run]] none run
  show ?thesis by auto
qed

end
