(* ===== verification/Request_Properties.thy ===== *)
theory Request_Properties
  imports Service_Properties
begin

text \<open>What a sender and a reader are told: the results of a batch, the item route and deletion.\<close>

section \<open>The results of a batch\<close>

lemma zip_results_nth:
  assumes "length outs = length ops" "length drops = length ops" "k < length ops"
  shows "length (zip_results ops outs drops) = length ops"
    "zip_results ops outs drops ! k = result_of (ops ! k) (outs ! k) (drops ! k)"
  using assms by (simp_all add: zip_results_def)

definition envelope_id :: "collection_schema \<Rightarrow> envelope \<Rightarrow> record_id \<Rightarrow> bool" where
  "envelope_id schema ev i \<longleftrightarrow>
     (case ev_id ev of
        Some j \<Rightarrow> i = j
      | None \<Rightarrow> (\<exists>p. ev_payload ev = Some p \<and> id_path_extract (cs_id schema) p = Inr i))"

text \<open>A result that is true to the envelope it answers.\<close>

definition result_for :: "collection_schema \<Rightarrow> envelope \<Rightarrow> operation_result \<Rightarrow> bool" where
  "result_for schema ev res \<longleftrightarrow>
     or_op res = ev_op ev \<and> (\<exists>i. envelope_id schema ev i \<and> or_id res = id_str i) \<and>
     (or_seq res = None \<longleftrightarrow> or_outcome res = ''unchanged'') \<and>
     (case ev_op ev of
        Upsert \<Rightarrow> (\<exists>p. ev_payload ev = Some p \<and> (or_dropped res = [] \<longleftrightarrow> document_conforms schema p))
      | Delete \<Rightarrow> or_dropped res = [])"

lemma prepared_result:
  assumes "fst (prepare E schema ev mx) = Inr (op, dropped)" "envelope_ok ev"
  shows "result_for schema ev (result_of op outcome dropped)"
  using assms(1)
proof (cases rule: prepare_Inr)
  case (upsert payload i pj c)
  then have "json_ok payload" using assms(2) by (simp add: envelope_ok_def)
  then have "report (SObject (cs_fields schema)) payload [] = pj_dropped pj"
    using upsert(4) by (rule project_released(2))
  then have "pj_dropped pj = [] \<longleftrightarrow> document_conforms schema payload"
    using report_Nil[of "SObject (cs_fields schema)" payload "[]"] by (simp only: document_conforms_def)
  then show ?thesis using upsert
    by (cases outcome) (auto simp: result_for_def result_of_def envelope_id_def split: option.splits)
next
  case (delete i)
  then show ?thesis by (cases outcome) (auto simp: result_for_def result_of_def envelope_id_def)
qed



text \<open>C29: What ingest hands to the store is already what the schema releases: the operation prepared from
  an envelope addresses a valid id, its document conforms to the schema and its canonical form is within
  the payload limit, whatever the sender padded the record with.\<close>

theorem prepared_operations_are_projected:
  assumes "envelope_ok ev" and "fst (prepare E schema ev limit) = Inr (op, dropped)"
  shows "op_ok op \<and> envelope_id schema ev (op_id op) \<and>
    (\<forall>i w. op = OpUpsert i w \<longrightarrow> document_conforms schema w \<and>
       (\<exists>p c. ev_payload ev = Some p \<and> part_of w p \<and> canonicalize E w = Inr c \<and> int (length c) \<le> uint limit))"
  using assms(2)
proof (cases rule: prepare_Inr)
  case (upsert payload i pj c)
  then have "json_ok payload" using assms(1) by (simp add: envelope_ok_def)
  then have "part_of (pj_payload pj) payload"
    using upsert(4) project_released(1) released_part_of by blast
  with prepared_ok[OF assms(2,1)] upsert show ?thesis
    by (auto simp: op_conforms_def envelope_id_def split: option.splits)
next
  case (delete i)
  with prepared_ok[OF assms(2,1)] show ?thesis by (simp add: envelope_id_def)
qed

lemma prepared_operations_are_projected_witness:
  "\<exists>w. fst (prepare sample_env shop_schema (hd shop_envelopes) 200) = Inr (OpUpsert (RecordId (lit ''SW1'')) w, map dropped_body_of shop_dropped) \<and>
     part_of w shop_payload \<and> document_conforms shop_schema w"
proof -
  have run: "fst (prepare sample_env shop_schema (hd shop_envelopes) 200) =
      Inr (OpUpsert (RecordId (lit ''SW1'')) shop_released, map dropped_body_of shop_dropped)"
    by code_simp
  have "envelope_ok (hd shop_envelopes)" using shop_payload_ok by (simp add: shop_envelopes_def envelope_ok_def)
  from prepared_operations_are_projected[OF this run] run show ?thesis
    by (auto simp: shop_envelopes_def)
qed

section \<open>The item route\<close>

lemma pg_get_key:
  assumes "env_ok E" "db_ok E d"
  shows "pg_get key d = Inr (Some x) \<longleftrightarrow> x \<in> db_contents d \<and> sr_key x = key"
    and "pg_get key d = Inr None \<longleftrightarrow> (\<forall>x \<in> db_contents d. sr_key x \<noteq> key)"
proof -
  have at: "sr_key (record_of r) = key \<longleftrightarrow> row_at key r" for r
    by (cases key) (auto simp: record_of_def record_key_new_def row_at_def record_key.defs)
  show "pg_get key d = Inr (Some x) \<longleftrightarrow> x \<in> db_contents d \<and> sr_key x = key"
    using pg.get_sound[of E d key x] pg.get_complete[of E d x] assms by (auto simp: pg_inv_def)
  show "pg_get key d = Inr None \<longleftrightarrow> (\<forall>x \<in> db_contents d. sr_key x \<noteq> key)"
    unfolding pg_get_row[OF assms(2)] using at
    by (auto simp: db_contents_def find_None_iff split: option.splits dest: find_SomeD)
qed

text \<open>C30: The item route serves what is public now: for a served collection and a valid id it answers with
  the record exactly when there is a live one, or 304 when the client holds its validator; a deleted
  record and an absent one are the same 404.\<close>

theorem item_is_live_record:
  assumes "env_ok E" and "db_ok E d" and "as_store a = postgres_store E"
    and "collection_request a st ct source collection max_age" and "record_id_new it = Inr i"
  shows "(get_record E a st ct it inm d = Inl NotFound \<and>
      (\<forall>x \<in> db_contents d. sr_key x = record_key_new source collection i \<longrightarrow> is_deleted x)) \<or>
    (\<exists>x \<in> db_contents d. sr_key x = record_key_new source collection i \<and> \<not> is_deleted x \<and>
      get_record E a st ct it inm d = Inr
        (if is_fresh inm (quoted (hash_to_hex E (sr_hash x)))
         then not_modified E max_age (quoted (hash_to_hex E (sr_hash x)))
         else cached_response 200 E max_age (quoted (hash_to_hex E (sr_hash x))) (RecordJson (record_body_of E x))))"
proof -
  let ?k = "record_key_new source collection i"
  from assms(4) have req: "source_name_new st = Inr source" "collection_name_new ct = Inr collection"
      "declared_max_age a collection = Inr max_age"
    by (auto simp: collection_request_def declared_max_age_def find_schema_def)
  have run: "get_record E a st ct it inm d =
      ok_then (map_err Internal (pg_get ?k d)) (\<lambda>found. ok_then (ok_or NotFound found)
       (\<lambda>r. if is_deleted r then Inl NotFound
            else let etag = quoted (hash_to_hex E (sr_hash r))
                 in if is_fresh inm etag then Inr (not_modified E max_age etag)
                    else Inr (cached_response 200 E max_age etag (RecordJson (record_body_of E r)))))"
    by (simp add: get_record_def parse_path_def req assms(3,5))
  obtain found where f: "pg_get ?k d = Inr found" using pg_get_row[OF assms(2)] by blast
  show ?thesis
  proof (cases found)
    case None
    then have none: "pg_get ?k d = Inr None" using f by simp
    then have "\<forall>x \<in> db_contents d. sr_key x \<noteq> ?k" unfolding pg_get_key(2)[OF assms(1,2)] .
    moreover have "get_record E a st ct it inm d = Inl NotFound" by (simp add: run none)
    ultimately show ?thesis by blast
  next
    case (Some x)
    with f have x: "x \<in> db_contents d" "sr_key x = ?k" using pg_get_key(1)[OF assms(1,2)] by auto
    have only: "y = x" if "y \<in> db_contents d" "sr_key y = ?k" for y
      using that f Some pg_get_key(1)[OF assms(1,2), of ?k y] by simp
    show ?thesis
    proof (cases "is_deleted x")
      case True
      with f Some run only show ?thesis by auto
    next
      case False
      with f Some run x show ?thesis by (auto simp: Let_def)
    qed
  qed
qed

lemma item_is_live_record_witness:
  "get_record sample_env sample_api (lit ''erp'') (lit ''products'') (lit ''X'') None sample_db = Inl NotFound"
proof -
  have req: "collection_request sample_api (lit ''erp'') (lit ''products'') erp products 300"
    by (simp add: collection_request_def sample_api_def api_state_new_def schema_set_get_def bt_get_def erp_def products_def
        shop_schema_def cache_spec_default_def DEFAULT_SHARED_MAX_AGE_def ident_eval)
  have i: "record_id_new (lit ''X'') = Inr (RecordId (lit ''X''))" by (simp add: ident_eval)
  have "\<forall>x \<in> db_contents sample_db. sr_key x \<noteq> record_key_new erp products (RecordId (lit ''X''))"
    by (simp add: db_contents_def sample_db_def sample_row_def proposed_row_def record_of_def record_key_new_def)
  with item_is_live_record[OF sample_env_ok sample_db_ok sample_api_store req i] show ?thesis by blast
qed

section \<open>Deletion\<close>

text \<open>C17: A deleted record is gone at once: after a delete is answered 200, the item route answers 404
  under its address and no listing of the collection contains it.\<close>

theorem deleted_record_is_gone:
  assumes "env_ok E" and "db_ok E d" and "is_store a = postgres_store E" and "as_store pub = postgres_store E"
    and "as_schemas pub = is_schemas a" and "delete_record E a auth ct it seen d = (Inr ok, d')"
  shows "\<exists>source. authenticated E a auth seen = Inr source \<and>
    get_record E pub (source_str source) ct it inm d' = Inl NotFound \<and>
    (\<forall>q d0 r p. list_collection E pub (source_str source) ct q inm d0 d' = Inr r \<longrightarrow> rs_body r = PageJson p \<longrightarrow>
       it \<notin> rb_id ` set (pgb_records p))"
proof -
  have inv: "pg_inv E d" using assms(1,2) by (simp add: pg_inv_def)
  note e = pg.delete_effect[OF inv assms(3,6)]
  from assms(6) obtain source collection i dr where src: "authenticated E a auth seen = Inr source"
    and c: "collection_name_new ct = Inr collection" and sc: "schema_set_contains (is_schemas a) collection"
    and i: "record_id_new it = Inr i"
    and dl: "pg_delete (record_key_new source collection i) d = (dr, d')" "is_ok dr"
    using assms(3) by (cases rule: delete_cases) auto
  let ?k = "record_key_new source collection i"
  have sok: "source_ok source" by (rule pg.authenticated_ok[OF assms(3) src])
  then have st: "source_name_new (source_str source) = Inr source" by (simp add: source_ok_def)
  have key: "record_key_ok ?k"
    using sok collection_name_new_ok[OF c] record_id_new_ok[OF i] by (simp add: record_key_ok_new)
  have gone: "is_deleted x" if "x \<in> db_contents d'" "sr_key x = ?k" for x
    using dl(2) pg_delete_done[OF assms(1,2) key] dl(1) that by (auto simp: is_ok_iff)
  have ok': "db_ok E d'" using e by (simp add: pg_inv_def)
  from sc obtain schema where schema: "schema_set_get (is_schemas a) collection = Some schema"
    by (auto simp: schema_set_contains_def)
  have req: "collection_request pub (source_str source) ct source collection (shared_max_age (cs_cache schema))"
    using st c schema assms(5) by (simp add: collection_request_def)
  have "get_record E pub (source_str source) ct it inm d' = Inl NotFound"
    using item_is_live_record[OF assms(1) ok' assms(4) req i, of inm] gone by blast
  moreover have "it \<notin> rb_id ` set (pgb_records p)"
    if run: "list_collection E pub (source_str source) ct q inm d0 d' = Inr r" and p: "rs_body r = PageJson p" for q d0 r p
  proof
    assume "it \<in> rb_id ` set (pgb_records p)"
    with run p st c obtain flt after b pg x where l: "pg_list E source collection flt after b d' = Inr pg" "x \<in> set (pg_records pg)"
      and x: "it = id_str (key_id (sr_key x))"
      unfolding list_collection_Inr listing_request_def assms(4)
      by (auto simp: page_body_new_def record_body_of_def split: if_splits)
    have "i = key_id (sr_key x)" using i x by (auto simp: record_id_new_def result_simps)
    with pg_list_records[OF ok' l] have "x \<in> db_contents d'" "sr_key x = ?k" "\<not> is_deleted x"
      by (auto simp: in_scope_def record_key_new_def)
    with gone show False by blast
  qed
  ultimately show ?thesis using src by blast
qed

lemma deleted_record_is_gone_witness:
  "\<exists>d'. snd (delete_record sample_env sample_ingest sample_auth (lit ''products'') (lit ''SW1'') shop_after shop_after) = d' \<and>
     get_record sample_env sample_api (source_str erp) (lit ''products'') (lit ''SW1'') None d' = Inl NotFound"
proof -
  have "is_ok (fst (delete_record sample_env sample_ingest sample_auth (lit ''products'') (lit ''SW1'') shop_after shop_after))"
    by code_simp
  then obtain ok d' where run: "delete_record sample_env sample_ingest sample_auth (lit ''products'') (lit ''SW1'') shop_after shop_after =
      (Inr ok, d')"
    by (metis is_ok_iff prod.collapse)
  have db: "db_ok sample_env shop_after"
    using deployed_inv[OF shop_after_deployed sample_env_ok sample_ingest_simps(1)] by (simp add: pg_inv_def)
  have "authenticated sample_env sample_ingest sample_auth shop_after = Inr erp" by code_simp
  with deleted_record_is_gone[OF sample_env_ok db sample_ingest_simps(1) sample_api_store _ run] run show ?thesis by auto
qed

end
