(* ===== verification/Item_Cache.thy ===== *)
theory Item_Cache
  imports Request_Properties
begin

text \<open>
  Conditional requests for one record. Its validator is its content hash, so a 304 answers for the
  content; the position and the time in the body are not part of it.
\<close>

lemma hex_quoted:
  assumes "env_ok E"
  shows "rs_etag (cached_response status E max_age (quoted (hash_to_hex E h)) b) = Some (quoted (hash_to_hex E h))"
    and "is_fresh (rs_etag (cached_response status E max_age (quoted (hash_to_hex E h)) b)) (quoted y) \<longleftrightarrow> hash_to_hex E h = y"
proof -
  have "c \<noteq> 44 \<and> 32 \<le> c \<and> c \<le> 126" if "c \<in> set (hash_to_hex E h)" for c
    using hash_envD(9)[OF env_okD(1)[OF assms], of "hash_bytes h"] that by (auto simp: hash_to_hex_def list_all_iff)
  note hex = quoted_header[OF env_okD(4)[OF assms] this]
  show "rs_etag (cached_response status E max_age (quoted (hash_to_hex E h)) b) = Some (quoted (hash_to_hex E h))"
    using hex(1) by blast
  show "is_fresh (rs_etag (cached_response status E max_age (quoted (hash_to_hex E h)) b)) (quoted y) \<longleftrightarrow> hash_to_hex E h = y"
    using hex(2) by blast
qed

text \<open>C31: Whatever was written in between, repeating an item request with the validator it was answered with
  is answered 304 exactly if the record is there with the content hash the client holds; otherwise the
  new content comes with a new hash.\<close>

theorem item_not_modified_same_content:
  assumes "env_ok E"
    and "get_record E a st ct it inm d = Inr full" and "rs_status full = 200"
    and "get_record E a st ct it (rs_etag full) d' = Inr r"
  shows "\<exists>body now. rs_body full = RecordJson body \<and> get_record E a st ct it None d' = Inr now \<and>
    (\<exists>body'. rs_body now = RecordJson body' \<and>
      (if rb_content_hash body' = rb_content_hash body then rs_status r = 304 else r = now))"
proof -
  from assms(2,3) obtain source collection max_age i x where
      x: "collection_request a st ct source collection max_age" "record_id_new it = Inr i" "\<not> is_deleted x"
        "full = cached_response 200 E max_age (quoted (hash_to_hex E (sr_hash x))) (RecordJson (record_body_of E x))"
    by (auto simp: get_record_Inr Let_def split: if_splits)
  from assms(4) x(1,2) obtain y where
      y: "st_get (as_store a) (record_key_new source collection i) d' = Inr (Some y)" "\<not> is_deleted y"
        "r = (if is_fresh (rs_etag full) (quoted (hash_to_hex E (sr_hash y)))
              then not_modified E max_age (quoted (hash_to_hex E (sr_hash y)))
              else cached_response 200 E max_age (quoted (hash_to_hex E (sr_hash y))) (RecordJson (record_body_of E y)))"
    by (auto simp: get_record_Inr collection_request_def Let_def split: if_splits)
  let ?now = "cached_response 200 E max_age (quoted (hash_to_hex E (sr_hash y))) (RecordJson (record_body_of E y))"
  have "get_record E a st ct it None d' = Inr ?now"
    using x(1,2) y(1,2) by (auto simp: get_record_Inr Let_def)
  moreover have "is_fresh (rs_etag full) (quoted (hash_to_hex E (sr_hash y))) \<longleftrightarrow>
      hash_to_hex E (sr_hash x) = hash_to_hex E (sr_hash y)"
    unfolding x(4) by (rule hex_quoted(2)[OF assms(1)])
  moreover have "rs_body full = RecordJson (record_body_of E x)" "rs_body ?now = RecordJson (record_body_of E y)"
    by (simp_all add: x(4))
  ultimately show ?thesis using y(3) by (auto simp: record_body_of_def)
qed

section \<open>A record that changes and changes back\<close>

definition item_key :: record_key where
  "item_key = record_key_new erp products (RecordId (lit ''A''))"

text \<open>The item of \<open>sample_db\<close> after it was overwritten and then written again as it was.\<close>

definition written_back :: db where
  "written_back = snd (pg_upsert sample_env item_key (item ''A'') (snd (pg_upsert sample_env item_key (item ''Z'') sample_db)))"

definition ask_item :: "rstr option \<Rightarrow> db \<Rightarrow> response" where
  "ask_item inm d = respond (get_record sample_env sample_api (lit ''erp'') (lit ''products'') (lit ''A'') inm d)"

definition body_position :: "response \<Rightarrow> 64 word option" where
  "body_position r = (case rs_body r of RecordJson b \<Rightarrow> Some (rb_seq b) | _ \<Rightarrow> None)"

text \<open>The client holds the record at position 1, is answered 304, and would have been given position 6.\<close>

lemma item_validator_ignores_position:
  "body_position (ask_item None sample_db) = Some 1 \<and>
   rs_status (ask_item (rs_etag (ask_item None sample_db)) written_back) = 304 \<and>
   body_position (ask_item None written_back) = Some 6"
  by code_simp

lemma item_not_modified_same_content_witness:
  "\<exists>full now. get_record sample_env sample_api (lit ''erp'') (lit ''products'') (lit ''A'') None sample_db = Inr full \<and>
     get_record sample_env sample_api (lit ''erp'') (lit ''products'') (lit ''A'') None written_back = Inr now \<and>
     rs_body now \<noteq> rs_body full \<and> rs_status (ask_item (rs_etag full) written_back) = 304"
proof -
  let ?get = "get_record sample_env sample_api (lit ''erp'') (lit ''products'') (lit ''A'')"
  have ok: "is_ok (?get None sample_db)" "rs_status (ask_item None sample_db) = 200"
    "is_ok (?get (rs_etag (ask_item None sample_db)) written_back)" by code_simp+
  then obtain full r where full: "?get None sample_db = Inr full" "rs_status full = 200"
      and r: "?get (rs_etag full) written_back = Inr r"
    by (auto simp: is_ok_iff ask_item_def respond_def)
  from item_not_modified_same_content[OF sample_env_ok full r] obtain now where
      now: "?get None written_back = Inr now" by blast
  show ?thesis
    using item_validator_ignores_position full r now
    by (intro exI[of _ full] exI[of _ now]) (auto simp: ask_item_def respond_def body_position_def)
qed

end
