(* ===== verification/Transactions.thy ===== *)
theory Transactions
  imports Store_Contract
begin

text \<open>
  Several senders at once. \<open>PostgresStore::apply\<close> runs its batch in a transaction, statement by
  statement; between two statements others read, write and commit. A statement sees what is committed
  and what its own transaction wrote; it takes its feed position from the shared sequence at once, but
  its row is seen by others only after the commit. A row written by an open transaction is locked: a
  statement that would write it waits, which here means that it is not among the next steps.
\<close>

section \<open>A transaction and what it sees\<close>

text \<open>The operations still to come with their hashes, those carried out and their outcomes, the rows written
  and the locks held. \<open>tx_done\<close> is what the loop has behind it.\<close>

record txn =
  tx_source :: source_name
  tx_collection :: collection_name
  tx_pending :: "(ingest_op \<times> contenthash option) list"
  tx_done :: "ingest_op list"
  tx_outcomes :: "applied list"
  tx_rows :: "row list"
  tx_locks :: "(rstr \<times> rstr \<times> rstr) list"
  tx_now :: timestamp

definition own_version :: "row list \<Rightarrow> row \<Rightarrow> row" where
  "own_version own r = (case find (\<lambda>q. row_id q = row_id r) own of Some q \<Rightarrow> q | None \<Rightarrow> r)"

definition overlay :: "row list \<Rightarrow> row list \<Rightarrow> row list" where
  "overlay own rows =
     map (own_version own) rows @
     filter (\<lambda>q. row_id q \<notin> row_id ` set rows) own"

definition tx_view :: "txn \<Rightarrow> db \<Rightarrow> db" where
  "tx_view t d = d\<lparr>db_rows := overlay (tx_rows t) (db_rows d), db_now := tx_now t\<rparr>"

definition tx_begin :: "source_name \<Rightarrow> collection_name \<Rightarrow> (ingest_op \<times> contenthash option) list \<Rightarrow> db \<Rightarrow> txn" where
  "tx_begin source collection hashed d =
     \<lparr>tx_source = source, tx_collection = collection, tx_pending = hashed, tx_done = [], tx_outcomes = [],
      tx_rows = [], tx_locks = [], tx_now = db_now d\<rparr>"

text \<open>The row a statement wrote, if it wrote one.\<close>

definition written_row :: "row list \<Rightarrow> row list \<Rightarrow> row option" where
  "written_row before after = find (\<lambda>r. r \<notin> set before) after"

definition op_lock :: "txn \<Rightarrow> ingest_op \<Rightarrow> row option \<Rightarrow> (rstr \<times> rstr \<times> rstr) list" where
  "op_lock t op w =
     (case op of
        OpUpsert i _ \<Rightarrow> [key_row_id (record_key_new (tx_source t) (tx_collection t) i)]
      | OpDelete _ \<Rightarrow> (case w of None \<Rightarrow> [] | Some r \<Rightarrow> [row_id r]))"

text \<open>The next statement of a transaction: its answer and the transaction after it, and the database, of
  which only the sequence has moved.\<close>

definition tx_statement :: "env \<Rightarrow> ingest_op \<times> contenthash option \<Rightarrow> txn \<Rightarrow> db \<Rightarrow> (store_error + txn) \<times> db" where
  "tx_statement E oh t d =
     (let before = tx_view t d
      in case apply_op E (tx_source t) (tx_collection t) oh before of
           (Inl e, after) \<Rightarrow> (Inl e, d\<lparr>db_seq_last := db_seq_last after\<rparr>)
         | (Inr outcome, after) \<Rightarrow>
             let w = written_row (db_rows before) (db_rows after)
             in (Inr (t\<lparr>tx_pending := tl (tx_pending t), tx_done := tx_done t @ [fst oh], tx_outcomes := tx_outcomes t @ [outcome],
                        tx_rows := (case w of None \<Rightarrow> tx_rows t | Some r \<Rightarrow> put_row r (tx_rows t)),
                        tx_locks := op_lock t (fst oh) w @ tx_locks t\<rparr>),
                 d\<lparr>db_seq_last := db_seq_last after\<rparr>))"

definition tx_commit :: "txn \<Rightarrow> db \<Rightarrow> db" where
  "tx_commit t d = d\<lparr>db_rows := overlay (tx_rows t) (db_rows d)\<rparr>"

section \<open>Rows over rows\<close>

lemma put_row_Cons: "put_row new (r # rows) =
    (if row_id r = row_id new then new # map (\<lambda>q. if row_id q = row_id new then new else q) rows
     else r # put_row new rows)"
  by (auto simp: put_row_def)

lemma find_replaced: "k \<noteq> row_id new \<Longrightarrow>
    find (\<lambda>q. row_id q = k) (map (\<lambda>q. if row_id q = row_id new then new else q) rows) = find (\<lambda>q. row_id q = k) rows"
  by (induction rows) auto

lemma find_put_row:
  "find (\<lambda>q. row_id q = k) (put_row new rows) = (if k = row_id new then Some new else find (\<lambda>q. row_id q = k) rows)"
proof (induction rows)
  case (Cons r rows)
  then show ?case by (auto simp: put_row_Cons find_replaced)
qed (simp add: put_row_def)

lemma row_id_own_version [simp]: "row_id (own_version own r) = row_id r"
  by (auto simp: own_version_def split: option.splits dest: find_SomeD)

lemma own_version_put: "own_version (put_row new own) r = (if row_id r = row_id new then new else own_version own r)"
  by (simp add: own_version_def find_put_row)

lemma own_version_absent: "row_id r \<notin> row_id ` set own \<Longrightarrow> own_version own r = r"
proof -
  assume "row_id r \<notin> row_id ` set own"
  then have "find (\<lambda>q. row_id q = row_id r) own = None" by (auto simp: find_None_iff rev_image_eqI)
  then show ?thesis by (simp add: own_version_def)
qed

lemma own_version_present: "distinct (map row_id own) \<Longrightarrow> q \<in> set own \<Longrightarrow> row_id q = row_id r \<Longrightarrow> own_version own r = q"
  using find_row_id[of own "row_id r" q] by (simp add: own_version_def)

lemma overlay_Nil [simp]: "overlay [] rows = rows"
  by (simp add: overlay_def own_version_def [abs_def])

lemma overlay_ids: "map row_id (overlay own rows) =
    map row_id rows @ filter (\<lambda>k. k \<notin> row_id ` set rows) (map row_id own)"
  by (simp add: overlay_def filter_map comp_def)

lemma overlay_id_set: "row_id ` set (overlay own rows) = row_id ` set rows \<union> row_id ` set own"
proof -
  have "row_id ` set (overlay own rows) = set (map row_id (overlay own rows))" by simp
  then show ?thesis unfolding overlay_ids by auto
qed

lemma distinct_overlay:
  "distinct (map row_id rows) \<Longrightarrow> distinct (map row_id own) \<Longrightarrow> distinct (map row_id (overlay own rows))"
  unfolding overlay_ids by auto

lemma set_overlay:
  assumes "distinct (map row_id own)"
  shows "set (overlay own rows) = set own \<union> {r \<in> set rows. row_id r \<notin> row_id ` set own}"
proof (intro set_eqI iffI)
  fix x assume "x \<in> set (overlay own rows)"
  then consider r where "r \<in> set rows" "x = own_version own r" | "x \<in> set own" by (auto simp: overlay_def)
  then show "x \<in> set own \<union> {r \<in> set rows. row_id r \<notin> row_id ` set own}"
  proof cases
    case 1
    show ?thesis
    proof (cases "row_id r \<in> row_id ` set own")
      case True
      then obtain q where "q \<in> set own" "row_id q = row_id r" by auto
      with 1 own_version_present[OF assms this] show ?thesis by simp
    next
      case False
      with 1 own_version_absent show ?thesis by simp
    qed
  qed simp
next
  fix x assume x: "x \<in> set own \<union> {r \<in> set rows. row_id r \<notin> row_id ` set own}"
  show "x \<in> set (overlay own rows)"
  proof (cases "x \<in> set own")
    case True
    show ?thesis
    proof (cases "row_id x \<in> row_id ` set rows")
      case in_rows: True
      then obtain r where r: "r \<in> set rows" "row_id x = row_id r" by auto
      with own_version_present[OF assms True] show ?thesis
        unfolding overlay_def by (metis UnI1 image_eqI list.set_map set_append)
    next
      case False
      with True show ?thesis by (simp add: overlay_def)
    qed
  next
    case False
    with x own_version_absent[of x own] show ?thesis
      unfolding overlay_def by (metis (no_types, lifting) UnE UnI1 image_eqI list.set_map mem_Collect_eq set_append)
  qed
qed

lemma filter_put_row:
  "filter (\<lambda>q. row_id q \<notin> K) (put_row new own) =
     (if row_id new \<in> K then filter (\<lambda>q. row_id q \<notin> K) own else put_row new (filter (\<lambda>q. row_id q \<notin> K) own))"
proof (induction own)
  case (Cons q own)
  have "filter (\<lambda>q. row_id q \<notin> K) (map (\<lambda>q. if row_id q = row_id new then new else q) own) =
      (if row_id new \<in> K then filter (\<lambda>q. row_id q \<notin> K) own
       else map (\<lambda>q. if row_id q = row_id new then new else q) (filter (\<lambda>q. row_id q \<notin> K) own))"
    by (induction own) auto
  with Cons show ?case by (auto simp: put_row_Cons)
qed (simp add: put_row_def)

text \<open>Writing over what the transaction sees is writing among its own rows.\<close>

lemma overlay_put: "put_row new (overlay own rows) = overlay (put_row new own) rows"
proof (cases "row_id new \<in> row_id ` set rows")
  case True
  then have there: "row_id new \<in> row_id ` set (overlay own rows)" by (simp add: overlay_id_set)
  have kept: "map (\<lambda>r. if row_id r = row_id new then new else r) (filter (\<lambda>q. row_id q \<notin> row_id ` set rows) own) =
      filter (\<lambda>q. row_id q \<notin> row_id ` set rows) own"
    using True by (intro map_idI) auto
  show ?thesis
    unfolding put_row_def[of new "overlay own rows"] if_P[OF there]
    unfolding overlay_def map_append kept
    using True by (simp add: filter_put_row own_version_put comp_def)
next
  case False
  then have first: "map (own_version (put_row new own)) rows = map (own_version own) rows"
    by (intro map_cong refl) (metis image_eqI own_version_put)
  have "row_id new \<notin> row_id ` set (map (own_version own) rows)" using False by (simp add: image_image)
  then have app: "put_row new (map (own_version own) rows @ ys) = map (own_version own) rows @ put_row new ys" for ys
    by (induction rows) (auto simp: put_row_Cons)
  show ?thesis using False by (simp add: overlay_def app first filter_put_row)
qed

section \<open>One statement\<close>

lemma written_row_same [simp]: "written_row rows rows = None"
  by (simp add: written_row_def find_None_iff)

lemma written_row_put:
  assumes "new \<notin> set rows"
  shows "written_row rows (put_row new rows) = Some new"
proof -
  have "new \<in> set (put_row new rows)" by (simp add: set_put_row)
  then have "\<exists>r \<in> set (put_row new rows). r \<notin> set rows" using assms by blast
  then obtain r where "find (\<lambda>r. r \<notin> set rows) (put_row new rows) = Some r"
    by (cases "find (\<lambda>r. r \<notin> set rows) (put_row new rows)") (auto simp: find_None_iff)
  moreover from this have "r \<in> set (put_row new rows)" "r \<notin> set rows" by (auto dest: find_SomeD)
  ultimately show ?thesis by (auto simp: written_row_def set_put_row)
qed

definition after_statement :: "ingest_op \<Rightarrow> applied \<Rightarrow> row option \<Rightarrow> txn \<Rightarrow> txn" where
  "after_statement op outcome w t =
     t\<lparr>tx_pending := tl (tx_pending t), tx_done := tx_done t @ [op], tx_outcomes := tx_outcomes t @ [outcome],
       tx_rows := (case w of None \<Rightarrow> tx_rows t | Some r \<Rightarrow> put_row r (tx_rows t)),
       tx_locks := op_lock t op w @ tx_locks t\<rparr>"

lemma tx_view_after:
  "tx_view (after_statement op a None t) (d\<lparr>db_seq_last := s\<rparr>) = (tx_view t d)\<lparr>db_seq_last := s\<rparr>"
  "tx_view (after_statement op a (Some new) t) (d\<lparr>db_seq_last := r_seq new\<rparr>) = put new (tx_view t d)"
  by (simp_all add: tx_view_def after_statement_def overlay_put put_def)

lemma hash_op_fst: "hash_op E op = Inr oh \<Longrightarrow> fst oh = op"
  by (cases op) (auto simp: hash_op_def result_simps)

lemma traverse_hash_op_valid:
  "list_all op_ok ops \<Longrightarrow> traverse (hash_op E) ops = Inr hashed \<Longrightarrow>
     list_all (\<lambda>oh. op_ok (fst oh) \<and> hash_op E (fst oh) = Inr oh) hashed"
proof (induction ops arbitrary: hashed)
  case (Cons op ops)
  then obtain oh rest where "hash_op E op = Inr oh" "traverse (hash_op E) ops = Inr rest" "hashed = oh # rest"
    unfolding traverse_Cons_Inr by blast
  with Cons hash_op_fst[of E op oh] show ?case by simp
qed simp

lemma tx_statement_cases:
  assumes E: "env_ok E" and ok: "db_ok E (tx_view t d)"
    and names: "source_ok (tx_source t)" "collection_ok (tx_collection t)" "op_ok op" and hashed: "hash_op E op = Inr oh"
    and res: "tx_statement E oh t d = (r, d')"
  obtains
    (refused) e s after where "r = Inl e" "d' = d\<lparr>db_seq_last := s\<rparr>" "db_seq_last d \<le> s" "s \<le> BIGINT_MAX"
      "apply_op E (tx_source t) (tx_collection t) oh (tx_view t d) = (Inl e, after)" "db_seq_last after = s"
  | (unchanged) a s where "r = Inr (after_statement op a None t)" "d' = d\<lparr>db_seq_last := s\<rparr>"
      "db_seq_last d \<le> s" "s \<le> BIGINT_MAX"
      "apply_op E (tx_source t) (tx_collection t) oh (tx_view t d) = (Inr a, (tx_view t d)\<lparr>db_seq_last := s\<rparr>)"
  | (changed) a new where "r = Inr (after_statement op a (Some new) t)" "d' = d\<lparr>db_seq_last := r_seq new\<rparr>"
      "db_seq_last d < r_seq new" "r_seq new \<le> BIGINT_MAX"
      "op_row E (op_key (tx_source t) (tx_collection t) op) op new"
      "apply_op E (tx_source t) (tx_collection t) oh (tx_view t d) = (Inr a, put new (tx_view t d))"
proof -
  have last [simp]: "db_seq_last (tx_view t d) = db_seq_last d" by (simp add: tx_view_def)
  obtain r0 after where run: "apply_op E (tx_source t) (tx_collection t) oh (tx_view t d) = (r0, after)" by fastforce
  note res = res[unfolded tx_statement_def Let_def run prod.case hash_op_fst[OF hashed]]
  show ?thesis
    using E ok names hashed run
  proof (cases rule: apply_op_cases)
    case (refused e s)
    with res run that(1)[of "Database e" s after] show ?thesis by simp
  next
    case (unchanged s)
    with res run that(2)[of AUnchanged s] show ?thesis by (simp add: after_statement_def)
  next
    case (changed new)
    have "new \<notin> set (db_rows (tx_view t d))" using changed(3) ok by (auto simp: db_ok_def)
    with changed res run that(3)[of "op_applied op (Seq (word_of_int (r_seq new)))" new] show ?thesis by (simp add: after_statement_def written_row_put)
  qed
qed

section \<open>A transaction on its own\<close>

text \<open>All statements of a transaction with nobody else around, then the commit; a statement that fails
  drops the transaction.\<close>

fun tx_run :: "env \<Rightarrow> (ingest_op \<times> contenthash option) list \<Rightarrow> txn \<Rightarrow> db \<Rightarrow> (store_error + applied list) \<times> db" where
  "tx_run E [] t d = (Inr (tx_outcomes t), tx_commit t d)"
| "tx_run E (oh # rest) t d =
     (case tx_statement E oh t d of
        (Inl e, d') \<Rightarrow> (Inl e, d')
      | (Inr t', d') \<Rightarrow> tx_run E rest t' d')"

definition tx_apply ::
    "env \<Rightarrow> source_name \<Rightarrow> collection_name \<Rightarrow> ingest_op list \<Rightarrow> db \<Rightarrow> (store_error + applied list) \<times> db" where
  "tx_apply E source collection ops d =
     (case traverse (hash_op E) ops of
        Inl e \<Rightarrow> (Inl e, d)
      | Inr hashed \<Rightarrow> tx_run E hashed (tx_begin source collection hashed d) d)"

lemma tx_run_applies:
  assumes E: "env_ok E" and names: "source_ok (tx_source t)" "collection_ok (tx_collection t)" and now: "tx_now t = db_now d"
  shows "db_ok E (tx_view t d) \<Longrightarrow> list_all op_ok ops \<Longrightarrow> traverse (hash_op E) ops = Inr hashed \<Longrightarrow>
    tx_run E hashed t d =
      (case apply_ops E (tx_source t) (tx_collection t) hashed (tx_view t d) of
         (Inl e, after) \<Rightarrow> (Inl e, d\<lparr>db_seq_last := db_seq_last after\<rparr>)
       | (Inr outcomes, after) \<Rightarrow> (Inr (tx_outcomes t @ outcomes), after))"
  using names now
proof (induction ops arbitrary: hashed t d)
  case Nil
  then show ?case by (simp add: tx_commit_def tx_view_def)
next
  case (Cons op ops)
  then obtain oh rest where h: "hash_op E op = Inr oh" "traverse (hash_op E) ops = Inr rest" and hashed: "hashed = oh # rest"
    unfolding traverse_Cons_Inr by blast
  obtain r d1 where run: "tx_statement E oh t d = (r, d1)" by fastforce
  have op: "op_ok op" "list_all op_ok ops" using Cons.prems by simp_all
  have next_ok: "db_ok E (tx_view t' d')"
    if "apply_op E (tx_source t) (tx_collection t) oh (tx_view t d) = (Inr a, tx_view t' d')" for a t' d'
    using db_step_ok[OF apply_op_step[OF E Cons.prems(1) Cons.prems(4,5) op(1) h(1) that] batch_row_ok Cons.prems(1)] .
  from E Cons.prems(1) Cons.prems(4,5) op(1) h(1) run show ?case
  proof (cases rule: tx_statement_cases)
    case (refused e s after)
    then show ?thesis by (simp add: hashed run)
  next
    case (unchanged a s)
    let ?t = "after_statement op a None t"
    have v: "tx_view ?t d1 = (tx_view t d)\<lparr>db_seq_last := s\<rparr>" by (simp add: unchanged(2) tx_view_after)
    then have "db_ok E (tx_view ?t d1)" using next_ok[of a ?t d1] unchanged(5) by simp
    from Cons.IH[OF this op(2) h(2)] Cons.prems(4-6) unchanged v show ?thesis
      by (auto simp: hashed run after_statement_def map_ok_def split: prod.splits sum.splits)
  next
    case (changed a new)
    let ?t = "after_statement op a (Some new) t"
    have v: "tx_view ?t d1 = put new (tx_view t d)" by (simp add: changed(2) tx_view_after)
    then have "db_ok E (tx_view ?t d1)" using next_ok[of a ?t d1] changed(6) by simp
    from Cons.IH[OF this op(2) h(2)] Cons.prems(4-6) changed v show ?thesis
      by (auto simp: hashed run after_statement_def map_ok_def split: prod.splits sum.splits)
  qed
qed

lemma tx_apply_is_pg_apply:
  assumes "env_ok E" and "db_ok E d" and "source_ok source" and "collection_ok collection" and "list_all op_ok ops"
  shows "tx_apply E source collection ops d = pg_apply E source collection ops d"
proof (cases "traverse (hash_op E) ops")
  case (Inr hashed)
  have "tx_view (tx_begin source collection hashed d) d = d" by (simp add: tx_view_def tx_begin_def)
  then show ?thesis
    using tx_run_applies[OF assms(1), of "tx_begin source collection hashed d" d ops hashed] assms Inr
    by (auto simp: tx_apply_def pg_apply_def tx_begin_def rollback_def split: prod.splits sum.splits)
qed (simp add: tx_apply_def pg_apply_def)

text \<open>The transaction of a batch, run on its own, is the batch: statement by statement and then committed
  it answers what \<open>apply\<close> answers and leaves the database \<open>apply\<close> leaves, failed or not.\<close>

theorem transaction_is_apply:
  assumes "env_ok E" and "db_ok E d" and "source_ok source" and "collection_ok collection" and "list_all op_ok ops"
  shows "tx_apply E source collection ops d = pg_apply E source collection ops d"
  by (rule tx_apply_is_pg_apply[OF assms])

lemma transaction_is_apply_witness:
  "tx_apply sample_env erp products sample_batch (empty_db 7) = (Inr [AStored (Seq 1), AStored (Seq 2), AUnchanged], sample_db)"
  using transaction_is_apply[OF sample_env_ok empty_db_ok sample_names_ok sample_batch_ok, of 7] by (simp add: sample_run)

section \<open>Many transactions\<close>

text \<open>The committed database and the open transactions.\<close>

type_synonym cluster = "db \<times> txn list"

definition tx_valid :: "env \<Rightarrow> txn \<Rightarrow> bool" where
  "tx_valid E t \<longleftrightarrow> source_ok (tx_source t) \<and> collection_ok (tx_collection t) \<and>
     list_all (\<lambda>oh. op_ok (fst oh) \<and> hash_op E (fst oh) = Inr oh) (tx_pending t)"

text \<open>No lock that the statement takes is held by another transaction.\<close>

definition lock_free :: "txn list \<Rightarrow> txn \<Rightarrow> txn \<Rightarrow> bool" where
  "lock_free others t t' \<longleftrightarrow>
     (\<forall>u \<in> set others. \<forall>k \<in> set (tx_locks t'). k \<in> set (tx_locks t) \<or> k \<notin> set (tx_locks u))"

inductive cluster_step :: "env \<Rightarrow> cluster \<Rightarrow> cluster \<Rightarrow> bool" for E where
  cluster_begin: "source_ok source \<Longrightarrow> collection_ok collection \<Longrightarrow> list_all op_ok ops \<Longrightarrow>
    traverse (hash_op E) ops = Inr hashed \<Longrightarrow>
    cluster_step E (d, ts) (d, ts @ [tx_begin source collection hashed d])"
| cluster_statement: "tx_pending t = oh # rest \<Longrightarrow> tx_statement E oh t d = (Inr t', d') \<Longrightarrow> lock_free (us @ vs) t t' \<Longrightarrow>
    cluster_step E (d, us @ t # vs) (d', us @ t' # vs)"
| cluster_failed: "tx_pending t = oh # rest \<Longrightarrow> tx_statement E oh t d = (Inl e, d') \<Longrightarrow>
    cluster_step E (d, us @ t # vs) (d', us @ vs)"
| cluster_commit: "tx_pending t = [] \<Longrightarrow> cluster_step E (d, us @ t # vs) (tx_commit t d, us @ vs)"
| cluster_abort: "cluster_step E (d, us @ t # vs) (d, us @ vs)"
| cluster_clock: "cluster_step E (d, ts) (d\<lparr>db_now := n\<rparr>, ts)"

section \<open>What holds in every state\<close>

definition tx_ok :: "env \<Rightarrow> db \<Rightarrow> txn \<Rightarrow> bool" where
  "tx_ok E d t \<longleftrightarrow> tx_valid E t \<and>
     distinct (map row_id (tx_rows t)) \<and> inj_on r_seq (set (tx_rows t)) \<and>
     row_id ` set (tx_rows t) \<subseteq> set (tx_locks t) \<and>
     (\<forall>r \<in> set (tx_rows t). row_ok E r \<and> 1 \<le> r_seq r \<and> r_seq r \<le> db_seq_last d \<and> r_seq r \<notin> r_seq ` set (db_rows d)) \<and>
     (\<forall>q \<in> set (tx_rows t). \<forall>r \<in> set (db_rows d). row_id r = row_id q \<longrightarrow> r_seq r < r_seq q)"

definition apart :: "txn \<Rightarrow> txn \<Rightarrow> bool" where
  "apart t u \<longleftrightarrow> set (tx_locks t) \<inter> set (tx_locks u) = {} \<and> r_seq ` set (tx_rows t) \<inter> r_seq ` set (tx_rows u) = {}"

lemma apart_sym: "apart t u \<longleftrightarrow> apart u t"
  by (auto simp: apart_def)

definition cluster_ok :: "env \<Rightarrow> cluster \<Rightarrow> bool" where
  "cluster_ok E cl \<longleftrightarrow> db_ok E (fst cl) \<and> (\<forall>t \<in> set (snd cl). tx_ok E (fst cl) t) \<and> sorted_wrt apart (snd cl)"

lemma apart_middle: "sorted_wrt apart (us @ t # vs) \<longleftrightarrow> sorted_wrt apart (us @ vs) \<and> (\<forall>u \<in> set (us @ vs). apart t u)"
  by (auto simp: sorted_wrt_append apart_sym)

lemma db_ok_overlay:
  assumes ok: "db_ok E d" and t: "tx_ok E d t"
  shows "db_ok E (d\<lparr>db_rows := overlay (tx_rows t) (db_rows d)\<rparr>)"
proof -
  have dist: "distinct (map row_id (tx_rows t))" using t by (simp add: tx_ok_def)
  note rows = set_overlay[OF dist, of "db_rows d"]
  have ids: "distinct (map row_id (overlay (tx_rows t) (db_rows d)))"
    using ok dist by (intro distinct_overlay) (simp_all add: db_ok_def)
  moreover have "inj_on r_seq (set (overlay (tx_rows t) (db_rows d)))"
  proof (rule inj_onI)
    fix a b assume "a \<in> set (overlay (tx_rows t) (db_rows d))" "b \<in> set (overlay (tx_rows t) (db_rows d))" "r_seq a = r_seq b"
    moreover have "inj_on r_seq (set (db_rows d))" "inj_on r_seq (set (tx_rows t))"
      using ok t by (simp_all add: db_ok_def tx_ok_def distinct_map)
    moreover have "r_seq r \<noteq> r_seq q" if "r \<in> set (tx_rows t)" "q \<in> set (db_rows d)" for r q
      using t that by (auto simp: tx_ok_def)
    ultimately show "a = b" unfolding rows by (auto dest: inj_onD) (metis inj_onD)+
  qed
  ultimately have "distinct (map r_seq (overlay (tx_rows t) (db_rows d)))" by (simp add: distinct_map)
  with ids ok t show ?thesis by (auto simp: db_ok_def rows tx_ok_def)
qed

lemma db_ok_view: "db_ok E d \<Longrightarrow> tx_ok E d t \<Longrightarrow> db_ok E (tx_view t d)"
  using db_ok_overlay[of E d t] by (simp add: tx_view_def db_ok_def)

lemma tx_ok_seq: "tx_ok E d t \<Longrightarrow> db_seq_last d \<le> s \<Longrightarrow> tx_ok E (d\<lparr>db_seq_last := s\<rparr>) t"
  by (auto simp: tx_ok_def)

lemma db_ok_seq: "db_ok E d \<Longrightarrow> db_seq_last d \<le> s \<Longrightarrow> s \<le> BIGINT_MAX \<Longrightarrow> db_ok E (d\<lparr>db_seq_last := s\<rparr>)"
  using db_step_ok[OF step_burn[of d s "\<lambda>_. False"]] by simp

text \<open>What one statement does to its transaction and to the sequence.\<close>

lemma statement_ok:
  assumes E: "env_ok E" and ok: "db_ok E d" and t: "tx_ok E d t" and pending: "tx_pending t = oh # rest"
    and res: "tx_statement E oh t d = (r, d')"
  shows "\<exists>s. d' = d\<lparr>db_seq_last := s\<rparr> \<and> db_seq_last d \<le> s \<and> s \<le> BIGINT_MAX \<and>
    (\<forall>t'. r = Inr t' \<longrightarrow> tx_ok E d' t' \<and>
       (\<forall>q \<in> set (tx_rows t'). q \<in> set (tx_rows t) \<or> db_seq_last d < r_seq q))"
proof -
  have op: "source_ok (tx_source t)" "collection_ok (tx_collection t)" "op_ok (fst oh)" "hash_op E (fst oh) = Inr oh"
    using t pending by (simp_all add: tx_ok_def tx_valid_def)
  have nonneg: "0 \<le> db_seq_last d" using ok by (simp add: db_ok_def)
  from E db_ok_view[OF ok t] op res show ?thesis
  proof (cases rule: tx_statement_cases)
    case (refused e s after)
    then show ?thesis by (intro exI[of _ s]) auto
  next
    case (unchanged a s)
    have "tx_ok E d' (after_statement (fst oh) a None t)"
      using tx_ok_seq[OF t unchanged(3)] pending unchanged(2)
      by (auto simp: tx_ok_def tx_valid_def after_statement_def)
    with unchanged show ?thesis by (intro exI[of _ s]) (auto simp: after_statement_def)
  next
    case (changed a new)
    let ?t = "after_statement (fst oh) a (Some new) t"
    have rows: "set (tx_rows ?t) = insert new {q \<in> set (tx_rows t). row_id q \<noteq> row_id new}"
      by (simp add: after_statement_def set_put_row)
    have "row_id new \<in> set (tx_locks ?t)"
      using changed(5) by (cases "fst oh") (auto simp: after_statement_def op_lock_def op_row_def record_key_new_def)
    moreover have "inj_on r_seq (set (tx_rows ?t))"
      using t changed(3) unfolding rows by (fastforce simp: tx_ok_def inj_on_def)
    moreover have "r_seq new \<notin> r_seq ` set (db_rows d)" using ok changed(3) by (fastforce simp: db_ok_def)
    moreover have "distinct (map row_id (tx_rows ?t))"
      using t by (simp add: after_statement_def distinct_put_row tx_ok_def)
    moreover have "tx_valid E ?t" using t pending by (auto simp: tx_ok_def tx_valid_def after_statement_def)
    moreover have "set (tx_locks t) \<subseteq> set (tx_locks ?t)" by (auto simp: after_statement_def)
    moreover have "\<forall>q \<in> set (tx_rows ?t). row_ok E q \<and> 1 \<le> r_seq q \<and> r_seq q \<le> r_seq new \<and> r_seq q \<notin> r_seq ` set (db_rows d)"
      using t changed(3,5) nonneg \<open>r_seq new \<notin> r_seq ` set (db_rows d)\<close> unfolding rows
      by (auto simp: tx_ok_def op_row_def)
    moreover have "\<forall>q \<in> set (tx_rows ?t). \<forall>r \<in> set (db_rows d). row_id r = row_id q \<longrightarrow> r_seq r < r_seq q"
      using t changed(3) ok unfolding rows by (fastforce simp: tx_ok_def db_ok_def)
    moreover have "row_id ` set (tx_rows ?t) \<subseteq> set (tx_locks ?t)"
      using \<open>row_id new \<in> set (tx_locks ?t)\<close> \<open>set (tx_locks t) \<subseteq> set (tx_locks ?t)\<close> t unfolding rows
      by (auto simp: tx_ok_def)
    ultimately have "tx_ok E d' ?t" unfolding tx_ok_def changed(2) by simp
    with changed rows show ?thesis by (intro exI[of _ "r_seq new"]) auto
  qed
qed

text \<open>The commit of another transaction leaves a transaction valid that shares neither locks nor positions with it.\<close>

lemma tx_ok_commit:
  assumes t: "tx_ok E d t" and u: "tx_ok E d u" "apart t u"
  shows "tx_ok E (tx_commit t d) u"
proof -
  have "distinct (map row_id (tx_rows t))" using t by (simp add: tx_ok_def)
  note rows = set_overlay[OF this, of "db_rows d"]
  have seqs: "r_seq ` set (db_rows (tx_commit t d)) \<subseteq> r_seq ` set (tx_rows t) \<union> r_seq ` set (db_rows d)"
    by (auto simp: tx_commit_def rows)
  have "r_seq r \<notin> r_seq ` set (db_rows (tx_commit t d))" if "r \<in> set (tx_rows u)" for r
  proof -
    have "r_seq r \<notin> r_seq ` set (db_rows d)" using u(1) that by (simp add: tx_ok_def)
    moreover have "r_seq r \<notin> r_seq ` set (tx_rows t)" using u(2) that by (auto simp: apart_def)
    ultimately show ?thesis using seqs by blast
  qed
  moreover have "r_seq r < r_seq q"
    if q: "q \<in> set (tx_rows u)" and r: "r \<in> set (db_rows (tx_commit t d))" and same: "row_id r = row_id q" for q r
  proof -
    have "row_id q \<in> set (tx_locks u)" using u(1) q by (auto simp: tx_ok_def)
    moreover have "row_id x \<in> set (tx_locks t)" if "x \<in> set (tx_rows t)" for x using t that by (auto simp: tx_ok_def)
    ultimately have "r \<notin> set (tx_rows t)" using u(2) same unfolding apart_def by (metis disjoint_iff)
    then have "r \<in> set (db_rows d)" using r by (auto simp: tx_commit_def rows)
    with u(1) q same show ?thesis by (simp add: tx_ok_def)
  qed
  ultimately show ?thesis using u(1) unfolding tx_ok_def by (simp add: tx_commit_def)
qed

lemma cluster_step_ok:
  assumes "cluster_step E cl cl'" "env_ok E" "cluster_ok E cl"
  shows "cluster_ok E cl'"
  using assms
proof (induction rule: cluster_step.induct)
  case (cluster_begin source collection ops hashed d ts)
  have "list_all (\<lambda>oh. op_ok (fst oh) \<and> hash_op E (fst oh) = Inr oh) hashed"
    by (rule traverse_hash_op_valid[OF cluster_begin.hyps(3,4)])
  then have "tx_ok E d (tx_begin source collection hashed d)"
    using cluster_begin.hyps by (simp add: tx_ok_def tx_valid_def tx_begin_def)
  with cluster_begin show ?case by (auto simp: cluster_ok_def sorted_wrt_append apart_def tx_begin_def)
next
  case (cluster_statement t oh rest d t' d' us vs)
  have ok: "db_ok E d" and t: "tx_ok E d t" and others: "\<forall>u \<in> set (us @ vs). tx_ok E d u \<and> apart t u"
    and us: "sorted_wrt apart (us @ vs)"
    using cluster_statement.prems(2) unfolding cluster_ok_def snd_conv fst_conv apart_middle by auto
  from statement_ok[OF cluster_statement.prems(1) ok t cluster_statement.hyps(1,2)] obtain s
    where s: "d' = d\<lparr>db_seq_last := s\<rparr>" "db_seq_last d \<le> s" "s \<le> BIGINT_MAX"
      and t': "tx_ok E d' t'" "\<forall>q \<in> set (tx_rows t'). q \<in> set (tx_rows t) \<or> db_seq_last d < r_seq q"
    by auto
  have "apart t' u" if u: "u \<in> set (us @ vs)" for u
  proof -
    have "set (tx_locks t') \<inter> set (tx_locks u) = {}"
      using cluster_statement.hyps(3) others u by (auto simp: lock_free_def apart_def)
    moreover have "r_seq ` set (tx_rows t') \<inter> r_seq ` set (tx_rows u) = {}"
      using t'(2) others u by (fastforce simp: apart_def tx_ok_def)
    ultimately show ?thesis by (simp add: apart_def)
  qed
  moreover have "\<forall>u \<in> set (us @ vs). tx_ok E d' u" using others tx_ok_seq s by blast
  moreover have "db_ok E d'" using db_ok_seq[OF ok s(2,3)] s(1) by simp
  ultimately show ?case using t'(1) us unfolding cluster_ok_def snd_conv fst_conv apart_middle by auto
next
  case (cluster_failed t oh rest d e d' us vs)
  have ok: "db_ok E d" and t: "tx_ok E d t" and others: "\<forall>u \<in> set (us @ vs). tx_ok E d u"
    and us: "sorted_wrt apart (us @ vs)"
    using cluster_failed.prems(2) unfolding cluster_ok_def snd_conv fst_conv apart_middle by auto
  from statement_ok[OF cluster_failed.prems(1) ok t cluster_failed.hyps(1,2)] obtain s
    where s: "d' = d\<lparr>db_seq_last := s\<rparr>" "db_seq_last d \<le> s" "s \<le> BIGINT_MAX"
    by auto
  then show ?case using others us tx_ok_seq db_ok_seq[OF ok] by (auto simp: cluster_ok_def)
next
  case (cluster_commit t d us vs)
  have ok: "db_ok E d" and t: "tx_ok E d t" and others: "\<forall>u \<in> set (us @ vs). tx_ok E d u \<and> apart t u"
    and us: "sorted_wrt apart (us @ vs)"
    using cluster_commit.prems(2) unfolding cluster_ok_def snd_conv fst_conv apart_middle by auto
  have "tx_ok E (tx_commit t d) u" if "u \<in> set (us @ vs)" for u
    using tx_ok_commit[OF t] others that by blast
  then show ?case using db_ok_overlay[OF ok t] us by (simp add: cluster_ok_def tx_commit_def)
next
  case (cluster_abort d us t vs)
  then show ?case unfolding cluster_ok_def snd_conv fst_conv apart_middle by auto
next
  case (cluster_clock d ts n)
  then show ?case by (auto simp: cluster_ok_def db_ok_def tx_ok_def)
qed

text \<open>C7: However batches of several senders interleave, statement by statement, with commits and aborts in
  any order, the committed database is always consistent, and so is what every open transaction sees;
  no two open transactions hold the same row or the same feed position.\<close>

theorem concurrent_batches_keep_invariant:
  assumes "env_ok E" and "db_ok E d0" and "(cluster_step E)\<^sup>*\<^sup>* (d0, []) (d, ts)"
  shows "db_ok E d \<and> (\<forall>t \<in> set ts. db_ok E (tx_view t d)) \<and> sorted_wrt apart ts"
proof -
  have "cluster_ok E cl" if "(cluster_step E)\<^sup>*\<^sup>* (d0, []) cl" for cl
    using that
  proof (induction rule: rtranclp_induct)
    case base
    then show ?case using assms(2) by (simp add: cluster_ok_def)
  next
    case (step cl cl')
    then show ?case using cluster_step_ok[OF _ assms(1)] by blast
  qed
  from this[OF assms(3)] show ?thesis using db_ok_view by (auto simp: cluster_ok_def)
qed

section \<open>Replication while transactions are open\<close>

text \<open>A pull that does not move the cursor past a position some open transaction holds.\<close>

definition no_position_passed :: "source_name \<Rightarrow> collection_name \<Rightarrow> int \<Rightarrow> txn list \<Rightarrow> bool" where
  "no_position_passed s c n ts \<longleftrightarrow> (\<forall>t \<in> set ts. \<forall>r \<in> set (tx_rows t). in_collection s c r \<longrightarrow> n < r_seq r)"

inductive feed_step ::
    "env \<Rightarrow> source_name \<Rightarrow> collection_name \<Rightarrow> cluster \<times> replica \<Rightarrow> cluster \<times> replica \<Rightarrow> bool" for E s c where
  feed_writes: "cluster_step E cl cl' \<Longrightarrow> feed_step E s c (cl, rp) (cl', rp)"
| feed_pulls: "budget_valid b \<Longrightarrow> pg_changes E s c (rp_cursor rp) b d = Inr p \<Longrightarrow>
    no_position_passed s c (cursor_of (rp_cursor (pull_page p rp))) ts \<Longrightarrow>
    feed_step E s c ((d, ts), rp) ((d, ts), pull_page p rp)"

definition feed_inv :: "env \<Rightarrow> source_name \<Rightarrow> collection_name \<Rightarrow> cluster \<times> replica \<Rightarrow> bool" where
  "feed_inv E s c st \<longleftrightarrow> cluster_ok E (fst st) \<and> synced s c (fst (fst st)) (snd st) \<and>
     no_position_passed s c (cursor_of (rp_cursor (snd st))) (snd (fst st))"

lemma feed_inv_write:
  assumes "cluster_step E cl cl'" "env_ok E" "feed_inv E s c (cl, rp)"
  shows "feed_inv E s c (cl', rp)"
  using assms
proof (induction rule: cluster_step.induct)
  case (cluster_begin source collection ops hashed d ts)
  with cluster_step_ok[OF cluster_step.cluster_begin[OF cluster_begin.hyps]] show ?case
    by (auto simp: feed_inv_def no_position_passed_def tx_begin_def)
next
  case (cluster_statement t oh rest d t' d' us vs)
  note inv = cluster_statement.prems(2)[unfolded feed_inv_def fst_conv snd_conv]
  from inv have ok: "db_ok E d" and t: "tx_ok E d t" by (auto simp: cluster_ok_def)
  from statement_ok[OF cluster_statement.prems(1) ok t cluster_statement.hyps(1,2)] obtain s'
    where s': "d' = d\<lparr>db_seq_last := s'\<rparr>" "db_seq_last d \<le> s'"
      and t': "\<forall>q \<in> set (tx_rows t'). q \<in> set (tx_rows t) \<or> db_seq_last d < r_seq q"
    by auto
  have "synced s c d' rp" using synced_grow[of s c d rp d'] inv s' by simp
  moreover have "cursor_of (rp_cursor rp) \<le> db_seq_last d" using inv by (simp add: synced_def)
  then have "no_position_passed s c (cursor_of (rp_cursor rp)) (us @ t' # vs)"
    using inv t' by (fastforce simp: no_position_passed_def)
  ultimately show ?case
    using cluster_step_ok[OF cluster_step.cluster_statement[OF cluster_statement.hyps] cluster_statement.prems(1)] inv
    by (simp add: feed_inv_def)
next
  case (cluster_failed t oh rest d e d' us vs)
  note inv = cluster_failed.prems(2)[unfolded feed_inv_def fst_conv snd_conv]
  from inv have ok: "db_ok E d" and t: "tx_ok E d t" by (auto simp: cluster_ok_def)
  from statement_ok[OF cluster_failed.prems(1) ok t cluster_failed.hyps(1,2)] obtain s'
    where s': "d' = d\<lparr>db_seq_last := s'\<rparr>" "db_seq_last d \<le> s'"
    by auto
  have "synced s c d' rp" using synced_grow[of s c d rp d'] inv s' by simp
  with cluster_step_ok[OF cluster_step.cluster_failed[OF cluster_failed.hyps] cluster_failed.prems(1)] inv show ?case
    by (auto simp: feed_inv_def no_position_passed_def)
next
  case (cluster_commit t d us vs)
  note inv = cluster_commit.prems(2)[unfolded feed_inv_def fst_conv snd_conv]
  then have "distinct (map row_id (tx_rows t))" by (auto simp: cluster_ok_def tx_ok_def)
  note rows = set_overlay[OF this, of "db_rows d"]
  have "synced s c (tx_commit t d) rp"
  proof (rule synced_grow[of s c d])
    show "row_id ` set (db_rows d) \<subseteq> row_id ` set (db_rows (tx_commit t d))"
      by (simp add: tx_commit_def overlay_id_set)
    fix r assume "r \<in> set (db_rows (tx_commit t d))" "in_collection s c r" "r_seq r \<le> cursor_of (rp_cursor rp)"
    with inv show "r \<in> set (db_rows d)" by (force simp: tx_commit_def rows no_position_passed_def)
  qed (use inv in \<open>simp_all add: tx_commit_def\<close>)
  with cluster_step_ok[OF cluster_step.cluster_commit[OF cluster_commit.hyps] cluster_commit.prems(1)] inv show ?case
    by (auto simp: feed_inv_def no_position_passed_def)
next
  case (cluster_abort d us t vs)
  with cluster_step_ok[OF cluster_step.cluster_abort cluster_abort.prems(1)] show ?case
    by (auto simp: feed_inv_def no_position_passed_def)
next
  case (cluster_clock d ts n)
  with cluster_step_ok[OF cluster_step.cluster_clock cluster_clock.prems(1)] show ?case
    by (auto simp: feed_inv_def synced_def)
qed

text \<open>Replication is correct with batches of many senders in flight: if no pull moves the cursor past a
  position that an open transaction still holds in the collection, then a pull whose page offers no
  cursor leaves the replica holding exactly the committed live records, however statements, commits
  and pulls interleave.\<close>

theorem replica_converges_with_open_transactions:
  assumes "env_ok E" and "db_ok E d0" and "(feed_step E s c)\<^sup>*\<^sup>* ((d0, []), new_replica) ((d, ts), rp)"
    and "budget_valid b" and "pg_changes E s c (rp_cursor rp) b d = Inr p" and "pg_next p = None"
  shows "rp_content (pull_page p rp) = live s c d"
proof -
  have "feed_inv E s c st" if "(feed_step E s c)\<^sup>*\<^sup>* ((d0, []), new_replica) st" for st
    using that
  proof (induction rule: rtranclp_induct)
    case base
    then show ?case using assms(2) synced_new[OF assms(2)] by (simp add: feed_inv_def cluster_ok_def no_position_passed_def)
  next
    case (step st st')
    from step.hyps(2) step.IH show ?case
    proof (cases rule: feed_step.cases)
      case (feed_writes cl cl' rp)
      with step.IH feed_inv_write[OF _ assms(1)] show ?thesis by simp
    next
      case (feed_pulls b rp d p ts)
      with step.IH synced_pull(1)[OF assms(1)] show ?thesis by (auto simp: feed_inv_def cluster_ok_def)
    qed
  qed
  from this[OF assms(3)] show ?thesis
    using synced_pull(2)[OF assms(1) _ assms(4) _ assms(5,6)] by (simp add: feed_inv_def cluster_ok_def)
qed

section \<open>Two senders\<close>

definition item_hashed :: "string \<Rightarrow> ingest_op \<times> contenthash option" where
  "item_hashed s = (OpUpsert (RecordId (lit s)) (item s), Some (ContentHash (sample_digest (sample_jcs (item s)))))"

definition item_begun :: "string \<Rightarrow> txn" where
  "item_begun s = tx_begin erp products [item_hashed s] (empty_db 7)"

definition item_txn :: "string \<Rightarrow> int \<Rightarrow> txn" where
  "item_txn s n = (item_begun s)\<lparr>tx_pending := [], tx_done := [fst (item_hashed s)], tx_outcomes := [AStored (Seq (word_of_int n))],
     tx_rows := [sample_row s n], tx_locks := [row_id (sample_row s n)]\<rparr>"

text \<open>Both have written, one at position 1 and one at position 2, and neither has committed.\<close>

definition both_open :: db where "both_open = (empty_db 7)\<lparr>db_seq_last := 2\<rparr>"

lemma both_open_run:
  "(cluster_step sample_env)\<^sup>*\<^sup>* (empty_db 7, []) (both_open, [item_txn ''A'' 1, item_txn ''B'' 2])"
proof -
  let ?step = "cluster_step sample_env" and ?d = "empty_db 7"
  let ?d1 = "?d\<lparr>db_seq_last := 1\<rparr>"
  have ops: "list_all op_ok [OpUpsert (RecordId (lit s)) (item s)]" if "s = ''A'' \<or> s = ''B''" for s
    using that by (auto simp: item_def ident_eval bt_ok_def)
  have hashed: "traverse (hash_op sample_env) [OpUpsert (RecordId (lit s)) (item s)] = Inr [item_hashed s]"
    if "s = ''A'' \<or> s = ''B''" for s using that by (elim disjE) (simp_all, code_simp+)
  have "?step (?d, []) (?d, [] @ [item_begun ''A''])"
    unfolding item_begun_def by (rule cluster_begin[OF sample_names_ok ops hashed]) simp_all
  moreover have "?step (?d, [item_begun ''A'']) (?d, [item_begun ''A''] @ [item_begun ''B''])"
    unfolding item_begun_def[of "''B''"] by (rule cluster_begin[OF sample_names_ok ops hashed]) simp_all
  moreover have "?step (?d, [] @ item_begun ''A'' # [item_begun ''B'']) (?d1, [] @ item_txn ''A'' 1 # [item_begun ''B''])"
  proof (rule cluster_statement)
    show "tx_statement sample_env (item_hashed ''A'') (item_begun ''A'') ?d = (Inr (item_txn ''A'' 1), ?d1)" by code_simp
  qed (simp_all add: item_begun_def tx_begin_def lock_free_def)
  moreover have "?step (?d1, [item_txn ''A'' 1] @ item_begun ''B'' # []) (both_open, [item_txn ''A'' 1] @ item_txn ''B'' 2 # [])"
  proof (rule cluster_statement)
    show "tx_statement sample_env (item_hashed ''B'') (item_begun ''B'') ?d1 = (Inr (item_txn ''B'' 2), both_open)" by code_simp
    show "lock_free ([item_txn ''A'' 1] @ []) (item_begun ''B'') (item_txn ''B'' 2)"
      by (simp add: lock_free_def item_txn_def sample_row_def key_row_id_def record_key_new_def)
  qed (simp add: item_begun_def tx_begin_def)
  ultimately show ?thesis by (auto intro: converse_rtranclp_into_rtranclp)
qed

lemma item_commits:
  "cluster_step sample_env (d, us @ item_txn s n # vs) (tx_commit (item_txn s n) d, us @ vs)"
  by (rule cluster_commit) (simp add: item_txn_def)

lemma concurrent_batches_keep_invariant_witness:
  "db_ok sample_env (tx_commit (item_txn ''A'' 1) (tx_commit (item_txn ''B'' 2) both_open)) \<and>
     map r_seq (db_rows (tx_commit (item_txn ''A'' 1) (tx_commit (item_txn ''B'' 2) both_open))) = [2, 1]"
proof -
  let ?b = "tx_commit (item_txn ''B'' 2) both_open"
  have "cluster_step sample_env (both_open, [item_txn ''A'' 1, item_txn ''B'' 2]) (?b, [item_txn ''A'' 1])"
    using item_commits[of both_open "[item_txn ''A'' 1]" "''B''" 2 "[]"] by simp
  moreover have "cluster_step sample_env (?b, [item_txn ''A'' 1]) (tx_commit (item_txn ''A'' 1) ?b, [])"
    using item_commits[of ?b "[]" "''A''" 1 "[]"] by simp
  ultimately have "(cluster_step sample_env)\<^sup>*\<^sup>* (empty_db 7, []) (tx_commit (item_txn ''A'' 1) ?b, [])"
    using both_open_run by (meson rtranclp.rtrancl_into_rtrancl)
  from concurrent_batches_keep_invariant[OF sample_env_ok empty_db_ok this]
  have "db_ok sample_env (tx_commit (item_txn ''A'' 1) ?b)" by blast
  moreover have "map r_seq (db_rows (tx_commit (item_txn ''A'' 1) ?b)) = [2, 1]" by code_simp
  ultimately show ?thesis by blast
qed

text \<open>The transaction at position 1 commits; a pull of one record moves the cursor to 1, behind the position
  that is still open; the next pull ends at what is committed.\<close>

lemma replica_converges_with_open_transactions_witness:
  "\<exists>p1 p2. pg_changes sample_env erp products None (page_budget_of (PageLimit 1)) (tx_commit (item_txn ''A'' 1) both_open) = Inr p1 \<and>
     pg_changes sample_env erp products (rp_cursor (pull_page p1 new_replica)) (page_budget_of (PageLimit 1))
       (tx_commit (item_txn ''A'' 1) both_open) = Inr p2 \<and>
     rp_content (pull_page p2 (pull_page p1 new_replica)) (lit ''A'') = row_content (sample_row ''A'' 1)"
proof -
  let ?d = "tx_commit (item_txn ''A'' 1) both_open" and ?b = "page_budget_of (PageLimit 1)"
  let ?p1 = "\<lparr>pg_records = [record_of_row erp products (sample_row ''A'' 1)], pg_next = Some (Seq 1)\<rparr>"
  let ?p2 = "\<lparr>pg_records = [], pg_next = None\<rparr> :: page"
  have p1: "pg_changes sample_env erp products (rp_cursor new_replica) ?b ?d = Inr ?p1" by code_simp
  have p2: "pg_changes sample_env erp products (rp_cursor (pull_page ?p1 new_replica)) ?b ?d = Inr ?p2" by code_simp
  have "cluster_step sample_env (both_open, [item_txn ''A'' 1, item_txn ''B'' 2]) (?d, [item_txn ''B'' 2])"
    using item_commits[of both_open "[]" "''A''" 1 "[item_txn ''B'' 2]"] by simp
  with both_open_run have "(cluster_step sample_env)\<^sup>*\<^sup>* (empty_db 7, []) (?d, [item_txn ''B'' 2])"
    by (rule rtranclp.rtrancl_into_rtrancl)
  then have "(feed_step sample_env erp products)\<^sup>*\<^sup>* ((empty_db 7, []), new_replica) ((?d, [item_txn ''B'' 2]), new_replica)"
    by (induction rule: rtranclp_induct) (auto intro: rtranclp.rtrancl_into_rtrancl feed_writes)
  moreover have "no_position_passed erp products (cursor_of (rp_cursor (pull_page ?p1 new_replica))) [item_txn ''B'' 2]"
    by (simp add: no_position_passed_def item_txn_def sample_row_def pull_page_def cursor_of_def)
  then have "feed_step sample_env erp products ((?d, [item_txn ''B'' 2]), new_replica)
      ((?d, [item_txn ''B'' 2]), pull_page ?p1 new_replica)"
    by (rule feed_pulls[OF sample_budget p1])
  ultimately have run: "(feed_step sample_env erp products)\<^sup>*\<^sup>* ((empty_db 7, []), new_replica)
      ((?d, [item_txn ''B'' 2]), pull_page ?p1 new_replica)"
    by (rule rtranclp.rtrancl_into_rtrancl)
  have "live erp products ?d (lit ''A'') = row_content (sample_row ''A'' 1)" by code_simp
  with replica_converges_with_open_transactions[OF sample_env_ok empty_db_ok run sample_budget p2] p1 p2 show ?thesis
    by (intro exI[of _ ?p1] exI[of _ ?p2]) (simp add: new_replica_def)
qed

text \<open>Without that condition a record can be missed: the later position commits first, the cursor moves to
  it, and the record at the earlier position is behind the cursor when it appears.\<close>

lemma feed_misses_late_commit:
  "\<exists>early late p1 p2.
     (cluster_step sample_env)\<^sup>*\<^sup>* (empty_db 7, []) (early, [item_txn ''A'' 1]) \<and>
     cluster_step sample_env (early, [item_txn ''A'' 1]) (late, []) \<and>
     pg_changes sample_env erp products None (page_budget_of (PageLimit 1)) early = Inr p1 \<and>
     pg_changes sample_env erp products (pg_next p1) (page_budget_of (PageLimit 1)) late = Inr p2 \<and>
     pg_next p2 = None \<and> live erp products late (lit ''A'') \<noteq> None \<and>
     rp_content (pull_page p2 (pull_page p1 new_replica)) (lit ''A'') = None"
proof -
  let ?b = "tx_commit (item_txn ''B'' 2) both_open" and ?budget = "page_budget_of (PageLimit 1)"
  let ?a = "tx_commit (item_txn ''A'' 1) ?b"
  let ?p1 = "\<lparr>pg_records = [record_of_row erp products (sample_row ''B'' 2)], pg_next = Some (Seq 2)\<rparr>"
  let ?p2 = "\<lparr>pg_records = [], pg_next = None\<rparr> :: page"
  have "(cluster_step sample_env)\<^sup>*\<^sup>* (empty_db 7, []) (?b, [item_txn ''A'' 1])"
    using both_open_run item_commits[of both_open "[item_txn ''A'' 1]" "''B''" 2 "[]"]
    by (auto intro: rtranclp.rtrancl_into_rtrancl)
  moreover have "cluster_step sample_env (?b, [item_txn ''A'' 1]) (?a, [])"
    using item_commits[of ?b "[]" "''A''" 1 "[]"] by simp
  moreover have "pg_changes sample_env erp products None ?budget ?b = Inr ?p1" by code_simp
  moreover have "pg_changes sample_env erp products (pg_next ?p1) ?budget ?a = Inr ?p2" by code_simp
  moreover have "live erp products ?a (lit ''A'') \<noteq> None" by code_simp
  moreover have "rp_content (pull_page ?p2 (pull_page ?p1 new_replica)) (lit ''A'') = None" by code_simp
  moreover have "pg_next ?p2 = None" by simp
  ultimately show ?thesis by blast
qed

end
