(* ===== verification/Concurrent_Reads.thy ===== *)
theory Concurrent_Reads
  imports Transactions Public_Properties
begin

text \<open>
  The cache validators of the collection routes while batches are in flight. A validator is the
  collection's top position; it says what was committed then only if no open transaction held a position
  at or below it.
\<close>

section \<open>The top position of a collection\<close>

lemma top_position_mono:
  assumes "\<And>r. r \<in> set (db_rows d) \<Longrightarrow> in_collection s c r \<Longrightarrow> \<exists>q \<in> set (db_rows d'). in_collection s c q \<and> r_seq r \<le> r_seq q"
  shows "top_position s c d \<le> top_position s c d'"
proof -
  have "r_seq r \<le> top_position s c d'" if "r \<in> set (db_rows d)" "in_collection s c r" for r
    using assms[OF that] top_position_ge[of _ d' s c] by (meson order_trans)
  moreover have "0 \<le> top_position s c d'" unfolding top_position_def by (intro Max_ge) auto
  ultimately show ?thesis unfolding top_position_def[of s c d] by (subst Max_le_iff) auto
qed

lemma in_collection_row_id: "row_id q = row_id r \<Longrightarrow> in_collection s c q = in_collection s c r"
  by (simp add: row_id_def in_collection_def)

lemma commit_top:
  assumes "tx_ok E d t"
  shows "top_position s c d \<le> top_position s c (tx_commit t d)"
proof (rule top_position_mono)
  fix r assume r: "r \<in> set (db_rows d)" "in_collection s c r"
  have "distinct (map row_id (tx_rows t))" using assms by (simp add: tx_ok_def)
  note rows = set_overlay[OF this, of "db_rows d"]
  show "\<exists>q \<in> set (db_rows (tx_commit t d)). in_collection s c q \<and> r_seq r \<le> r_seq q"
  proof (cases "row_id r \<in> row_id ` set (tx_rows t)")
    case True
    then obtain q where q: "q \<in> set (tx_rows t)" "row_id r = row_id q" by auto
    then have "r_seq r < r_seq q" using assms r(1) by (auto simp: tx_ok_def)
    then show ?thesis using q r(2) in_collection_row_id[OF q(2)]
      by (intro bexI[of _ q]) (auto simp: tx_commit_def rows)
  next
    case False
    then show ?thesis using r by (intro bexI[of _ r]) (auto simp: tx_commit_def rows)
  qed
qed

text \<open>A commit that writes nothing in a collection leaves its rows as they are.\<close>

lemma filter_own_version:
  assumes "\<And>q. q \<in> set own \<Longrightarrow> \<not> in_collection s c q"
  shows "filter (in_collection s c) (map (own_version own) rows) = filter (in_collection s c) rows"
proof (induction rows)
  case (Cons r rows)
  have "own_version own r = r" if "in_collection s c r"
  proof -
    have "row_id r \<notin> row_id ` set own" using assms that in_collection_row_id by (metis imageE)
    then show ?thesis by (rule own_version_absent)
  qed
  with Cons in_collection_row_id[OF row_id_own_version[of own r], of s c] show ?case by auto
qed simp

lemma commit_collection:
  assumes "\<And>q. q \<in> set (tx_rows t) \<Longrightarrow> \<not> in_collection s c q"
  shows "filter (in_collection s c) (db_rows (tx_commit t d)) = filter (in_collection s c) (db_rows d)"
  using assms filter_own_version[of "tx_rows t" s c] by (simp add: tx_commit_def overlay_def filter_empty_conv)

section \<open>What may have happened since a validator was given\<close>

text \<open>Since a state whose top position was \<open>n\<close> and behind which nothing was open: either nothing was
  committed in the collection, or its top position is higher.\<close>

definition since :: "env \<Rightarrow> source_name \<Rightarrow> collection_name \<Rightarrow> db \<Rightarrow> cluster \<Rightarrow> bool" where
  "since E s c d0 cl \<longleftrightarrow>
     cluster_ok E cl \<and> no_position_passed s c (top_position s c d0) (snd cl) \<and>
     top_position s c d0 \<le> top_position s c (fst cl) \<and>
     (top_position s c (fst cl) = top_position s c d0 \<longrightarrow>
        filter (in_collection s c) (db_rows (fst cl)) = filter (in_collection s c) (db_rows d0))"

lemma cluster_step_top:
  assumes "cluster_step E cl cl'" "env_ok E" "cluster_ok E cl"
  shows "top_position s c (fst cl) \<le> top_position s c (fst cl')"
  using assms
proof (induction rule: cluster_step.induct)
  case (cluster_statement t oh rest d t' d' us vs)
  then obtain s' where "d' = d\<lparr>db_seq_last := s'\<rparr>"
    using statement_ok[OF cluster_statement.prems(1) _ _ cluster_statement.hyps(1,2)] by (auto simp: cluster_ok_def)
  then show ?case by (simp add: top_position_def)
next
  case (cluster_failed t oh rest d e d' us vs)
  then obtain s' where "d' = d\<lparr>db_seq_last := s'\<rparr>"
    using statement_ok[OF cluster_failed.prems(1) _ _ cluster_failed.hyps(1,2)] by (auto simp: cluster_ok_def)
  then show ?case by (simp add: top_position_def)
next
  case (cluster_commit t d us vs)
  then show ?case using commit_top[of E d t s c] by (simp add: cluster_ok_def)
qed (simp_all add: top_position_def)

text \<open>Every step but a commit leaves the committed rows alone, and what it adds to open transactions lies
  above every position given out so far.\<close>

lemma cluster_step_open:
  assumes "cluster_step E cl cl'" "env_ok E" "cluster_ok E cl" "no_position_passed s c n (snd cl)" "n \<le> db_seq_last (fst cl)"
  shows "no_position_passed s c n (snd cl')"
  using assms
proof (induction rule: cluster_step.induct)
  case (cluster_statement t oh rest d t' d' us vs)
  then have "db_ok E d" "tx_ok E d t" by (auto simp: cluster_ok_def)
  from statement_ok[OF cluster_statement.prems(1) this cluster_statement.hyps(1,2)]
  have "\<forall>q \<in> set (tx_rows t'). q \<in> set (tx_rows t) \<or> db_seq_last d < r_seq q" by auto
  with cluster_statement.prems show ?case by (fastforce simp: no_position_passed_def)
qed (auto simp: no_position_passed_def tx_begin_def)

lemma cluster_step_rows:
  assumes "cluster_step E (d, ts) (d', ts')" "env_ok E" "cluster_ok E (d, ts)"
  obtains "db_rows d' = db_rows d" | t where "t \<in> set ts" "d' = tx_commit t d"
  using assms(1)
proof (cases rule: cluster_step.cases)
  case (cluster_statement t oh rest t' us vs)
  with assms(3) have "db_ok E d" "tx_ok E d t" by (auto simp: cluster_ok_def)
  from statement_ok[OF assms(2) this cluster_statement(3,4)] that(1) show ?thesis by auto
next
  case (cluster_failed t oh rest e us vs)
  with assms(3) have "db_ok E d" "tx_ok E d t" by (auto simp: cluster_ok_def)
  from statement_ok[OF assms(2) this cluster_failed(3,4)] that(1) show ?thesis by auto
next
  case (cluster_commit t us vs)
  with that(2)[of t] show ?thesis by simp
qed (use that(1) in simp_all)

lemma since_step:
  assumes step: "cluster_step E cl cl'" and E: "env_ok E" and before: "since E s c d0 cl"
  shows "since E s c d0 cl'"
proof -
  obtain d ts d' ts' where cl: "cl = (d, ts)" "cl' = (d', ts')" by (cases cl; cases cl')
  let ?n = "top_position s c d0"
  have ok: "cluster_ok E (d, ts)" and held: "no_position_passed s c ?n ts" and n: "?n \<le> top_position s c d"
    using before by (simp_all add: since_def cl)
  have top: "top_position s c d \<le> top_position s c d'" using cluster_step_top[OF step E] ok by (simp add: cl)
  have "?n \<le> db_seq_last d" using n top_position_le[of E d s c] ok by (simp add: cluster_ok_def)
  then have held': "no_position_passed s c ?n ts'" using cluster_step_open[OF step E] ok held by (simp add: cl)
  have "filter (in_collection s c) (db_rows d') = filter (in_collection s c) (db_rows d0)" if at: "top_position s c d' = ?n"
  proof -
    have "top_position s c d = ?n" using at n top by simp
    then have same: "filter (in_collection s c) (db_rows d) = filter (in_collection s c) (db_rows d0)"
      using before by (simp add: since_def cl)
    from step[unfolded cl] E ok show ?thesis
    proof (cases rule: cluster_step_rows)
      case 1
      with same show ?thesis by simp
    next
      case (2 t)
      have "\<not> in_collection s c q" if q: "q \<in> set (tx_rows t)" for q
      proof
        assume in_c: "in_collection s c q"
        have "distinct (map row_id (tx_rows t))" using ok 2(1) by (auto simp: cluster_ok_def tx_ok_def)
        then have "q \<in> set (db_rows d')" using q by (simp add: 2(2) tx_commit_def set_overlay)
        from top_position_ge[OF this in_c] have "r_seq q \<le> ?n" by (simp add: at)
        with held 2(1) q in_c show False unfolding no_position_passed_def by fastforce
      qed
      from commit_collection[OF this] same show ?thesis by (simp add: 2(2))
    qed
  qed
  then show ?thesis using cluster_step_ok[OF step E] ok held' n top by (simp add: since_def cl)
qed

lemma since_steps: "(cluster_step E)\<^sup>*\<^sup>* cl cl' \<Longrightarrow> env_ok E \<Longrightarrow> since E s c d0 cl \<Longrightarrow> since E s c d0 cl'"
  by (induction rule: rtranclp_induct) (auto intro: since_step)

lemma cluster_steps_top:
  assumes "(cluster_step E)\<^sup>*\<^sup>* cl cl'" "env_ok E" "cluster_ok E cl"
  shows "top_position s c (fst cl) \<le> top_position s c (fst cl') \<and> cluster_ok E cl'"
  using assms(1)
proof (induction rule: rtranclp_induct)
  case (step a b)
  then show ?case using cluster_step_top[OF step.hyps(2) assms(2)] cluster_step_ok[OF step.hyps(2) assms(2)]
    by (meson order_trans)
qed (use assms(3) in simp)

section \<open>Validators over open transactions\<close>

definition open_chain :: "env \<Rightarrow> source_name \<Rightarrow> collection_name \<Rightarrow> db \<Rightarrow> db \<Rightarrow> db \<Rightarrow> bool" where
  "open_chain E s c d1 d2 d3 \<longleftrightarrow>
     db_ok E d1 \<and> db_ok E d2 \<and> db_ok E d3 \<and>
     top_position s c d1 \<le> top_position s c d2 \<and> top_position s c d2 \<le> top_position s c d3 \<and>
     (\<forall>d \<in> {d2, d3}. top_position s c d = top_position s c d1 \<longrightarrow>
        filter (in_collection s c) (db_rows d) = filter (in_collection s c) (db_rows d1))"

lemma position_or_zero_top:
  assumes "db_ok E d" "pg_max_seq s c d = Inr m"
  shows "uint (position_or_zero m) = top_position s c d"
  using assms top_range[OF assms(1), of s c]
  by (auto simp: pg_max_seq_top[OF assms(1)] position_or_zero_def uint_position split: if_splits)

interpretation open_tx: cached_reads "postgres_store E" "open_chain E" for E
proof
  fix source collection d1 d2 d3 m1 m3 flt after b
  assume ch: "open_chain E source collection d1 d2 d3"
    and m: "st_max_seq (postgres_store E) source collection d1 = Inr m1"
      "st_max_seq (postgres_store E) source collection d3 = Inr m3"
    and eq: "position_or_zero m1 = position_or_zero m3"
  have ok: "db_ok E d1" "db_ok E d2" "db_ok E d3" using ch by (simp_all add: open_chain_def)
  have "top_position source collection d3 = top_position source collection d1"
    using position_or_zero_top[OF ok(1)] position_or_zero_top[OF ok(3)] m eq by fastforce
  moreover from this ch have "top_position source collection d2 = top_position source collection d1"
    by (simp add: open_chain_def)
  ultimately have rows: "filter (in_collection source collection) (db_rows d3) = filter (in_collection source collection) (db_rows d2)"
    and tops: "top_position source collection d3 = top_position source collection d2"
      "top_position source collection d3 = top_position source collection d1"
    using ch by (simp_all add: open_chain_def)
  have seq: "pg_max_seq source collection d3 = pg_max_seq source collection d2"
    "pg_max_seq source collection d3 = pg_max_seq source collection d1"
    using tops max_seq_eq_iff ok by blast+
  then have "m3 = m1" using m by simp
  with same_rows_same_reads[OF rows seq(1)]
  show "m3 = m1 \<and>
    st_list (postgres_store E) source collection flt after b d3 = st_list (postgres_store E) source collection flt after b d2 \<and>
    st_changes (postgres_store E) source collection after b d3 = st_changes (postgres_store E) source collection after b d2 \<and>
    st_manifest (postgres_store E) source collection d3 = st_manifest (postgres_store E) source collection d2"
    by simp
qed

lemma cluster_open_chain:
  assumes E: "env_ok E" and ok: "cluster_ok E (d1, ts1)" and behind: "no_position_passed s c (top_position s c d1) ts1"
    and runs: "(cluster_step E)\<^sup>*\<^sup>* (d1, ts1) (d2, ts2)" "(cluster_step E)\<^sup>*\<^sup>* (d2, ts2) (d3, ts3)"
  shows "open_chain E s c d1 d2 d3"
proof -
  have start: "since E s c d1 (d1, ts1)" using ok behind by (simp add: since_def)
  have s2: "since E s c d1 (d2, ts2)" by (rule since_steps[OF runs(1) E start])
  have s3: "since E s c d1 (d3, ts3)" by (rule since_steps[OF runs(2) E s2])
  have "top_position s c d2 \<le> top_position s c d3"
    using cluster_steps_top[OF runs(2) E] s2 by (simp add: since_def)
  with s2 s3 ok show ?thesis by (auto simp: open_chain_def since_def cluster_ok_def)
qed


section \<open>With and without the condition\<close>

definition ask_changes :: "rstr option \<Rightarrow> db \<Rightarrow> api_error + response" where
  "ask_changes inm d = changes sample_env sample_api (lit ''erp'') (lit ''products'')
     (Inr \<lparr>cq_since = None, cq_limit = None\<rparr>) inm d d"

definition first_committed :: db where "first_committed = tx_commit (item_txn ''A'' 1) both_open"
definition second_committed :: db where "second_committed = tx_commit (item_txn ''B'' 2) both_open"

lemma commits_reached:
  "(cluster_step sample_env)\<^sup>*\<^sup>* (empty_db 7, []) (first_committed, [item_txn ''B'' 2])"
  "(cluster_step sample_env)\<^sup>*\<^sup>* (empty_db 7, []) (second_committed, [item_txn ''A'' 1])"
  using both_open_run item_commits[of both_open "[]" "''A''" 1 "[item_txn ''B'' 2]"]
    item_commits[of both_open "[item_txn ''A'' 1]" "''B''" 2 "[]"]
  by (auto simp: first_committed_def second_committed_def intro: rtranclp.rtrancl_into_rtrancl)


text \<open>Position 2 is committed first: the validator says 2, stays 2 when position 1 is committed, and the client
  is told that nothing has changed while a record has appeared.\<close>

lemma late_commit_is_hidden:
  "(cluster_step sample_env)\<^sup>*\<^sup>* (empty_db 7, []) (second_committed, [item_txn ''A'' 1]) \<and>
   cluster_step sample_env (second_committed, [item_txn ''A'' 1]) (tx_commit (item_txn ''A'' 1) second_committed, []) \<and>
   (case ask_changes None second_committed of Inl _ \<Rightarrow> False
    | Inr r \<Rightarrow>
        rs_status (respond (ask_changes (rs_etag r) (tx_commit (item_txn ''A'' 1) second_committed))) = 304 \<and>
        ask_changes None (tx_commit (item_txn ''A'' 1) second_committed) \<noteq> Inr r)"
proof (intro conjI)
  show "(cluster_step sample_env)\<^sup>*\<^sup>* (empty_db 7, []) (second_committed, [item_txn ''A'' 1])" by (rule commits_reached(2))
  show "cluster_step sample_env (second_committed, [item_txn ''A'' 1]) (tx_commit (item_txn ''A'' 1) second_committed, [])"
    using item_commits[of second_committed "[]" "''A''" 1 "[]"] by simp
  show "(case ask_changes None second_committed of Inl _ \<Rightarrow> False
    | Inr r \<Rightarrow>
        rs_status (respond (ask_changes (rs_etag r) (tx_commit (item_txn ''A'' 1) second_committed))) = 304 \<and>
        ask_changes None (tx_commit (item_txn ''A'' 1) second_committed) \<noteq> Inr r)"
    by code_simp
qed

end
