(* ===== verification/Serial_Batches.thy ===== *)
theory Serial_Batches
  imports Concurrent_Reads
begin

text \<open>
  Isolation of batches. Statements of several batches interleave, but what is committed is what the batches
  make of the collections one after another, in the order of their commits: the locks of
  \<open>Transactions\<close> keep the rows a batch has looked at as they were. A delete that finds nothing locks
  nothing, and is the one statement this does not hold for.
\<close>

section \<open>Batches in the order of their commits\<close>

text \<open>What the collections hold, and the committed batches carried out on it one by one: for each batch, which of
  its operations changed something.\<close>

type_synonym contents = "source_name \<Rightarrow> collection_name \<Rightarrow> content"

definition contents_of :: "db \<Rightarrow> contents" where
  "contents_of d = (\<lambda>s c. live s c d)"

fun serial :: "env \<Rightarrow> txn list \<Rightarrow> contents \<Rightarrow> bool list list \<times> contents" where
  "serial E [] M = ([], M)"
| "serial E (t # ts) M =
     (let (changes, m) = spec_batch E (tx_done t) (M (tx_source t) (tx_collection t));
          (rest, M') = serial E ts (M(tx_source t := (M (tx_source t))(tx_collection t := m)))
      in (changes # rest, M'))"

text \<open>What the sender of a batch is told: for each operation, whether it changed something.\<close>

definition told :: "txn \<Rightarrow> bool list" where
  "told t = map (\<lambda>a. applied_seq a \<noteq> None) (tx_outcomes t)"

text \<open>Every delete of the batch found a live record.\<close>

fun delete_missed :: "ingest_op \<times> applied \<Rightarrow> bool" where
  "delete_missed (OpDelete _, AUnchanged) = True"
| "delete_missed _ = False"

definition deletes_hit :: "txn \<Rightarrow> bool" where
  "deletes_hit t \<longleftrightarrow> (\<forall>oa \<in> set (zip (tx_done t) (tx_outcomes t)). \<not> delete_missed oa)"

text \<open>A run of the cluster with the batches it has committed. A step that is not logged leaves the committed rows
  alone: a commit with nothing to write is the same step as an abort, and may be read as either.\<close>

inductive history :: "env \<Rightarrow> db \<Rightarrow> txn list \<Rightarrow> cluster \<Rightarrow> bool" for E d0 where
  history_start: "history E d0 [] (d0, [])"
| history_commit: "history E d0 log (d, us @ t # vs) \<Longrightarrow> tx_pending t = [] \<Longrightarrow>
    history E d0 (log @ [t]) (tx_commit t d, us @ vs)"
| history_quiet: "history E d0 log cl \<Longrightarrow> cluster_step E cl cl' \<Longrightarrow> db_rows (fst cl') = db_rows (fst cl) \<Longrightarrow>
    history E d0 log cl'"

lemma history_reachable: "history E d0 log cl \<Longrightarrow> (cluster_step E)\<^sup>*\<^sup>* (d0, []) cl"
proof (induction rule: history.induct)
  case (history_commit log d us t vs)
  show ?case by (rule rtranclp.rtrancl_into_rtrancl[OF history_commit.IH cluster_commit[OF history_commit.hyps(2)]])
qed (auto intro: rtranclp.rtrancl_into_rtrancl)

text \<open>Until it is committed a statement is seen by its own transaction alone.\<close>

lemma statement_leaves_rows: "tx_statement E oh t d = (r, d') \<Longrightarrow> db_rows d' = db_rows d"
  by (auto simp: tx_statement_def Let_def split: prod.splits sum.splits)

lemma cluster_step_logged: "cluster_step E cl cl' \<Longrightarrow> history E d0 log cl \<Longrightarrow> \<exists>log'. history E d0 log' cl'"
proof (induction rule: cluster_step.induct)
  case (cluster_begin source collection ops hashed d ts)
  with history_quiet[OF cluster_begin.prems cluster_step.cluster_begin[OF cluster_begin.hyps]] show ?case by auto
next
  case (cluster_statement t oh rest d t' d' us vs)
  with history_quiet[OF cluster_statement.prems cluster_step.cluster_statement[OF cluster_statement.hyps]]
    statement_leaves_rows show ?case by fastforce
next
  case (cluster_failed t oh rest d e d' us vs)
  with history_quiet[OF cluster_failed.prems cluster_step.cluster_failed[OF cluster_failed.hyps]]
    statement_leaves_rows show ?case by fastforce
next
  case (cluster_commit t d us vs)
  then show ?case using history_commit by blast
next
  case (cluster_abort d us t vs)
  with history_quiet[OF cluster_abort.prems cluster_step.cluster_abort] show ?case by auto
next
  case (cluster_clock d ts n)
  with history_quiet[OF cluster_clock.prems cluster_step.cluster_clock] show ?case by auto
qed

text \<open>Every state the cluster reaches has a history.\<close>

lemma reachable_history: "(cluster_step E)\<^sup>*\<^sup>* (d0, []) cl \<Longrightarrow> \<exists>log. history E d0 log cl"
  by (induction rule: rtranclp_induct) (blast intro: history_start dest: cluster_step_logged)+

section \<open>Facts about the abstract batch\<close>

lemma spec_batch_snoc:
  "spec_batch E (ops @ [op]) m =
     (let (changes, m') = spec_batch E ops m
      in (changes @ [spec_changes E op m'],
          if spec_changes E op m' then m'(id_str (op_id op) := spec_content E op) else m'))"
  by (induction ops arbitrary: m) (auto simp: Let_def split: prod.splits)

lemma spec_changes_local: "m (id_str (op_id op)) = m' (id_str (op_id op)) \<Longrightarrow> spec_changes E op m = spec_changes E op m'"
  by (cases op) simp_all

text \<open>A batch reads and writes only the ids it names.\<close>

lemma spec_batch_local:
  assumes "\<forall>i \<in> I. m i = m' i" and "\<forall>op \<in> set ops. id_str (op_id op) \<in> I"
  shows "fst (spec_batch E ops m') = fst (spec_batch E ops m) \<and>
    (\<forall>i. snd (spec_batch E ops m') i = (if i \<in> I then snd (spec_batch E ops m) i else m' i))"
  using assms
proof (induction ops arbitrary: m m')
  case (Cons op ops)
  let ?i = "id_str (op_id op)"
  let ?step = "\<lambda>m. if spec_changes E op m then m(?i := spec_content E op) else m"
  have same: "spec_changes E op m' = spec_changes E op m" using Cons.prems by (intro spec_changes_local) simp
  have i: "?i \<in> I" using Cons.prems(2) by simp
  have "\<forall>i \<in> I. ?step m i = ?step m' i" using Cons.prems(1) same by simp
  moreover have "\<forall>op \<in> set ops. id_str (op_id op) \<in> I" using Cons.prems(2) by simp
  moreover have "i \<notin> I \<Longrightarrow> ?step m' i = m' i" for i using i by auto
  ultimately show ?case using Cons.IH[of "?step m" "?step m'"] same i by (auto simp: Let_def split_beta)
qed simp

section \<open>What an open transaction has done\<close>

lemma find_append: "find P (xs @ ys) = (case find P xs of Some x \<Rightarrow> Some x | None \<Rightarrow> find P ys)"
  by (induction xs) auto

lemma find_own_version: "find (\<lambda>r. row_id r = k) (map (own_version own) rows) =
    map_option (own_version own) (find (\<lambda>r. row_id r = k) rows)"
  by (induction rows) auto

lemma find_overlay:
  "find (\<lambda>r. row_id r = k) (overlay own rows) =
     (case find (\<lambda>r. row_id r = k) own of Some q \<Rightarrow> Some q | None \<Rightarrow> find (\<lambda>r. row_id r = k) rows)"
proof (cases "k \<in> row_id ` set rows")
  case True
  then obtain r where r: "find (\<lambda>r. row_id r = k) rows = Some r" "row_id r = k"
    by (cases "find (\<lambda>r. row_id r = k) rows") (auto simp: find_None_iff dest: find_SomeD)
  then have "find (\<lambda>r. row_id r = k) (overlay own rows) = Some (own_version own r)"
    by (simp add: overlay_def find_append find_own_version)
  with r show ?thesis by (simp add: own_version_def split: option.splits)
next
  case False
  then have rows: "find (\<lambda>r. row_id r = k) rows = None" by (auto simp: find_None_iff)
  have "find (\<lambda>r. row_id r = k) (filter (\<lambda>q. row_id q \<notin> row_id ` set rows) own) = find (\<lambda>r. row_id r = k) own"
    using False by (induction own) auto
  with rows show ?thesis by (simp add: overlay_def find_append find_own_version split: option.splits)
qed

lemma live_overlay:
  "live s c (d\<lparr>db_rows := overlay own (db_rows d)\<rparr>) i =
     (case find (\<lambda>r. row_id r = (source_str s, collection_str c, i)) own of
        Some q \<Rightarrow> row_content q | None \<Rightarrow> live s c d i)"
  by (simp add: live_def in_collection_id find_overlay split: option.splits)

lemma live_view: "live s c (tx_view t d) = live s c (tx_commit t d)"
  by (simp add: fun_eq_iff live_def tx_view_def tx_commit_def)

lemma live_commit_other:
  "(source_str s, collection_str c, i) \<notin> row_id ` set (tx_rows t) \<Longrightarrow> live s c (tx_commit t d) i = live s c d i"
proof -
  assume "(source_str s, collection_str c, i) \<notin> row_id ` set (tx_rows t)"
  then have "find (\<lambda>r. row_id r = (source_str s, collection_str c, i)) (tx_rows t) = None"
    by (auto simp: find_None_iff rev_image_eqI)
  then show ?thesis by (simp add: tx_commit_def live_overlay)
qed

text \<open>Its rows lie in its collection, and if its deletes have hit, it has locked every id it has named and
  what it sees is what its statements make of what is committed, whatever else was committed since.\<close>

definition batch_locked :: "txn \<Rightarrow> bool" where
  "batch_locked t \<longleftrightarrow>
     (\<forall>op \<in> set (tx_done t). (source_str (tx_source t), collection_str (tx_collection t), id_str (op_id op)) \<in> set (tx_locks t))"

definition tx_follows :: "env \<Rightarrow> db \<Rightarrow> txn \<Rightarrow> bool" where
  "tx_follows E d t \<longleftrightarrow>
     length (tx_done t) = length (tx_outcomes t) \<and>
     (\<forall>q \<in> set (tx_rows t). in_collection (tx_source t) (tx_collection t) q) \<and>
     (deletes_hit t \<longrightarrow> batch_locked t \<and>
        spec_batch E (tx_done t) (live (tx_source t) (tx_collection t) d) =
          (told t, live (tx_source t) (tx_collection t) (tx_view t d)))"

lemma tx_follows_begin: "tx_follows E d (tx_begin source collection hashed d)"
  by (simp add: tx_follows_def tx_begin_def batch_locked_def told_def tx_view_def live_def fun_eq_iff)

lemma tx_follows_seq [simp]: "tx_follows E (d\<lparr>db_seq_last := s\<rparr>) t = tx_follows E d t"
proof -
  have "tx_view t (d\<lparr>db_seq_last := s\<rparr>) = (tx_view t d)\<lparr>db_seq_last := s\<rparr>" by (simp add: tx_view_def)
  then show ?thesis by (simp add: tx_follows_def)
qed

lemma tx_follows_clock: "tx_follows E (d\<lparr>db_now := n\<rparr>) t = tx_follows E d t"
proof -
  have "tx_view t (d\<lparr>db_now := n\<rparr>) = tx_view t d" by (simp add: tx_view_def)
  moreover have "live s c (d\<lparr>db_now := n\<rparr>) = live s c d" for s c by (simp add: live_def fun_eq_iff)
  ultimately show ?thesis by (simp add: tx_follows_def)
qed

text \<open>One more statement: what it was told and what it left are the abstract operation on what it saw.\<close>

lemma tx_follows_after:
  assumes t: "tx_follows E d t" and ok: "db_ok E (tx_view t d)"
    and step: "op_step E (tx_source t) (tx_collection t) op (tx_view t d) a (tx_view (after_statement op a w t) d')"
    and w: "\<forall>new. w = Some new \<longrightarrow> op_row E (op_key (tx_source t) (tx_collection t) op) op new"
    and rows: "db_rows d' = db_rows d" and silent: "w = None \<longrightarrow> a = AUnchanged"
  shows "tx_follows E d' (after_statement op a w t)"
proof -
  let ?s = "tx_source t" and ?c = "tx_collection t" and ?t = "after_statement op a w t"
  have names: "tx_source ?t = ?s" "tx_collection ?t = ?c" "tx_done ?t = tx_done t @ [op]"
      "tx_outcomes ?t = tx_outcomes t @ [a]"
    by (simp_all add: after_statement_def)
  have len: "length (tx_done t) = length (tx_outcomes t)" using t by (simp add: tx_follows_def)
  have placed: "\<forall>q \<in> set (tx_rows ?t). in_collection ?s ?c q"
    using t w op_row_at by (cases w) (auto simp: tx_follows_def after_statement_def set_put_row)
  have "batch_locked ?t \<and> spec_batch E (tx_done ?t) (live ?s ?c d') = (told ?t, live ?s ?c (tx_view ?t d'))"
    if hit: "deletes_hit ?t"
  proof
    have "deletes_hit t" and last: "\<not> delete_missed (op, a)"
      using hit len by (simp_all add: deletes_hit_def names)
    with t have locked: "batch_locked t"
      and so_far: "spec_batch E (tx_done t) (live ?s ?c d) = (told t, live ?s ?c (tx_view t d))"
      by (simp_all add: tx_follows_def)
    have "(source_str ?s, collection_str ?c, id_str (op_id op)) \<in> set (op_lock t op w)"
    proof (cases op)
      case (OpDelete i)
      with last silent obtain new where new: "w = Some new" by (cases w) auto
      with w op_row_at[of E ?s ?c op new] in_collection_id[of ?s ?c new "id_str (op_id op)"]
      show ?thesis by (simp add: op_lock_def OpDelete)
    qed (simp add: op_lock_def key_row_id_def record_key_new_def)
    with locked show "batch_locked ?t" by (auto simp: batch_locked_def after_statement_def)
    have "live ?s ?c d' = live ?s ?c d" by (simp add: live_def fun_eq_iff rows)
    then show "spec_batch E (tx_done ?t) (live ?s ?c d') = (told ?t, live ?s ?c (tx_view ?t d'))"
      using op_step_spec[OF ok step] so_far by (simp add: names spec_batch_snoc told_def)
  qed
  with len placed show ?thesis by (simp add: tx_follows_def names)
qed

lemma tx_follows_statement:
  assumes E: "env_ok E" and ok: "db_ok E d" and t: "tx_ok E d t" "tx_follows E d t"
    and pending: "tx_pending t = oh # rest" and res: "tx_statement E oh t d = (Inr t', d')"
  shows "tx_follows E d' t'"
proof -
  have op: "source_ok (tx_source t)" "collection_ok (tx_collection t)" "op_ok (fst oh)" "hash_op E (fst oh) = Inr oh"
    using t(1) pending by (simp_all add: tx_ok_def tx_valid_def)
  have view: "db_ok E (tx_view t d)" by (rule db_ok_view[OF ok t(1)])
  note stepped = apply_op_op_step[OF E view op]
  from E view op res show ?thesis
  proof (cases rule: tx_statement_cases)
    case (unchanged a s)
    have "op_step E (tx_source t) (tx_collection t) (fst oh) (tx_view t d) a (tx_view (after_statement (fst oh) a None t) d')"
      using stepped[OF unchanged(5)] by (simp add: unchanged(2) tx_view_after)
    moreover from stepped[OF unchanged(5)] have "a = AUnchanged"
    proof cases
      case (op_changed new)
      from arg_cong[OF op_changed(2), of db_rows]
      have "db_rows (tx_view t d) = put_row new (db_rows (tx_view t d))" by (simp add: put_def)
      moreover have "new \<in> set (put_row new (db_rows (tx_view t d)))" by (simp add: set_put_row)
      ultimately have "new \<in> set (db_rows (tx_view t d))" by metis
      with op_changed view show ?thesis by (auto simp: db_ok_def)
    qed simp
    ultimately show ?thesis using tx_follows_after[OF t(2) view, of "fst oh" a None d'] unchanged(1,2) by simp
  next
    case (changed a new)
    have "op_step E (tx_source t) (tx_collection t) (fst oh) (tx_view t d) a (tx_view (after_statement (fst oh) a (Some new) t) d')"
      using stepped[OF changed(6)] by (simp add: changed(2) tx_view_after)
    then show ?thesis using tx_follows_after[OF t(2) view, of "fst oh" a "Some new" d'] changed(1,2,5) by simp
  qed simp
qed

section \<open>A commit beside it\<close>

text \<open>A commit changes its own collection at the ids it has locked, and nothing else.\<close>

lemma commit_elsewhere:
  assumes "tx_follows E d u" "(s, c) \<noteq> (tx_source u, tx_collection u)"
  shows "live s c (tx_commit u d) = live s c d"
proof
  fix i
  have "\<not> in_collection s c q" if "q \<in> set (tx_rows u)" for q
  proof -
    have "in_collection (tx_source u) (tx_collection u) q" using assms(1) that by (simp add: tx_follows_def)
    with assms(2) show ?thesis by (cases s; cases c; cases "tx_source u"; cases "tx_collection u") (auto simp: in_collection_def)
  qed
  then show "live s c (tx_commit u d) i = live s c d i"
    by (intro live_commit_other) (metis imageE in_collection_id)
qed

lemma commit_unlocked:
  assumes "tx_ok E d u" "apart t u" "(source_str s, collection_str c, i) \<in> set (tx_locks t)"
  shows "live s c (tx_commit u d) i = live s c d i"
  using assms by (intro live_commit_other) (auto simp: tx_ok_def apart_def)

lemma tx_follows_commit:
  assumes t: "tx_ok E d t" "tx_follows E d t" and u: "tx_ok E d u" and away: "apart t u"
  shows "tx_follows E (tx_commit u d) t"
proof -
  let ?s = "tx_source t" and ?c = "tx_collection t" and ?d = "tx_commit u d"
  let ?I = "{i. (source_str ?s, collection_str ?c, i) \<in> set (tx_locks t)}"
  have "spec_batch E (tx_done t) (live ?s ?c ?d) = (told t, live ?s ?c (tx_view t ?d))" if hit: "deletes_hit t"
  proof (rule prod_eqI)
    have locked: "\<forall>op \<in> set (tx_done t). id_str (op_id op) \<in> ?I"
      and so_far: "spec_batch E (tx_done t) (live ?s ?c d) = (told t, live ?s ?c (tx_view t d))"
      using t(2) hit by (simp_all add: tx_follows_def batch_locked_def)
    have same: "\<forall>i \<in> ?I. live ?s ?c d i = live ?s ?c ?d i" using commit_unlocked[OF u away] by simp
    note local = spec_batch_local[OF same locked, of E, unfolded so_far fst_conv snd_conv]
    then show "fst (spec_batch E (tx_done t) (live ?s ?c ?d)) = fst (told t, live ?s ?c (tx_view t ?d))" by simp
    have "live ?s ?c (tx_view t ?d) i = (if i \<in> ?I then live ?s ?c (tx_view t d) i else live ?s ?c ?d i)" for i
    proof (cases "i \<in> ?I")
      case True
      with same show ?thesis by (simp add: live_view tx_commit_def [of t] live_overlay split: option.splits)
    next
      case False
      then have "(source_str ?s, collection_str ?c, i) \<notin> row_id ` set (tx_rows t)" using t(1) by (auto simp: tx_ok_def)
      with False show ?thesis by (simp add: live_view live_commit_other)
    qed
    then show "snd (spec_batch E (tx_done t) (live ?s ?c ?d)) = snd (told t, live ?s ?c (tx_view t ?d))"
      using local by (simp add: fun_eq_iff)
  qed
  then show ?thesis using t(2) by (simp add: tx_follows_def)
qed

lemma cluster_step_follows:
  assumes "cluster_step E cl cl'" "env_ok E" "cluster_ok E cl" "\<forall>t \<in> set (snd cl). tx_follows E (fst cl) t"
  shows "\<forall>t \<in> set (snd cl'). tx_follows E (fst cl') t"
  using assms
proof (induction rule: cluster_step.induct)
  case (cluster_begin source collection ops hashed d ts)
  then show ?case using tx_follows_begin by auto
next
  case (cluster_statement t oh rest d t' d' us vs)
  then have ok: "db_ok E d" "tx_ok E d t" and t: "tx_follows E d t" by (auto simp: cluster_ok_def)
  from statement_ok[OF cluster_statement.prems(1) ok cluster_statement.hyps(1,2)] obtain s where "d' = d\<lparr>db_seq_last := s\<rparr>"
    by auto
  with tx_follows_statement[OF cluster_statement.prems(1) ok t cluster_statement.hyps(1,2)] cluster_statement.prems(3)
  show ?case by auto
next
  case (cluster_failed t oh rest d e d' us vs)
  then have ok: "db_ok E d" "tx_ok E d t" by (auto simp: cluster_ok_def)
  from statement_ok[OF cluster_failed.prems(1) ok cluster_failed.hyps(1,2)] obtain s where "d' = d\<lparr>db_seq_last := s\<rparr>"
    by auto
  with cluster_failed.prems(3) show ?case by auto
next
  case (cluster_commit t d us vs)
  have ok: "tx_ok E d t" "\<forall>u \<in> set (us @ vs). tx_ok E d u \<and> apart t u"
    using cluster_commit.prems(2) unfolding cluster_ok_def snd_conv fst_conv apart_middle by auto
  then have "tx_follows E (tx_commit t d) u" if "u \<in> set (us @ vs)" for u
    using that cluster_commit.prems(3) tx_follows_commit[of E d u t] apart_sym[of t u] by auto
  then show ?case by simp
next
  case (cluster_clock d ts n)
  then show ?case by (simp add: tx_follows_clock)
qed simp

section \<open>Commit order is a serial order\<close>

lemma serial_snoc:
  "serial E (ts @ [t]) M =
     (let (told, M') = serial E ts M;
          (changes, m) = spec_batch E (tx_done t) (M' (tx_source t) (tx_collection t))
      in (told @ [changes], M'(tx_source t := (M' (tx_source t))(tx_collection t := m))))"
  by (induction ts arbitrary: M) (auto simp: Let_def split: prod.splits)

lemma history_serial:
  assumes "history E d0 log cl" "env_ok E" "db_ok E d0" "\<forall>t \<in> set log. deletes_hit t"
  shows "cluster_ok E cl \<and> (\<forall>t \<in> set (snd cl). tx_follows E (fst cl) t) \<and>
    serial E log (contents_of d0) = (map told log, contents_of (fst cl))"
  using assms
proof (induction rule: history.induct)
  case history_start
  then show ?case by (simp add: cluster_ok_def)
next
  case (history_commit log d us t vs)
  then have IH: "cluster_ok E (d, us @ t # vs)" "\<forall>t \<in> set (us @ t # vs). tx_follows E d t"
      "serial E log (contents_of d0) = (map told log, contents_of d)" and hit: "deletes_hit t"
    by simp_all
  let ?d = "tx_commit t d"
  note step = cluster_commit[OF history_commit.hyps(2), of E d us vs]
  have t: "tx_follows E d t" using IH(2) by simp
  then have batch: "spec_batch E (tx_done t) (live (tx_source t) (tx_collection t) d) =
      (told t, live (tx_source t) (tx_collection t) ?d)"
    using hit by (simp add: tx_follows_def live_view)
  have "(contents_of d)(tx_source t := (contents_of d (tx_source t))(tx_collection t := live (tx_source t) (tx_collection t) ?d)) =
      contents_of ?d"
    using commit_elsewhere[OF t] by (auto simp: contents_of_def fun_eq_iff)
  moreover have "\<forall>u \<in> set (us @ vs). tx_follows E ?d u"
    using cluster_step_follows[OF step history_commit.prems(1) IH(1)] IH(2) by simp
  moreover have "spec_batch E (tx_done t) (contents_of d (tx_source t) (tx_collection t)) =
      (told t, live (tx_source t) (tx_collection t) ?d)"
    using batch by (simp add: contents_of_def)
  ultimately show ?case using cluster_step_ok[OF step history_commit.prems(1) IH(1)] IH(3)
    by (simp add: serial_snoc)
next
  case (history_quiet log cl cl')
  then have IH: "cluster_ok E cl" "\<forall>t \<in> set (snd cl). tx_follows E (fst cl) t"
      "serial E log (contents_of d0) = (map told log, contents_of (fst cl))"
    by simp_all
  have "contents_of (fst cl') = contents_of (fst cl)"
    using history_quiet.hyps(3) by (simp add: contents_of_def live_def fun_eq_iff)
  then show ?case
    using IH cluster_step_ok[OF history_quiet.hyps(2) history_quiet.prems(1)]
      cluster_step_follows[OF history_quiet.hyps(2) history_quiet.prems(1)] by simp
qed

text \<open>A statement moves the head of what is pending to what is done, so that at the commit the batch carried out is the
  batch sent.\<close>

lemma statement_keeps_batch:
  assumes "tx_pending t = oh # rest" "tx_statement E oh t d = (Inr t', d')"
  shows "tx_done t' @ map fst (tx_pending t') = tx_done t @ map fst (tx_pending t)"
  using assms by (auto simp: tx_statement_def Let_def split: prod.splits sum.splits)

text \<open>C3: Batches are isolated: however the statements of several senders interleave, with aborts and failures among
  them, the committed collections hold what the committed batches make of them one after another, in
  the order of their commits, and every sender was told what this serial execution tells it - provided no
  delete of a committed batch came upon an id without a live record.\<close>

theorem committed_batches_are_serial:
  assumes "env_ok E" and "db_ok E d0" and "history E d0 log (d, ts)" and "\<And>t. t \<in> set log \<Longrightarrow> deletes_hit t"
  shows "serial E log (\<lambda>s c. live s c d0) = (map told log, \<lambda>s c. live s c d)"
  using history_serial[OF assms(3,1,2)] assms(4) by (simp add: contents_of_def)

section \<open>Two senders, and a delete that finds nothing\<close>

text \<open>A schedule: each number picks the transaction whose turn it is. It commits if nothing is pending, and runs its
  next statement otherwise; the schedule ends early where the statement fails or has to wait.\<close>

definition scheduled_step :: "env \<Rightarrow> nat \<Rightarrow> txn list \<times> cluster \<Rightarrow> (txn list \<times> cluster) option" where
  "scheduled_step E i st =
     (let (log, d, ts) = st
      in case drop i ts of
           [] \<Rightarrow> None
         | t # vs \<Rightarrow>
             (case tx_pending t of
                [] \<Rightarrow> Some (log @ [t], tx_commit t d, take i ts @ vs)
              | oh # _ \<Rightarrow>
                  (case tx_statement E oh t d of
                     (Inl _, _) \<Rightarrow> None
                   | (Inr t', d') \<Rightarrow>
                       if lock_free (take i ts @ vs) t t' then Some (log, d', take i ts @ t' # vs) else None)))"

fun schedule :: "env \<Rightarrow> nat list \<Rightarrow> txn list \<times> cluster \<Rightarrow> (txn list \<times> cluster) option" where
  "schedule E [] st = Some st"
| "schedule E (i # is) st = Option.bind (scheduled_step E i st) (schedule E is)"

lemma scheduled_step_history:
  assumes "scheduled_step E i (log, cl) = Some (log', cl')" "history E d0 log cl"
  shows "history E d0 log' cl'"
proof -
  obtain d ts where cl: "cl = (d, ts)" by (cases cl)
  obtain t vs where drop: "drop i ts = t # vs" using assms(1) by (auto simp: scheduled_step_def cl split: list.splits)
  then have ts: "ts = take i ts @ t # vs" using append_take_drop_id[of i ts] by simp
  note res = assms(1)[unfolded scheduled_step_def cl Let_def prod.case drop list.case]
  from assms(2) have before: "history E d0 log (d, take i ts @ t # vs)" using ts by (simp add: cl)
  show ?thesis
  proof (cases "tx_pending t")
    case Nil
    with res history_commit[OF before Nil] show ?thesis by simp
  next
    case (Cons oh rest)
    then obtain t' d' where st: "tx_statement E oh t d = (Inr t', d')" "lock_free (take i ts @ vs) t t'"
        and after: "log' = log" "cl' = (d', take i ts @ t' # vs)"
      using res by (auto split: prod.splits sum.splits if_splits)
    from history_quiet[OF before cluster_statement[OF Cons st]] statement_leaves_rows[OF st(1)] show ?thesis
      by (simp add: after)
  qed
qed

lemma schedule_history:
  "schedule E is (log, cl) = Some (log', cl') \<Longrightarrow> history E d0 log cl \<Longrightarrow> history E d0 log' cl'"
proof (induction "is" arbitrary: log cl)
  case (Cons i "is")
  then show ?case using scheduled_step_history[of E i log cl] by (fastforce split: bind_splits)
qed simp

lemma begun_history:
  assumes "list_all (\<lambda>t. \<exists>ops hashed source collection.
      t = tx_begin source collection hashed d \<and> source_ok source \<and> collection_ok collection \<and>
      list_all op_ok ops \<and> traverse (hash_op E) ops = Inr hashed) ts"
  shows "history E d [] (d, ts)"
  using assms
proof (induction ts rule: rev_induct)
  case (snoc t ts)
  then have "cluster_step E (d, ts) (d, ts @ [t])" by (auto intro: cluster_begin)
  with snoc history_quiet[of E d "[]" "(d, ts)" "(d, ts @ [t])"] show ?case by simp
qed (rule history_start)

definition item_op :: "string \<Rightarrow> string \<Rightarrow> ingest_op" where
  "item_op i s = OpUpsert (RecordId (lit i)) (item s)"

definition begun :: "ingest_op list \<Rightarrow> txn" where
  "begun ops = tx_begin erp products (case traverse (hash_op sample_env) ops of Inr hashed \<Rightarrow> hashed | Inl _ \<Rightarrow> []) (empty_db 7)"

definition first_batch :: "ingest_op list" where
  "first_batch = [item_op ''X'' ''A'', item_op ''Y'' ''A'']"

definition second_batch :: "ingest_op list" where
  "second_batch = [item_op ''Z'' ''B'', item_op ''Y'' ''B'', OpDelete (RecordId (lit ''Z''))]"

definition late_delete :: "ingest_op list" where
  "late_delete = [OpDelete (RecordId (lit ''X'')), item_op ''Y'' ''B'']"

lemma begun_histories:
  "history sample_env (empty_db 7) [] (empty_db 7, [begun first_batch, begun second_batch])"
  "history sample_env (empty_db 7) [] (empty_db 7, [begun first_batch, begun late_delete])"
proof -
  have "list_all (\<lambda>ops. (case traverse (hash_op sample_env) ops of Inr _ \<Rightarrow> True | Inl _ \<Rightarrow> False) \<and> list_all op_ok ops)
      [first_batch, second_batch, late_delete]"
    by code_simp
  then have "\<exists>hashed. traverse (hash_op sample_env) ops = Inr hashed \<and> begun ops = tx_begin erp products hashed (empty_db 7) \<and>
      list_all op_ok ops"
    if "ops = first_batch \<or> ops = second_batch \<or> ops = late_delete" for ops
    using that by (auto simp: begun_def split: sum.splits)
  then show "history sample_env (empty_db 7) [] (empty_db 7, [begun first_batch, begun second_batch])"
    "history sample_env (empty_db 7) [] (empty_db 7, [begun first_batch, begun late_delete])"
    using sample_names_ok by (intro begun_history, simp, metis)+
qed

text \<open>The two batches take turns on the record both write.\<close>

lemma committed_batches_are_serial_witness:
  "\<exists>log d. schedule sample_env [0, 1, 0, 0, 0, 0, 0] ([], empty_db 7, [begun first_batch, begun second_batch]) = Some (log, d, []) \<and>
     map tx_done log = [first_batch, second_batch] \<and>
     serial sample_env log (\<lambda>s c. live s c (empty_db 7)) = ([[True, True], [True, True, True]], \<lambda>s c. live s c d) \<and>
     live erp products d (lit ''Y'') = spec_content sample_env (item_op ''Y'' ''B'')"
proof -
  let ?run = "schedule sample_env [0, 1, 0, 0, 0, 0, 0] ([], empty_db 7, [begun first_batch, begun second_batch])"
  have "(case ?run of None \<Rightarrow> False
       | Some (log, d, ts) \<Rightarrow> ts = [] \<and> map tx_done log = [first_batch, second_batch] \<and>
           list_all (\<lambda>t. list_all (\<lambda>oa. \<not> delete_missed oa) (zip (tx_done t) (tx_outcomes t))) log \<and>
           map told log = [[True, True], [True, True, True]] \<and>
           live erp products d (lit ''Y'') = spec_content sample_env (item_op ''Y'' ''B''))"
    by code_simp
  then obtain log d where run: "?run = Some (log, d, [])" "map tx_done log = [first_batch, second_batch]"
      "list_all (\<lambda>t. list_all (\<lambda>oa. \<not> delete_missed oa) (zip (tx_done t) (tx_outcomes t))) log"
      "map told log = [[True, True], [True, True, True]]"
      "live erp products d (lit ''Y'') = spec_content sample_env (item_op ''Y'' ''B'')"
    by (auto split: option.splits)
  have hit: "deletes_hit t" if "t \<in> set log" for t using run(3) that by (auto simp: deletes_hit_def list_all_iff)
  have "history sample_env (empty_db 7) log (d, [])" by (rule schedule_history[OF run(1) begun_histories(1)])
  from committed_batches_are_serial[OF sample_env_ok empty_db_ok this hit] run show ?thesis by auto
qed

text \<open>A delete that finds no record locks nothing, and what it did not find may be written before its batch commits.
  Then the collection holds what neither order of the two batches makes of it.\<close>

lemma missed_delete_is_not_serial:
  "\<exists>log d. history sample_env (empty_db 7) log (d, []) \<and> map tx_done log = [first_batch, late_delete] \<and>
     snd (serial sample_env log (\<lambda>s c. live s c (empty_db 7))) \<noteq> (\<lambda>s c. live s c d) \<and>
     snd (serial sample_env (rev log) (\<lambda>s c. live s c (empty_db 7))) \<noteq> (\<lambda>s c. live s c d)"
proof -
  let ?run = "schedule sample_env [1, 0, 0, 0, 0, 0] ([], empty_db 7, [begun first_batch, begun late_delete])"
  have "(case ?run of None \<Rightarrow> False
       | Some (log, d, ts) \<Rightarrow> ts = [] \<and> map tx_done log = [first_batch, late_delete] \<and>
           snd (serial sample_env log (\<lambda>s c. live s c (empty_db 7))) erp products (lit ''X'') \<noteq> live erp products d (lit ''X'') \<and>
           snd (serial sample_env (rev log) (\<lambda>s c. live s c (empty_db 7))) erp products (lit ''Y'') \<noteq> live erp products d (lit ''Y''))"
    by code_simp
  then obtain log d where run: "?run = Some (log, d, [])" "map tx_done log = [first_batch, late_delete]"
      "snd (serial sample_env log (\<lambda>s c. live s c (empty_db 7))) erp products (lit ''X'') \<noteq> live erp products d (lit ''X'')"
      "snd (serial sample_env (rev log) (\<lambda>s c. live s c (empty_db 7))) erp products (lit ''Y'') \<noteq> live erp products d (lit ''Y'')"
    by (auto split: option.splits)
  moreover have "history sample_env (empty_db 7) log (d, [])" by (rule schedule_history[OF run(1) begun_histories(2)])
  ultimately show ?thesis by metis
qed

text \<open>Two batches that name the same records in opposite order wait for each other: each has carried out one
  operation, and neither next statement finds its lock free.\<close>

definition crossing :: "string \<Rightarrow> string \<Rightarrow> ingest_op list" where
  "crossing i j = [item_op i ''A'', item_op j ''A'']"

text \<open>The next statement of \<open>t\<close> needs a lock that \<open>u\<close> holds.\<close>

definition waits_for :: "env \<Rightarrow> txn \<Rightarrow> txn \<Rightarrow> db \<Rightarrow> bool" where
  "waits_for E t u d \<longleftrightarrow>
     (case tx_pending t of
        [] \<Rightarrow> False
      | oh # _ \<Rightarrow> (case tx_statement E oh t d of (Inl _, _) \<Rightarrow> False | (Inr t', _) \<Rightarrow> \<not> lock_free [u] t t'))"

lemma batches_can_deadlock:
  "\<exists>d t u. (cluster_step sample_env)\<^sup>*\<^sup>* (empty_db 7, []) (d, [t, u]) \<and>
     waits_for sample_env t u d \<and> waits_for sample_env u t d"
proof -
  let ?ts = "[begun (crossing ''X'' ''Y''), begun (crossing ''Y'' ''X'')]"
  have "list_all (\<lambda>ops. (case traverse (hash_op sample_env) ops of Inr _ \<Rightarrow> True | Inl _ \<Rightarrow> False) \<and> list_all op_ok ops)
      [crossing ''X'' ''Y'', crossing ''Y'' ''X'']"
    by code_simp
  then have "\<exists>hashed. traverse (hash_op sample_env) ops = Inr hashed \<and> begun ops = tx_begin erp products hashed (empty_db 7) \<and>
      list_all op_ok ops"
    if "ops = crossing ''X'' ''Y'' \<or> ops = crossing ''Y'' ''X''" for ops
    using that by (auto simp: begun_def split: sum.splits)
  then have start: "history sample_env (empty_db 7) [] (empty_db 7, ?ts)"
    using sample_names_ok by (intro begun_history, simp, metis)
  have "case schedule sample_env [0, 1] ([], empty_db 7, ?ts) of None \<Rightarrow> False
      | Some (log, d, ts) \<Rightarrow> log = [] \<and> length ts = 2 \<and>
          waits_for sample_env (ts ! 0) (ts ! 1) d \<and> waits_for sample_env (ts ! 1) (ts ! 0) d"
    by code_simp
  then obtain d ts where run: "schedule sample_env [0, 1] ([], empty_db 7, ?ts) = Some ([], d, ts)" and len: "length ts = 2"
    and waits: "waits_for sample_env (ts ! 0) (ts ! 1) d" "waits_for sample_env (ts ! 1) (ts ! 0) d"
    by (cases "schedule sample_env [0, 1] ([], empty_db 7, ?ts)") (simp, force)
  from len have "ts = [ts ! 0, ts ! 1]" by (intro nth_equalityI) (auto simp: less_Suc_eq numeral_2_eq_2)
  moreover have "(cluster_step sample_env)\<^sup>*\<^sup>* (empty_db 7, []) (d, ts)"
    by (rule history_reachable[OF schedule_history[OF run start]])
  ultimately show ?thesis using waits by metis
qed

end
