(* ===== verification/Server.thy ===== *)
theory Server
  imports Public_Api Ingest_Api
begin

text \<open>
  \<open>crates/server/src\<close>: the checks on a loaded configuration, loading the collection definitions, wiring
  the two routers, and issuing a credential. Figment, the file system, the YAML decoder and the
  connection to the database are arguments; sockets and what the layers do are not modelled.
\<close>

section \<open>Configuration (\<open>config.rs\<close>)\<close>

record socket_addr =
  sa_ip :: "8 word list"
  sa_port :: "16 word"

record config =
  cfg_database_url :: rstr
  cfg_token_secret :: rstr
  cfg_listen :: socket_addr
  cfg_max_connections :: "32 word"
  cfg_max_payload_bytes :: "64 word"
  cfg_max_body_bytes :: "64 word"
  cfg_max_response_bytes :: "64 word"
  cfg_read_per_second :: "32 word"
  cfg_read_burst :: "32 word"
  cfg_feed_per_second :: "32 word"
  cfg_feed_burst :: "32 word"
  cfg_trust_forwarded_for :: bool
  cfg_metrics_listen :: socket_addr
  cfg_schemas_dir :: rstr
  cfg_migrate_on_start :: bool
  cfg_request_timeout :: "64 word"
  cfg_statement_timeout :: "64 word"
  cfg_log :: rstr

definition config_default :: config where
  "config_default =
     \<lparr>cfg_database_url = [], cfg_token_secret = [],
      cfg_listen = \<lparr>sa_ip = [0, 0, 0, 0], sa_port = 8080\<rparr>, cfg_max_connections = 10,
      cfg_max_payload_bytes = 64 * 1024, cfg_max_body_bytes = 4 * 1024 * 1024, cfg_max_response_bytes = 1024 * 1024,
      cfg_read_per_second = 20, cfg_read_burst = 60, cfg_feed_per_second = 2, cfg_feed_burst = 10,
      cfg_trust_forwarded_for = False, cfg_metrics_listen = \<lparr>sa_ip = [127, 0, 0, 1], sa_port = 9090\<rparr>,
      cfg_schemas_dir = lit ''schemas'', cfg_migrate_on_start = True, cfg_request_timeout = 10,
      cfg_statement_timeout = 5, cfg_log = lit ''info''\<rparr>"

datatype 'e config_error = Figment 'e | NoDatabaseUrl | NoTokenSecret

text \<open>The providers in the order they are merged, each over the ones before it.\<close>

datatype 'p provider = Serialized config | RawEnvOnly "string list" | Prefixed 'p

definition config_from_provider :: "('p provider list \<Rightarrow> 'e + config) \<Rightarrow> 'p \<Rightarrow> 'e config_error + config" where
  "config_from_provider extract prefixed =
     ok_then (map_err Figment (extract [Serialized config_default, RawEnvOnly [''DATABASE_URL''], Prefixed prefixed]))
       (\<lambda>c. if trim (cfg_database_url c) = [] then Inl NoDatabaseUrl
            else if byte_len (trim (cfg_token_secret c)) < 32 then Inl NoTokenSecret
            else Inr c)"

section \<open>Collection definitions on disk (\<open>schemas.rs\<close>)\<close>

text \<open>
  A directory is the list of its entries as they are read, each a file name or an error; \<open>fs_read\<close> gives
  a file's text. \<open>decode\<close> is the YAML decoder into the declared form of a definition; serde then
  converts that form (\<open>try_from\<close>).
\<close>

record 'io filesystem =
  fs_read_dir :: "rstr \<Rightarrow> 'io + ('io + rstr) list"
  fs_read :: "rstr \<Rightarrow> rstr \<Rightarrow> 'io + rstr"

datatype invalid_reason = NotDecodable rstr | Rejected schema_error

datatype 'io schema_load_error =
    LoadDirectory rstr 'io
  | LoadFile rstr rstr 'io
  | LoadInvalid rstr rstr invalid_reason
  | LoadSet schema_error
  | LoadEmpty rstr

text \<open>\<open>Path::extension\<close> of a file name: what follows the last dot, unless that dot starts the name.\<close>

definition extension :: "rstr \<Rightarrow> rstr option" where
  "extension name =
     (let pieces = split_on 46 name
      in if length pieces = 1 \<or> (length pieces = 2 \<and> hd pieces = []) then None else Some (last pieces))"

definition is_schema_file :: "rstr \<Rightarrow> bool" where
  "is_schema_file name \<longleftrightarrow>
     (case extension name of None \<Rightarrow> False | Some ext \<Rightarrow> ext = lit ''yaml'' \<or> ext = lit ''yml'')"

definition load_file ::
    "'io filesystem \<Rightarrow> (rstr \<Rightarrow> rstr + collection_schema_repr) \<Rightarrow> rstr \<Rightarrow> rstr
     \<Rightarrow> 'io schema_load_error + collection_schema" where
  "load_file fs decode dir name =
     ok_then (map_err (LoadFile dir name) (fs_read fs dir name))
       (\<lambda>file. map_err (LoadInvalid dir name)
          (ok_then (map_err NotDecodable (decode file)) (\<lambda>r. map_err Rejected (collection_schema_of_repr r))))"

definition load_schemas ::
    "'io filesystem \<Rightarrow> (rstr \<Rightarrow> rstr + collection_schema_repr) \<Rightarrow> rstr \<Rightarrow> 'io schema_load_error + schema_set" where
  "load_schemas fs decode dir =
     ok_then (map_err (LoadDirectory dir) (fs_read_dir fs dir))
       (\<lambda>entries. ok_then (map_err (LoadDirectory dir) (traverse (\<lambda>e. e) entries))
       (\<lambda>names.
          let paths = sort (filter is_schema_file names)
          in if paths = [] then Inl (LoadEmpty dir)
             else ok_then (traverse (load_file fs decode dir) paths)
                    (\<lambda>schemas. map_err LoadSet (schema_set_new schemas))))"

section \<open>Wiring (\<open>lib.rs\<close>)\<close>

text \<open>The public and the ingest router over one store; \<open>finish\<close> is the governor's builder.\<close>

record ('s, 'g) wired =
  wr_routes :: "'g route list"
  wr_public :: "'s api_state"
  wr_ingest_routes :: "'s ingest_routes"

definition service ::
    "(64 word \<Rightarrow> 32 word \<Rightarrow> client_key \<Rightarrow> 'g option) \<Rightarrow> 's store \<Rightarrow> schema_set \<Rightarrow> config \<Rightarrow> limit_error + ('s, 'g) wired" where
  "service finish st schemas c =
     (let limits = \<lparr>read_per_second = cfg_read_per_second c, read_burst = cfg_read_burst c,
                    feed_per_second = cfg_feed_per_second c, feed_burst = cfg_feed_burst c,
                    trust_forwarded_for = cfg_trust_forwarded_for c\<rparr>
      in ok_then (router finish limits)
           (\<lambda>routes. Inr
             \<lparr>wr_routes = routes,
              wr_public = with_response_bytes (budget_clamp (cfg_max_response_bytes c)) (api_state_new st schemas),
              wr_ingest_routes = ingest_router (with_limits (cfg_max_payload_bytes c) (cfg_max_body_bytes c)
                            (ingest_state_new st schemas (utf8_bytes (cfg_token_secret c))))\<rparr>))"

abbreviation wr_ingest :: "('s, 'g) wired \<Rightarrow> 's ingest_state" where
  "wr_ingest w \<equiv> ir_state (wr_ingest_routes w)"

text \<open>What scripts of other origins may send and read: the policy handed to the CORS layer.\<close>

record cors_policy =
  cp_any_origin :: bool
  cp_methods :: "http_method list"
  cp_request_headers :: "rstr list"
  cp_exposed_headers :: "rstr list"

definition cors :: cors_policy where
  "cors = \<lparr>cp_any_origin = True, cp_methods = [Get, Head], cp_request_headers = [lit ''if-none-match''],
           cp_exposed_headers = [lit ''etag'']\<rparr>"

text \<open>
  The layers over the merged router, each applied to what the ones before it made: \<open>Router::layer\<close> wraps.
  The timeout, compression, CORS and trace layers are tower-http's.
\<close>

definition layered ::
    "(nat \<Rightarrow> 64 word \<Rightarrow> (request_info \<Rightarrow> exchange) \<Rightarrow> request_info \<Rightarrow> exchange)
     \<Rightarrow> ((request_info \<Rightarrow> exchange) \<Rightarrow> request_info \<Rightarrow> exchange)
     \<Rightarrow> (cors_policy \<Rightarrow> (request_info \<Rightarrow> exchange) \<Rightarrow> request_info \<Rightarrow> exchange)
     \<Rightarrow> ((request_info \<Rightarrow> exchange) \<Rightarrow> request_info \<Rightarrow> exchange)
     \<Rightarrow> config \<Rightarrow> (request_info \<Rightarrow> exchange) \<Rightarrow> request_info \<Rightarrow> exchange" where
  "layered timeout compression cors_layer trace c merged =
     trace (cors_layer cors (compression (timeout 503 (cfg_request_timeout c) (track merged))))"

section \<open>Issuing a credential (\<open>main.rs\<close>)\<close>

datatype mint_error = MintToken token_error | MintStore store_error

text \<open>A fresh token for a source: its keyed hash is stored, its text is handed back. \<open>filled\<close> is the operating
  system's randomness.\<close>

definition mint_token ::
    "env \<Rightarrow> 's store \<Rightarrow> (nat \<Rightarrow> bytes option) \<Rightarrow> config \<Rightarrow> source_name \<Rightarrow> rstr \<Rightarrow> 's \<Rightarrow> (mint_error + token) \<times> 's" where
  "mint_token E st filled c source label s =
     (case ok_then (map_err MintToken (token_generate E filled))
             (\<lambda>token. ok_then (map_err MintToken (token_hash E (utf8_bytes (cfg_token_secret c)) token))
             (\<lambda>h. Inr (token, h))) of
        Inl e \<Rightarrow> (Inl e, s)
      | Inr (token, h) \<Rightarrow>
          (case st_store_token st h source label s of
             (Inl e, s') \<Rightarrow> (Inl (MintStore e), s')
           | (Inr _, s') \<Rightarrow> (Inr token, s')))"

end
