(* ===== verification/Schema_Facts.thy ===== *)
theory Schema_Facts
  imports Sample
begin

text \<open>
  What identifiers, id paths and validated collection definitions promise, stated over the
  definitions of \<open>Ident\<close> and \<open>Schema\<close>.
\<close>

section \<open>Identifiers\<close>

lemma split_at_slash:
  "47 \<notin> set a \<Longrightarrow> 47 \<notin> set b \<Longrightarrow> a @ (47 :: nat) # x = b @ 47 # y \<longleftrightarrow> a = b \<and> x = y"
proof (induction a arbitrary: b)
  case Nil
  then show ?case by (cases b) auto
next
  case (Cons c a)
  then show ?case by (cases b) auto
qed

text \<open>A record id is accepted exactly when it is not empty, at most 512 bytes, free of control
  characters and of \<open>/\<close>, \<open>?\<close> and \<open>#\<close>, and does not begin or end in white space; it is kept as given.\<close>

theorem record_id_grammar:
  "record_id_new v = Inr i \<longleftrightarrow>
     i = RecordId v \<and> v \<noteq> [] \<and> byte_len v \<le> MAX_ID_LEN \<and> (\<forall>c \<in> set v. \<not> id_char_refused c) \<and>
     \<not> is_whitespace (hd v) \<and> \<not> is_whitespace (last v)"
  by (auto simp: record_ident.new_Inr_iff validate_id_iff)

lemma record_id_grammar_witness:
  "record_id_new (lit ''A 1'') = Inr (RecordId (lit ''A 1'')) \<and> \<not> is_ok (record_id_new (lit ''a/b''))"
proof -
  have "record_id_new (lit ''A 1'') = Inr (RecordId (lit ''A 1''))"
    unfolding record_id_grammar by (simp add: ident_eval)
  moreover have "\<not> is_ok (record_id_new (lit ''a/b''))"
    by (simp add: is_ok_iff ident_eval)
  ultimately show ?thesis ..
qed

text \<open>The grammar lets through what a URL or a log does not keep apart: a dot segment, which is removed when a URL
  is resolved, and ids that differ in a character that is not shown.\<close>

lemma unaddressable_ids_accepted:
  "record_id_new (lit ''..'') = Inr (RecordId (lit ''..''))"
  "record_id_new (lit ''A'' @ [0x200B]) = Inr (RecordId (lit ''A'' @ [0x200B]))"
  by (simp_all add: ident_eval)

text \<open>The rendered key addresses one record: two valid keys with the same text are the same key.\<close>

theorem record_key_text_injective:
  assumes "record_key_ok j" and "record_key_ok k" and "record_key_to_string j = record_key_to_string k"
  shows "j = k"
proof -
  note j = key_parts_no_slash[OF assms(1)] and k = key_parts_no_slash[OF assms(2)]
  from assms(3) have "source_str (key_source j) = source_str (key_source k) \<and>
      collection_str (key_collection j) = collection_str (key_collection k) \<and> id_str (key_id j) = id_str (key_id k)"
    by (simp add: record_key_to_string_def lit_def split_at_slash j k)
  then show ?thesis
    by (auto intro!: record_key.equality source_name.expand collection_name.expand record_id.expand)
qed

definition sample_key :: record_key where
  "sample_key = record_key_new (SourceName (lit ''erp'')) (CollectionName (lit ''products'')) (RecordId (lit ''A 1''))"

lemma record_key_text_injective_witness:
  "record_key_ok sample_key \<and>
   \<not> (\<exists>k. k \<noteq> sample_key \<and> record_key_ok k \<and> record_key_to_string k = lit ''erp/products/A 1'')"
proof -
  have ok: "record_key_ok sample_key"
    by (simp add: record_key_ok_def sample_key_def record_key_new_def ident_eval)
  have "record_key_to_string sample_key = lit ''erp/products/A 1''"
    by (simp add: record_key_to_string_def sample_key_def record_key_new_def lit_def)
  with ok show ?thesis using record_key_text_injective[of _ sample_key] by auto
qed

section \<open>Id paths\<close>

text \<open>An id path survives being written and read back.\<close>

theorem id_path_text_roundtrip:
  assumes "id_path_ok p"
  shows "id_path_from_str (id_path_to_string p) = Inr p"
  using assms by (rule id_path_roundtrip)

lemma id_path_text_roundtrip_witness:
  "id_path_from_str (lit ''$.head.number'') = Inr (IdPath [fname ''head'', fname ''number''])"
proof -
  have "id_path_ok (IdPath [fname ''head'', fname ''number''])" by code_simp
  moreover have "id_path_to_string (IdPath [fname ''head'', fname ''number'']) = lit ''$.head.number''" by code_simp
  ultimately show ?thesis using id_path_text_roundtrip by metis
qed

definition id_text :: "json \<Rightarrow> rstr option" where
  "id_text v =
     (case v of
        JString s \<Rightarrow> Some s
      | JNumber n \<Rightarrow> if number_is_i64 n \<or> number_is_u64 n then Some (integer_to_string n) else None
      | _ \<Rightarrow> None)"

lemma id_path_extract_iff:
  "id_path_extract p v = Inr i \<longleftrightarrow>
     (\<exists>x t. id_path_resolve p v = Some x \<and> id_text x = Some t \<and> record_id_new t = Inr i)"
  by (auto simp: id_path_extract_def result_simps id_text_def split: json.splits)

lemma dec_length: "m < 10 ^ Suc k \<Longrightarrow> length (dec m) \<le> Suc k"
proof (induction k arbitrary: m)
  case (Suc k)
  then have "m div 10 < 10 ^ Suc k" by auto
  from Suc.IH[OF this] show ?case by (subst dec.simps) auto
qed (simp add: dec.simps)

lemma dec_len: "n < 2 ^ 64 \<Longrightarrow> byte_len (dec n) \<le> 20"
proof -
  assume "n < 2 ^ 64"
  then have "length (dec n) \<le> Suc 19" by (intro dec_length) simp
  moreover have "byte_len (dec n) = length (dec n)" using dec_chars by (intro byte_len_ascii) fastforce
  ultimately show ?thesis by simp
qed

lemma dec_id_ok: "n < 2 ^ 64 \<Longrightarrow> validate_id kind (dec n) = Inr ()" for n :: nat
proof -
  assume n: "n < 2 ^ 64"
  have digits: "\<forall>c \<in> set (dec n). 48 \<le> c \<and> c \<le> 57" using dec_chars by blast
  have ne: "dec n \<noteq> []" by (simp add: dec.simps)
  have "\<forall>c \<in> set (dec n). \<not> id_char_refused c \<and> \<not> is_whitespace c"
    using digits by (auto simp: id_char_refused_def is_control_def is_whitespace_def)
  then show ?thesis using ne dec_len[OF n] by (simp add: validate_id_iff MAX_ID_LEN_def)
qed

lemma integer_id_ok:
  assumes "number_ok n" and "number_is_i64 n \<or> number_is_u64 n"
  shows "record_id_new (integer_to_string n) = Inr (RecordId (integer_to_string n))"
proof (cases n)
  case (PosInt u)
  have "unat u < 2 ^ 64" using unsigned_less[of u, where ?'a = nat] by simp
  then show ?thesis by (simp add: PosInt record_ident.new_Inr_iff dec_id_ok)
next
  case (NegInt i)
  have neg: "sint i < 0" using assms NegInt by simp
  have "- (2 ^ 63) \<le> sint i" using sint_greater_eq[of i] by simp
  with neg have small: "nat (- sint i) < 2 ^ 64" by (simp add: nat_less_iff)
  let ?d = "dec (nat (- sint i))"
  note ok = dec_id_ok[OF small, of "''record id''", unfolded validate_id_iff]
  have len: "byte_len (45 # ?d) \<le> MAX_ID_LEN" using dec_len[OF small] by (simp add: utf8_len_def MAX_ID_LEN_def)
  have "validate_id ''record id'' (45 # ?d) = Inr ()"
    using ok len by (auto simp: validate_id_iff id_char_refused_def is_control_def is_whitespace_def)
  then show ?thesis using neg by (simp add: NegInt record_ident.new_Inr_iff dec_int_def)
qed (use assms in simp)

text \<open>The identifier of a payload is the value its id path leads to: a string taken as it is or an
  integer in decimal, accepted exactly when the text is a valid record id.\<close>

theorem id_extraction:
  "id_path_extract p payload = Inr i \<longleftrightarrow>
     (\<exists>v t. id_path_resolve p payload = Some v \<and> id_text v = Some t \<and> record_id_new t = Inr i)"
  by (rule id_path_extract_iff)

text \<open>A payload whose id path leads to an integer always has an identifier.\<close>

theorem integer_identifiers_accepted:
  assumes "id_path_resolve p payload = Some (JNumber n)" and "number_ok n"
    and "number_is_i64 n \<or> number_is_u64 n"
  shows "id_path_extract p payload = Inr (RecordId (integer_to_string n))"
  unfolding id_path_extract_iff using assms integer_id_ok[OF assms(2,3)] by (auto simp: id_text_def)

lemma integer_identifiers_accepted_witness:
  "id_path_extract (IdPath [fname ''head'', fname ''number''])
     (JObject [(lit ''head'', JObject [(lit ''number'', JNumber (PosInt 4711))])]) = Inr (RecordId (lit ''4711''))"
proof -
  let ?p = "JObject [(lit ''head'', JObject [(lit ''number'', JNumber (PosInt 4711))])]"
  have "id_path_resolve (IdPath [fname ''head'', fname ''number'']) ?p = Some (JNumber (PosInt 4711))" by code_simp
  from integer_identifiers_accepted[OF this] have
    "id_path_extract (IdPath [fname ''head'', fname ''number'']) ?p = Inr (RecordId (integer_to_string (PosInt 4711)))"
    by simp
  moreover have "integer_to_string (PosInt 4711) = lit ''4711''"
    by (simp add: dec.simps lit_def)
  ultimately show ?thesis by simp
qed

section \<open>Validated definitions\<close>

text \<open>A collection definition is accepted exactly when it declares a field, no object at any depth
  has an empty allow list, and its filters and sort keys are distinct and name indexed scalar fields;
  the accepted definition is the declared one.\<close>

theorem collection_schema_accepts:
  "collection_schema_new c i flds fl ks ca = Inr s \<longleftrightarrow>
     s = \<lparr>cs_collection = c, cs_id = i, cs_fields = flds, cs_filters = fl, cs_sort = ks, cs_cache = ca\<rparr> \<and>
     schema_valid s"
  by (rule collection_schema_new_iff)

text \<open>Validation of a field reports the path of the first object, in document order, that declares no
  members, and accepts the field when there is none.\<close>

theorem spec_validation_reports_first:
  "spec_validate s path =
     (case empty_allow_paths s path of [] \<Rightarrow> Inr () | q # _ \<Rightarrow> Inl (ObjectWithoutAllowList q))"
  by (rule spec_validate_paths)

text \<open>The declared form of a field always decodes, to a specification whose allow lists are ordered
  maps at every depth: only validation of the definition refuses it.\<close>

theorem spec_of_repr_decodes: "\<exists>s. spec_of_repr r = Inr s \<and> spec_ok s"
  by (rule spec_of_repr_total)

text \<open>A set of definitions is refused exactly when two share a name, and otherwise finds each
  definition under its own name and nothing else.\<close>

theorem schema_set_finds:
  "(\<exists>S. schema_set_new schemas = Inr S) = distinct (map cs_collection schemas) \<and>
   (\<forall>S c s. schema_set_new schemas = Inr S \<longrightarrow>
      (schema_set_get S c = Some s) = (s \<in> set schemas \<and> cs_collection s = c))"
  using schema_set_new_get[of schemas] by (auto simp: schema_set_new_iff)

lemma schema_set_finds_witness:
  "(\<exists>S. schema_set_new [shop_schema] = Inr S \<and> schema_set_get S (cs_collection shop_schema) = Some shop_schema) \<and>
   \<not> is_ok (schema_set_new [shop_schema, shop_schema])"
proof
  have "\<exists>S. schema_set_new [shop_schema] = Inr S" using schema_set_finds[of "[shop_schema]"] by simp
  then show "\<exists>S. schema_set_new [shop_schema] = Inr S \<and> schema_set_get S (cs_collection shop_schema) = Some shop_schema"
    using schema_set_finds[of "[shop_schema]"] by fastforce
  show "\<not> is_ok (schema_set_new [shop_schema, shop_schema])" by code_simp
qed

end
