(* ===== verification/Server_Properties.thy ===== *)
theory Server_Properties
  imports Server Request_Properties Schema_Facts "HOL-Library.Multiset"
begin

text \<open>What start-up guarantees: the service that is wired from an accepted configuration, the set of
  collections that is loaded, and the credentials that are minted for it.\<close>

section \<open>Configuration\<close>

lemma byte_len_suffix: "byte_len (dropWhile P s) \<le> byte_len s"
  by (induction s) auto

lemma byte_len_rev [simp]: "byte_len (rev s) = byte_len s"
  by (induction s) auto

lemma byte_len_trim: "byte_len (trim s) \<le> byte_len s"
  unfolding trim_def byte_len_rev
  using byte_len_suffix[of is_whitespace "rev (dropWhile is_whitespace s)"] byte_len_suffix[of is_whitespace s] by simp

lemma rate_limits_validate_ok: "rate_limits_validate l = Inr u \<longleftrightarrow>
    read_per_second l \<noteq> 0 \<and> read_burst l \<noteq> 0 \<and> feed_per_second l \<noteq> 0 \<and> feed_burst l \<noteq> 0"
  by (auto simp: rate_limits_validate_def check_limit_def split: if_splits)

lemma service_Inr:
  assumes "service finish st schemas c = Inr w"
  shows "wr_public w = with_response_bytes (budget_clamp (cfg_max_response_bytes c)) (api_state_new st schemas)"
    and "wr_ingest w = with_limits (cfg_max_payload_bytes c) (cfg_max_body_bytes c)
           (ingest_state_new st schemas (utf8_bytes (cfg_token_secret c)))"
    and "cfg_read_per_second c \<noteq> 0 \<and> cfg_read_burst c \<noteq> 0 \<and> cfg_feed_per_second c \<noteq> 0 \<and> cfg_feed_burst c \<noteq> 0"
  using assms by (auto simp: service_def ingest_router_def router_def public_router_def rate_limits_validate_ok result_simps Let_def split: if_splits)

text \<open>A configuration that is accepted gives a service that is safe to run: credentials are keyed with
  at least 32 bytes, a page is bounded, no rate limit refuses everything, and the public and the ingest
  routes work on the same store and the same collections.\<close>

theorem accepted_configuration_is_safe:
  assumes "config_from_provider extract p = Inr c" and "service finish st schemas c = Inr w"
  shows "32 \<le> length (is_secret (wr_ingest w)) \<and> budget_ok (as_response_bytes (wr_public w)) \<and>
    as_store (wr_public w) = st \<and> is_store (wr_ingest w) = st \<and>
    as_schemas (wr_public w) = schemas \<and> is_schemas (wr_ingest w) = schemas \<and>
    cfg_read_per_second c \<noteq> 0 \<and> cfg_read_burst c \<noteq> 0 \<and> cfg_feed_per_second c \<noteq> 0 \<and> cfg_feed_burst c \<noteq> 0"
proof -
  have "32 \<le> byte_len (cfg_token_secret c)"
    using assms(1) byte_len_trim[of "cfg_token_secret c"] by (auto simp: config_from_provider_def result_simps split: if_splits)
  then show ?thesis
    using service_Inr[OF assms(2)]
    by (simp add: with_limits_def ingest_state_new_def with_response_bytes_def api_state_new_def length_utf8_bytes)
qed

definition sample_config :: config where
  "sample_config = config_default\<lparr>cfg_database_url := lit ''postgres://localhost/hydrant'', cfg_token_secret := replicate 32 120\<rparr>"

definition sample_finish :: "64 word \<Rightarrow> 32 word \<Rightarrow> client_key \<Rightarrow> unit option" where
  "sample_finish period burst key = Some ()"

lemma accepted_configuration_is_safe_witness:
  "\<exists>w. service sample_finish (postgres_store sample_env) (SchemaSet []) sample_config = Inr w \<and>
     32 \<le> length (is_secret (wr_ingest w)) \<and>
     \<not> is_ok (config_from_provider (\<lambda>_ :: unit provider list. Inr (sample_config\<lparr>cfg_token_secret := lit '' short ''\<rparr>) :: unit + config) ())"
proof -
  have "is_ok (service sample_finish (postgres_store sample_env) (SchemaSet []) sample_config)"
    by (simp add: service_def router_def public_router_def sample_config_def config_default_def rate_limits_validate_def
        check_limit_def sample_finish_def Let_def)
  then obtain w where w: "service sample_finish (postgres_store sample_env) (SchemaSet []) sample_config = Inr w"
    by (auto simp: is_ok_iff)
  have "trim (replicate 32 120) = replicate 32 120" by (simp add: trim_id_iff is_whitespace_def)
  moreover have "trim (lit ''postgres://localhost/hydrant'') \<noteq> []" by code_simp
  ultimately have "config_from_provider (\<lambda>_ :: unit provider list. Inr sample_config :: unit + config) () = Inr sample_config"
    by (simp add: config_from_provider_def sample_config_def byte_len_ascii)
  note safe = accepted_configuration_is_safe[OF this w]
  have "\<not> is_ok (config_from_provider (\<lambda>_ :: unit provider list. Inr (sample_config\<lparr>cfg_token_secret := lit '' short ''\<rparr>) :: unit + config) ())"
    by code_simp
  with safe w show ?thesis by blast
qed

section \<open>Collections\<close>

lemma list_all2_left_ex: "list_all2 R xs ys \<Longrightarrow> x \<in> set xs \<Longrightarrow> \<exists>y \<in> set ys. R x y"
  by (induction rule: list_all2_induct) auto

lemma list_all2_right_ex: "list_all2 R xs ys \<Longrightarrow> y \<in> set ys \<Longrightarrow> \<exists>x \<in> set xs. R x y"
  by (induction rule: list_all2_induct) auto

lemma traverse_all_ok: "traverse (\<lambda>e. e) (map Inr names) = Inr names"
  by (induction names) auto

lemma load_file_valid: "load_file fs decode dir n = Inr schema \<Longrightarrow> schema_valid schema"
  by (auto simp: load_file_def result_simps collection_schema_of_repr_def collection_schema_new_iff)

text \<open>C35: There is no partial load: when the definitions of a directory load, every schema file in it was
  read, decoded and validated and its definition is served under its own name, and nothing else is
  served; and the outcome, the error included, does not depend on the order the directory is read in.\<close>

theorem load_is_all_or_nothing:
  fixes fs :: "'io filesystem"
  assumes "fs_read_dir fs dir = Inr (map Inr names)"
  shows "(\<forall>S. load_schemas fs decode dir = Inr S \<longrightarrow>
      list_ex is_schema_file names \<and>
      (\<forall>n \<in> set names. is_schema_file n \<longrightarrow>
         (\<exists>schema. load_file fs decode dir n = Inr schema \<and> schema_set_get S (cs_collection schema) = Some schema)) \<and>
      (\<forall>c schema. schema_set_get S c = Some schema \<longrightarrow> schema_valid schema \<and> cs_collection schema = c \<and>
         (\<exists>n \<in> set names. is_schema_file n \<and> load_file fs decode dir n = Inr schema))) \<and>
    (\<forall>fs' names'. fs_read_dir fs' dir = Inr (map Inr names') \<longrightarrow> mset names' = mset names \<longrightarrow> fs_read fs' = fs_read fs \<longrightarrow>
       load_schemas fs' decode dir = load_schemas fs decode dir)"
proof (intro conjI allI ballI impI)
  let ?paths = "sort (filter is_schema_file names)"
  fix S assume "load_schemas fs decode dir = Inr S"
  then obtain schemas where ne: "?paths \<noteq> []" and tr: "traverse (load_file fs decode dir) ?paths = Inr schemas"
    and S: "schema_set_new schemas = Inr S"
    using assms by (auto simp: load_schemas_def traverse_all_ok result_simps Let_def split: if_splits)
  have all: "list_all2 (\<lambda>n s. load_file fs decode dir n = Inr s) ?paths schemas" using tr by (simp add: traverse_ok_iff)
  show "list_ex is_schema_file names"
  proof (rule ccontr)
    assume "\<not> list_ex is_schema_file names"
    then have "filter is_schema_file names = []" by (auto simp: list_ex_iff filter_empty_conv)
    with ne show False by simp
  qed
  show "\<exists>schema. load_file fs decode dir n = Inr schema \<and> schema_set_get S (cs_collection schema) = Some schema"
    if n: "n \<in> set names" "is_schema_file n" for n
  proof -
    have "n \<in> set ?paths" using n by simp
    then obtain schema where "schema \<in> set schemas" "load_file fs decode dir n = Inr schema"
      using list_all2_left_ex[OF all] by blast
    then show ?thesis using schema_set_new_get[OF S] by blast
  qed
  fix c schema assume "schema_set_get S c = Some schema"
  then have s: "schema \<in> set schemas" "cs_collection schema = c" using schema_set_new_get[OF S] by blast+
  then obtain n where "n \<in> set ?paths" "load_file fs decode dir n = Inr schema"
    using list_all2_right_ex[OF all] by blast
  with s load_file_valid show "schema_valid schema" "cs_collection schema = c"
    "\<exists>n \<in> set names. is_schema_file n \<and> load_file fs decode dir n = Inr schema"
    by auto
next
  fix fs' :: "'io filesystem" and names'
  assume a: "fs_read_dir fs' dir = Inr (map Inr names')" "mset names' = mset names" "fs_read fs' = fs_read fs"
  have "sort (filter is_schema_file names') = sort (filter is_schema_file names)"
    using a(2) by (intro properties_for_sort) simp_all
  moreover have "load_file fs' decode dir = load_file fs decode dir"
    using a(3) by (simp add: load_file_def fun_eq_iff)
  ultimately show "load_schemas fs' decode dir = load_schemas fs decode dir"
    using assms a(1) by (simp add: load_schemas_def traverse_all_ok Let_def)
qed

definition sample_repr :: collection_schema_repr where
  "sample_repr = \<lparr>repr_collection = cs_collection shop_schema, repr_id = cs_id shop_schema, repr_fields = cs_fields shop_schema,
     repr_filters = cs_filters shop_schema, repr_sort = cs_sort shop_schema, repr_cache = cs_cache shop_schema\<rparr>"

definition sample_files :: "unit filesystem" where
  "sample_files = \<lparr>fs_read_dir = (\<lambda>dir. Inr [Inr (lit ''readme.md''), Inr (lit ''shop.yaml'')]), fs_read = (\<lambda>dir name. Inr [])\<rparr>"

lemma load_is_all_or_nothing_witness:
  "\<exists>S. load_schemas sample_files (\<lambda>_. Inr sample_repr) [] = Inr S \<and> schema_set_get S products = Some shop_schema"
proof -
  have load: "load_file sample_files (\<lambda>_. Inr sample_repr) [] (lit ''shop.yaml'') = Inr shop_schema"
    by code_simp
  have "is_ok (load_schemas sample_files (\<lambda>_. Inr sample_repr) [])" by code_simp
  then obtain S where S: "load_schemas sample_files (\<lambda>_. Inr sample_repr) [] = Inr S" by (auto simp: is_ok_iff)
  have dir: "fs_read_dir sample_files [] = Inr (map Inr [lit ''readme.md'', lit ''shop.yaml''])" by (simp add: sample_files_def)
  have "is_schema_file (lit ''shop.yaml'')" by code_simp
  then have "\<exists>schema. load_file sample_files (\<lambda>_. Inr sample_repr) [] (lit ''shop.yaml'') = Inr schema \<and>
      schema_set_get S (cs_collection schema) = Some schema"
    using load_is_all_or_nothing[OF dir, of "\<lambda>_. Inr sample_repr"] S by auto
  with load S show ?thesis by (auto simp: shop_schema_def products_def)
qed

section \<open>Credentials\<close>

lemma find_app: "find P (xs @ [x]) = (case find P xs of Some y \<Rightarrow> Some y | None \<Rightarrow> if P x then Some x else None)"
  by (induction xs) auto

lemma mint_token_authenticates:
  assumes "mint_token E (postgres_store E) filled c source label d = (Inr token, d')" and "source_ok source"
    and "service finish (postgres_store E) schemas c = Inr w"
  shows "\<exists>h. starts_with TOKEN_PREFIX (token_expose token) \<and>
    authenticated E (wr_ingest w) (Some (lit ''Bearer '' @ token_expose token)) d' = Inr source \<and>
    token_hash E (utf8_bytes (cfg_token_secret c)) token = Inr h \<and>
    (\<forall>t \<in> set (db_tokens d). tk_hash t \<noteq> token_hash_bytes h) \<and>
    d' = d\<lparr>db_tokens := db_tokens d @ [\<lparr>tk_hash = token_hash_bytes h, tk_source = source_str source, tk_label = label,
      tk_created_at = db_now d, tk_revoked_at = None\<rparr>]\<rparr> \<and>
    (\<forall>other. other \<noteq> h \<longrightarrow> pg_authenticate other d' = pg_authenticate other d)"
proof -
  from assms(1) obtain h where
    token: "token_generate E filled = Inr token" and h: "token_hash E (utf8_bytes (cfg_token_secret c)) token = Inr h"
    and st: "pg_store_token h source label d = (Inr (), d')"
    by (auto simp: mint_token_def result_simps split: sum.splits prod.splits)
  let ?t = "\<lparr>tk_hash = token_hash_bytes h, tk_source = source_str source, tk_label = label,
    tk_created_at = db_now d, tk_revoked_at = None\<rparr>"
  have new: "\<forall>t \<in> set (db_tokens d). tk_hash t \<noteq> token_hash_bytes h" and d': "d' = d\<lparr>db_tokens := db_tokens d @ [?t]\<rparr>"
    using st by (auto simp: pg_store_token_def split: if_splits)
  have none: "find (\<lambda>t. tk_hash t = token_hash_bytes h \<and> tk_revoked_at t = None) (db_tokens d) = None"
    using new by (auto simp: find_None_iff)
  have sn: "source_name_new (source_str source) = Inr source" using assms(2) by (simp add: source_ok_def)
  have auth: "pg_authenticate h d' = Inr (Some source)"
    by (simp add: pg_authenticate_def d' find_app none sn transpose_result_def)
  then have "authenticated E (wr_ingest w) (Some (lit ''Bearer '' @ token_expose token)) d' = Inr source"
    using h service_Inr(2)[OF assms(3)]
    by (simp add: authenticated_def token_from_presented_def token_expose_def with_limits_def ingest_state_new_def del: lit_simps)
  moreover have "pg_authenticate other d' = pg_authenticate other d" if "other \<noteq> h" for other
  proof -
    have "token_hash_bytes h \<noteq> token_hash_bytes other" using that tokenhash.expand by metis
    then show ?thesis by (simp add: pg_authenticate_def d' find_app split: option.split)
  qed
  moreover have "starts_with TOKEN_PREFIX (token_expose token)"
    using token by (auto simp: token_generate_def result_simps token_expose_def starts_with_def)
  ultimately show ?thesis using new h d' by blast
qed

text \<open>Revoking: every credential of a label stops, every other one is as before. A hash belongs to one
  credential.\<close>

definition revoke :: "rstr \<Rightarrow> db \<Rightarrow> db" where
  "revoke label d =
     d\<lparr>db_tokens := map (\<lambda>t. if tk_label t = label then t\<lparr>tk_revoked_at := Some (db_now d)\<rparr> else t) (db_tokens d)\<rparr>"

lemma find_revoked:
  assumes "distinct (map tk_hash ts)"
  shows "find (\<lambda>t. tk_hash t = h \<and> tk_revoked_at t = None)
      (map (\<lambda>t. if tk_label t = label then t\<lparr>tk_revoked_at := Some now\<rparr> else t) ts) =
    (case find (\<lambda>t. tk_hash t = h \<and> tk_revoked_at t = None) ts of
       None \<Rightarrow> None | Some t \<Rightarrow> if tk_label t = label then None else Some t)"
  using assms
proof (induction ts)
  case (Cons t ts)
  have "find (\<lambda>t. tk_hash t = h \<and> tk_revoked_at t = None) ts = None" if "tk_hash t = h"
    using Cons.prems that by (auto simp: find_None_iff) (metis image_eqI)
  with Cons show ?case by auto
qed simp

lemma authenticate_revoked_tokens:
  assumes "distinct (map tk_hash (db_tokens d))"
  shows "pg_authenticate h (revoke label d) =
    (case find (\<lambda>t. tk_hash t = token_hash_bytes h \<and> tk_revoked_at t = None) (db_tokens d) of
       None \<Rightarrow> Inr None
     | Some t \<Rightarrow> if tk_label t = label then Inr None else pg_authenticate h d)"
  using assms find_revoked[of "db_tokens d" "token_hash_bytes h" label "db_now d"]
  by (auto simp: revoke_def pg_authenticate_def db_ok_def transpose_result_def split: option.splits)

lemma authenticate_revoked: "db_ok E d \<Longrightarrow> pg_authenticate h (revoke label d) =
    (case find (\<lambda>t. tk_hash t = token_hash_bytes h \<and> tk_revoked_at t = None) (db_tokens d) of
       None \<Rightarrow> Inr None
     | Some t \<Rightarrow> if tk_label t = label then Inr None else pg_authenticate h d)"
  by (rule authenticate_revoked_tokens) (simp add: db_ok_def)

lemma db_ok_revoke: "db_ok E d \<Longrightarrow> db_ok E (revoke label d)"
  by (auto simp: db_ok_def revoke_def token_ok_def comp_def if_distrib cong: if_cong)

section \<open>Layers\<close>

text \<open>The request counter is the innermost layer, so it never sees the answer of the timeout around it: a
  request that is given up is answered 503 and counted nowhere.\<close>

lemma timeouts_are_not_counted:
  assumes "\<And>status seconds inner rq. timeout status seconds inner rq =
      (if 1000 * unat seconds < ex_millis (inner rq)
       then \<lparr>ex_status = status, ex_millis = 1000 * unat seconds, ex_counted = []\<rparr> else inner rq)"
    and "1000 * unat (cfg_request_timeout c) < ex_millis (merged rq)"
  shows "ex_status (layered timeout id (\<lambda>_. id) id c merged rq) = 503 \<and> ex_counted (layered timeout id (\<lambda>_. id) id c merged rq) = []"
  using assms(2) assms(1)[of 503 "cfg_request_timeout c" "track merged" rq] by (simp add: layered_def track_def Let_def)

text \<open>A statement timeout of no seconds is the setting that turns the timeout off.\<close>

lemma no_statement_timeout: "statement_timeout_setting 0 = lit ''SET statement_timeout = 0''"
proof -
  have "dec 0 = lit ''0''" by code_simp
  then show ?thesis by (simp add: statement_timeout_setting_def)
qed

end
