(* ===== verification/Startup.thy ===== *)
theory Startup
  imports Server_Properties "HOL-Library.Sublist"
begin

text \<open>
  The binary: \<open>crates/server/src/main.rs\<close>, with \<open>init_metrics\<close> of \<open>lib.rs\<close> and \<open>PostgresStore::connect\<close>
  and \<open>migrate\<close>. What the process asks of the world outside - the environment, the file system, the
  metrics exporter, the pool, the listener, the server loop, randomness - are the fields of one record; the
  order in which it asks is a log. Argument parsing is clap's: the command is an argument.
\<close>

section \<open>The world outside\<close>

text \<open>\<open>os_pool\<close> opens a pool for parsed options, a number of connections and the statement each connection is told
  first; \<open>os_bind\<close> binds the listener and reads its address back; \<open>os_serve\<close> runs until a signal arrives.\<close>

record ('e, 'p, 'io, 'o, 'g, 's) outside =
  os_env :: 'p
  os_extract :: "'p provider list \<Rightarrow> 'e + config"
  os_files :: "'io filesystem"
  os_decode :: "rstr \<Rightarrow> rstr + collection_schema_repr"
  os_exporter :: "socket_addr \<Rightarrow> nat list \<Rightarrow> 'io + unit"
  os_parse_url :: "rstr \<Rightarrow> database_error + 'o"
  os_pool :: "'o \<Rightarrow> 32 word \<Rightarrow> rstr \<Rightarrow> database_error + 's store"
  os_migrate :: "'s \<Rightarrow> bool \<times> 's"
  os_bind :: "socket_addr \<Rightarrow> 'io + unit"
  os_finish :: "64 word \<Rightarrow> 32 word \<Rightarrow> client_key \<Rightarrow> 'g option"
  os_serve :: "('s, 'g) wired \<Rightarrow> 's \<Rightarrow> ('io + unit) \<times> 's"
  os_random :: "nat \<Rightarrow> bytes option"

datatype ('e, 'io) stop =
    StopConfig "'e config_error"
  | StopSchemas "'io schema_load_error"
  | StopMetrics 'io
  | StopStore store_error
  | StopBind 'io
  | StopLimits limit_error
  | StopServing 'io
  | StopSource ident_error
  | StopMint mint_error

text \<open>What was asked for, in order, whether or not it was granted.\<close>

datatype event =
    LoadConfig
  | InitTelemetry rstr
  | ReadSchemas rstr
  | ExportMetrics socket_addr
  | ConnectPool rstr "32 word" rstr
  | Migrate
  | Bind socket_addr
  | ServeRequests
  | IssueToken source_name rstr
  | Print rstr

record 's process =
  pr_db :: 's
  pr_log :: "event list"

type_synonym ('e, 'io, 's, 'a) action = "'s process \<Rightarrow> (('e, 'io) stop + 'a) \<times> 's process"

definition bind_action ::
    "('e, 'io, 's, 'a) action \<Rightarrow> ('a \<Rightarrow> ('e, 'io, 's, 'b) action) \<Rightarrow> ('e, 'io, 's, 'b) action" where
  "bind_action m k w = (case m w of (Inl e, w') \<Rightarrow> (Inl e, w') | (Inr a, w') \<Rightarrow> k a w')"

text \<open>Something asked for that does not touch the database, and something that does.\<close>

definition ask :: "event \<Rightarrow> ('e, 'io) stop + 'a \<Rightarrow> ('e, 'io, 's, 'a) action" where
  "ask ev r w = (r, w\<lparr>pr_log := pr_log w @ [ev]\<rparr>)"

definition run_db :: "event \<Rightarrow> ('s \<Rightarrow> (('e, 'io) stop + 'a) \<times> 's) \<Rightarrow> ('e, 'io, 's, 'a) action" where
  "run_db ev f w = (case f (pr_db w) of (r, s) \<Rightarrow> (r, w\<lparr>pr_db := s, pr_log := pr_log w @ [ev]\<rparr>))"

section \<open>Metrics and the store\<close>

text \<open>The histogram buckets, in tenths of milliseconds.\<close>

definition buckets :: "nat list" where
  "buckets = [10, 25, 50, 100, 250, 500, 1000, 2500, 5000, 10000, 25000, 50000]"

definition init_metrics :: "('e, 'p, 'io, 'o, 'g, 's) outside \<Rightarrow> socket_addr \<Rightarrow> ('e, 'io, 's, unit) action" where
  "init_metrics os address = ask (ExportMetrics address) (map_err StopMetrics (os_exporter os address buckets))"

definition connect_with ::
    "('e, 'p, 'io, 'o, 'g, 's) outside \<Rightarrow> 'o \<Rightarrow> 32 word \<Rightarrow> 64 word \<Rightarrow> store_error + 's store" where
  "connect_with os options max_connections timeout =
     map_err Database (os_pool os options max_connections (statement_timeout_setting timeout))"

definition connect ::
    "('e, 'p, 'io, 'o, 'g, 's) outside \<Rightarrow> rstr \<Rightarrow> 32 word \<Rightarrow> 64 word \<Rightarrow> ('e, 'io, 's, 's store) action" where
  "connect os url max_connections timeout =
     ask (ConnectPool url max_connections (statement_timeout_setting timeout))
       (map_err StopStore
         (ok_then (map_err Database (os_parse_url os url)) (\<lambda>options. connect_with os options max_connections timeout)))"

definition migrate :: "('e, 'p, 'io, 'o, 'g, 's) outside \<Rightarrow> ('e, 'io, 's, unit) action" where
  "migrate os = run_db Migrate
     (\<lambda>s. case os_migrate os s of (True, s') \<Rightarrow> (Inr (), s') | (False, s') \<Rightarrow> (Inl (StopStore Migration), s'))"

definition migrate_if :: "('e, 'p, 'io, 'o, 'g, 's) outside \<Rightarrow> bool \<Rightarrow> ('e, 'io, 's, unit) action" where
  "migrate_if os wanted = (if wanted then migrate os else (\<lambda>w. (Inr (), w)))"

section \<open>The commands\<close>

definition serve :: "('e, 'p, 'io, 'o, 'g, 's) outside \<Rightarrow> config \<Rightarrow> ('e, 'io, 's, unit) action" where
  "serve os c =
     bind_action (ask (ReadSchemas (cfg_schemas_dir c))
         (map_err StopSchemas (load_schemas (os_files os) (os_decode os) (cfg_schemas_dir c))))
       (\<lambda>schemas. bind_action (init_metrics os (cfg_metrics_listen c))
       (\<lambda>_. bind_action (connect os (cfg_database_url c) (cfg_max_connections c) (cfg_statement_timeout c))
       (\<lambda>st. bind_action (migrate_if os (cfg_migrate_on_start c))
       (\<lambda>_. bind_action (ask (Bind (cfg_listen c)) (map_err StopBind (os_bind os (cfg_listen c))))
       (\<lambda>_. bind_action (\<lambda>w. (map_err StopLimits (service (os_finish os) st schemas c), w))
       (\<lambda>wired. run_db ServeRequests (\<lambda>s. case os_serve os wired s of (r, s') \<Rightarrow> (map_err StopServing r, s'))))))))"

text \<open>The statement that revokes what has just been issued, as it is printed.\<close>

definition revocation_statement :: "rstr \<Rightarrow> rstr" where
  "revocation_statement label =
     lit ''UPDATE ingest_token SET revoked_at = now() WHERE label = '' @ [39] @ label @ [39, 59]"

definition mint_report :: "source_name \<Rightarrow> rstr \<Rightarrow> token \<Rightarrow> rstr list" where
  "mint_report source label token =
     [lit ''source: '' @ source_str source, lit ''label:  '' @ label, lit ''token:  '' @ token_expose token, [],
      lit ''Store it now - it is not recoverable. Revoke with:'', lit ''  '' @ revocation_statement label]"

definition print_all :: "rstr list \<Rightarrow> ('e, 'io, 's, unit) action" where
  "print_all lines w = (Inr (), w\<lparr>pr_log := pr_log w @ map Print lines\<rparr>)"

definition mint ::
    "env \<Rightarrow> ('e, 'p, 'io, 'o, 'g, 's) outside \<Rightarrow> config \<Rightarrow> rstr \<Rightarrow> rstr \<Rightarrow> ('e, 'io, 's, unit) action" where
  "mint E os c source_text label =
     bind_action (\<lambda>w. (map_err StopSource (source_name_new source_text), w))
       (\<lambda>source. bind_action (connect os (cfg_database_url c) 1 (cfg_statement_timeout c))
       (\<lambda>st. bind_action (migrate_if os (cfg_migrate_on_start c))
       (\<lambda>_. bind_action (run_db (IssueToken source label)
               (\<lambda>s. case mint_token E st (os_random os) c source label s of (r, s') \<Rightarrow> (map_err StopMint r, s')))
       (\<lambda>token. print_all (mint_report source label token)))))"

datatype command = Serve | TokenMint rstr rstr

definition main ::
    "env \<Rightarrow> ('e, 'p, 'io, 'o, 'g, 's) outside \<Rightarrow> command option \<Rightarrow> ('e, 'io, 's, unit) action" where
  "main E os cli =
     bind_action (ask LoadConfig (map_err StopConfig (config_from_provider (os_extract os) (os_env os))))
       (\<lambda>c. bind_action (ask (InitTelemetry (cfg_log c)) (Inr ()))
       (\<lambda>_. case (case cli of None \<Rightarrow> Serve | Some command \<Rightarrow> command) of
          Serve \<Rightarrow> serve os c
        | TokenMint source label \<Rightarrow> mint E os c source label))"

section \<open>Starting to serve\<close>

text \<open>Everything a start asks for, in order.\<close>

definition startup_plan :: "config \<Rightarrow> event list" where
  "startup_plan c =
     [LoadConfig, InitTelemetry (cfg_log c), ReadSchemas (cfg_schemas_dir c), ExportMetrics (cfg_metrics_listen c),
      ConnectPool (cfg_database_url c) (cfg_max_connections c) (statement_timeout_setting (cfg_statement_timeout c))] @
     (if cfg_migrate_on_start c then [Migrate] else []) @ [Bind (cfg_listen c), ServeRequests]"

definition migrated :: "('e, 'p, 'io, 'o, 'g, 's) outside \<Rightarrow> config \<Rightarrow> 's \<Rightarrow> bool \<times> 's" where
  "migrated os c s = (if cfg_migrate_on_start c then os_migrate os s else (True, s))"

lemmas action_defs = bind_action_def ask_def run_db_def migrate_if_def migrate_def init_metrics_def print_all_def


text \<open>A world in which everything is granted, with a given schema directory.\<close>

definition sample_outside :: "unit filesystem \<Rightarrow> (unit, unit, unit, unit, unit, db) outside" where
  "sample_outside files =
     \<lparr>os_env = (), os_extract = (\<lambda>_. Inr sample_config), os_files = files, os_decode = (\<lambda>_. Inr sample_repr),
      os_exporter = (\<lambda>_ _. Inr ()), os_parse_url = (\<lambda>_. Inr ()), os_pool = (\<lambda>_ _ _. Inr (postgres_store sample_env)),
      os_migrate = (\<lambda>s. (True, s)), os_bind = (\<lambda>_. Inr ()), os_finish = sample_finish,
      os_serve = (\<lambda>_ s. (Inr (), s)), os_random = (\<lambda>n. Some (replicate n 1))\<rparr>"

definition sample_process :: "db process" where
  "sample_process = \<lparr>pr_db = empty_db 7, pr_log = []\<rparr>"

lemma sample_config_accepted:
  "config_from_provider (os_extract (sample_outside files)) (os_env (sample_outside files)) = Inr sample_config"
proof -
  have "trim (replicate 32 120) = replicate 32 120" by (simp add: trim_id_iff is_whitespace_def)
  moreover have "trim (lit ''postgres://localhost/hydrant'') \<noteq> []" by code_simp
  ultimately show ?thesis
    by (simp add: config_from_provider_def sample_outside_def sample_config_def byte_len_ascii)
qed

lemma sample_service:
  obtains srv where "service sample_finish (postgres_store sample_env) schemas sample_config = Inr srv"
proof -
  have "is_ok (service sample_finish (postgres_store sample_env) schemas sample_config)"
    by (simp add: service_def router_def public_router_def sample_config_def config_default_def rate_limits_validate_def
        check_limit_def sample_finish_def Let_def)
  then show ?thesis using that by (auto simp: is_ok_iff)
qed

lemma sample_load:
  obtains S where "load_schemas sample_files (\<lambda>_. Inr sample_repr) (cfg_schemas_dir sample_config) = Inr S"
proof -
  have "is_ok (load_schemas sample_files (\<lambda>_. Inr sample_repr) (cfg_schemas_dir sample_config))" by code_simp
  then show ?thesis using that by (auto simp: is_ok_iff)
qed

lemma sample_migrates [simp]: "cfg_migrate_on_start sample_config"
  by (simp add: sample_config_def config_default_def)


section \<open>Issuing and revoking a credential\<close>

text \<open>The PostgreSQL pool answers with the PostgreSQL store.\<close>

definition over_postgres :: "env \<Rightarrow> ('e, 'p, 'io, 'o, 'g, db) outside \<Rightarrow> bool" where
  "over_postgres E os \<longleftrightarrow> (\<forall>options n first st. os_pool os options n first = Inr st \<longrightarrow> st = postgres_store E)"

lemma mint_Inr:
  assumes "main E os (Some (TokenMint source_text label)) w = (Inr (), w')" "over_postgres E os"
    and "config_from_provider (os_extract os) (os_env os) = Inr c"
  obtains source token where "source_name_new source_text = Inr source" "fst (migrated os c (pr_db w))"
    "mint_token E (postgres_store E) (os_random os) c source label (snd (migrated os c (pr_db w))) = (Inr token, pr_db w')"
    "\<exists>es. pr_log w' = pr_log w @ es @ map Print (mint_report source label token) \<and> (\<forall>line. Print line \<notin> set es)"
proof -
  have "mint E os c source_text label (w\<lparr>pr_log := pr_log w @ [LoadConfig, InitTelemetry (cfg_log c)]\<rparr>) = (Inr (), w')"
    using assms(1,3) by (auto simp: main_def action_defs)
  then show ?thesis
    using assms(2)
    by (auto simp: mint_def connect_def connect_with_def action_defs migrated_def over_postgres_def result_simps
        split: sum.splits prod.splits if_splits bool.splits intro!: that)
qed

text \<open>C32: A minted credential works, only its hash is kept, and it can be revoked: what is printed, and nothing before
  it, carries the prefix a secret scanner looks for and, presented to the service under the same
  configuration, authenticates the source it was minted for; the store gained one row with the keyed
  hash, and what every other credential resolves to is unchanged; and once its label is revoked it is refused.\<close>

theorem minted_credential_authenticates:
  assumes "over_postgres E os" and "config_from_provider (os_extract os) (os_env os) = Inr c"
    and "main E os (Some (TokenMint source_text label)) w = (Inr (), w')"
    and "db_ok E (snd (migrated os c (pr_db w)))" and "hash_env_ok E"
    and "service finish (postgres_store E) schemas c = Inr srv"
  shows "\<exists>source token h. source_name_new source_text = Inr source \<and> starts_with TOKEN_PREFIX (token_expose token) \<and>
    (\<exists>es. pr_log w' = pr_log w @ es @ map Print (mint_report source label token) \<and> (\<forall>line. Print line \<notin> set es)) \<and>
    authenticated E (wr_ingest srv) (Some (lit ''Bearer '' @ token_expose token)) (pr_db w') = Inr source \<and>
    authenticated E (wr_ingest srv) (Some (lit ''Bearer '' @ token_expose token)) (revoke label (pr_db w')) = Inl Unauthorized \<and>
    token_hash E (utf8_bytes (cfg_token_secret c)) token = Inr h \<and>
    map tk_hash (db_tokens (pr_db w')) = map tk_hash (db_tokens (snd (migrated os c (pr_db w)))) @ [token_hash_bytes h] \<and>
    db_rows (pr_db w') = db_rows (snd (migrated os c (pr_db w))) \<and>
    (\<forall>other. other \<noteq> h \<longrightarrow> pg_authenticate other (pr_db w') = pg_authenticate other (snd (migrated os c (pr_db w))))"
proof -
  let ?d = "snd (migrated os c (pr_db w))" and ?d' = "pr_db w'"
  obtain source token where src: "source_name_new source_text = Inr source"
    and mt: "mint_token E (postgres_store E) (os_random os) c source label ?d = (Inr token, ?d')"
    and log: "\<exists>es. pr_log w' = pr_log w @ es @ map Print (mint_report source label token) \<and> (\<forall>line. Print line \<notin> set es)"
    by (rule mint_Inr[OF assms(3,1,2)])
  have ok: "source_ok source" by (rule source_name_new_ok[OF src])
  from mint_token_authenticates[OF mt ok assms(6)] obtain h where
      auth: "starts_with TOKEN_PREFIX (token_expose token)"
        "authenticated E (wr_ingest srv) (Some (lit ''Bearer '' @ token_expose token)) ?d' = Inr source"
      and h: "token_hash E (utf8_bytes (cfg_token_secret c)) token = Inr h"
      and new: "\<forall>t \<in> set (db_tokens ?d). tk_hash t \<noteq> token_hash_bytes h"
      and d': "?d' = ?d\<lparr>db_tokens := db_tokens ?d @ [\<lparr>tk_hash = token_hash_bytes h, tk_source = source_str source, tk_label = label,
        tk_created_at = db_now ?d, tk_revoked_at = None\<rparr>]\<rparr>"
      and others: "\<forall>other. other \<noteq> h \<longrightarrow> pg_authenticate other ?d' = pg_authenticate other ?d"
    by blast
  have "find (\<lambda>t. tk_hash t = token_hash_bytes h \<and> tk_revoked_at t = None) (db_tokens ?d) = None"
    using new by (auto simp: find_None_iff)
  moreover have "pg_authenticate h (revoke label ?d') =
      (case find (\<lambda>t. tk_hash t = token_hash_bytes h \<and> tk_revoked_at t = None) (db_tokens ?d') of
         None \<Rightarrow> Inr None | Some t \<Rightarrow> if tk_label t = label then Inr None else pg_authenticate h ?d')"
    using assms(4) new by (intro authenticate_revoked_tokens) (auto simp: d' db_ok_def)
  ultimately have "pg_authenticate h (revoke label ?d') = Inr None" by (simp add: d' find_app)
  then have "authenticated E (wr_ingest srv) (Some (lit ''Bearer '' @ token_expose token)) (revoke label ?d') = Inl Unauthorized"
    using h service_Inr(2)[OF assms(6)]
    by (simp add: authenticated_def token_from_presented_def token_expose_def with_limits_def ingest_state_new_def del: lit_simps)
  with src auth log h others show ?thesis
    by (intro exI[of _ source] exI[of _ token] exI[of _ h]) (simp add: d')
qed

lemma minted_credential_authenticates_witness:
  "\<exists>srv w' token. service sample_finish (postgres_store sample_env) (SchemaSet []) sample_config = Inr srv \<and>
     main sample_env (sample_outside sample_files) (Some (TokenMint (lit ''erp'') (lit ''outbox''))) sample_process = (Inr (), w') \<and>
     authenticated sample_env (wr_ingest srv) (Some (lit ''Bearer '' @ token_expose token)) (pr_db w') = Inr erp \<and>
     authenticated sample_env (wr_ingest srv) (Some (lit ''Bearer '' @ token_expose token)) (revoke (lit ''outbox'') (pr_db w')) = Inl Unauthorized"
proof -
  let ?os = "sample_outside sample_files" and ?cmd = "Some (TokenMint (lit ''erp'') (lit ''outbox''))"
  obtain srv where srv: "service sample_finish (postgres_store sample_env) (SchemaSet []) sample_config = Inr srv"
    by (rule sample_service)
  have "is_ok (fst (mint_token sample_env (postgres_store sample_env) (\<lambda>n. Some (replicate n 1)) sample_config erp (lit ''outbox'') (empty_db 7)))"
    by code_simp
  then obtain token d' where "mint_token sample_env (postgres_store sample_env) (\<lambda>n. Some (replicate n 1)) sample_config erp
      (lit ''outbox'') (empty_db 7) = (Inr token, d')"
    by (metis is_ok_iff prod.collapse)
  moreover have "source_name_new (lit ''erp'') = Inr erp" using sample_names_ok(1) by (simp add: source_ok_def erp_def)
  ultimately obtain w' where run: "main sample_env ?os ?cmd sample_process = (Inr (), w')"
    unfolding main_def sample_config_accepted
    by (simp add: mint_def connect_def connect_with_def action_defs sample_outside_def sample_process_def)
  have over: "over_postgres sample_env ?os" by (simp add: over_postgres_def sample_outside_def)
  have d: "db_ok sample_env (snd (migrated ?os sample_config (pr_db sample_process)))"
    by (simp add: migrated_def sample_outside_def sample_process_def)
  from minted_credential_authenticates[OF over sample_config_accepted run d env_okD(1)[OF sample_env_ok] srv] srv run
  show ?thesis by (auto simp: erp_def source_name_new_def result_simps)
qed

end
