(* ===== verification/Concurrent_Service.thy ===== *)
theory Concurrent_Service
  imports Serial_Batches Service_Properties Startup
begin

text \<open>
  The service with requests in flight. A request authenticates in one committed state, begins its
  transaction in a later one, and its statements, its commit and everything other requests do come in
  between; credentials are issued and revoked meanwhile. A single delete is a transaction of one statement.
\<close>

section \<open>Requests in flight\<close>

text \<open>The committed database with the open transactions, and the sources of the requests that have
  authenticated and not yet begun.\<close>

type_synonym in_flight = "cluster \<times> source_name list"

inductive serving_step :: "env \<Rightarrow> db ingest_state \<Rightarrow> in_flight \<Rightarrow> in_flight \<Rightarrow> bool" for E a where
  serving_authenticated: "authenticated E a auth d = Inr source \<Longrightarrow>
    serving_step E a ((d, ts), ws) ((d, ts), ws @ [source])"
| serving_ingest: "body_ok (Inr envs) \<Longrightarrow> collection_name_new ct = Inr collection \<Longrightarrow>
    schema_set_get (is_schemas a) collection = Some schema \<Longrightarrow> int (length envs) \<le> MAX_BATCH \<Longrightarrow>
    fst (prepare_all E schema (is_max_payload_bytes a) envs) = Inr ps \<Longrightarrow>
    traverse (hash_op E) (map fst ps) = Inr hashed \<Longrightarrow>
    serving_step E a ((d, ts), us @ source # vs) ((d, ts @ [tx_begin source collection hashed d]), us @ vs)"
| serving_delete: "collection_name_new ct = Inr collection \<Longrightarrow> schema_set_contains (is_schemas a) collection \<Longrightarrow>
    record_id_new it = Inr i \<Longrightarrow>
    serving_step E a ((d, ts), us @ source # vs) ((d, ts @ [tx_begin source collection [(OpDelete i, None)] d]), us @ vs)"
| serving_refused: "serving_step E a (cl, us @ source # vs) (cl, us @ vs)"
| serving_token: "source_ok source \<Longrightarrow> pg_store_token h source label d = (r, d') \<Longrightarrow>
    serving_step E a ((d, ts), ws) ((d', ts), ws)"
| serving_revoke: "serving_step E a ((d, ts), ws) ((revoke label d, ts), ws)"
| serving_store: "cluster_step E (d, ts) (d', ts') \<Longrightarrow> length ts' \<le> length ts \<Longrightarrow>
    serving_step E a ((d, ts), ws) ((d', ts'), ws)"

lemma tx_begin_simps [simp]:
  "tx_source (tx_begin source collection hashed d) = source" "tx_collection (tx_begin source collection hashed d) = collection"
  "tx_pending (tx_begin source collection hashed d) = hashed" "tx_outcomes (tx_begin source collection hashed d) = []"
  "tx_rows (tx_begin source collection hashed d) = []" "tx_now (tx_begin source collection hashed d) = db_now d"
  by (simp_all add: tx_begin_def)

section \<open>What the sequential handlers do is among these steps\<close>

lemma tx_run_steps:
  assumes "tx_run E (tx_pending t) t d = (r, d')"
  shows "(serving_step E a)\<^sup>*\<^sup>* ((d, [t]), ws) ((d', []), ws)"
  using assms
proof (induction "tx_pending t" arbitrary: t d)
  case Nil
  then have "cluster_step E (d, [t]) (d', [])" using cluster_commit[of t E d "[]" "[]"] by simp
  then show ?case by (intro r_into_rtranclp serving_store) simp_all
next
  case (Cons oh rest)
  then have pending: "tx_pending t = oh # rest" by simp
  obtain r1 d1 where st: "tx_statement E oh t d = (r1, d1)" by fastforce
  show ?case
  proof (cases r1)
    case (Inl e)
    then have "d' = d1" using Cons.prems pending st by simp
    with Inl have "cluster_step E (d, [t]) (d', [])" using cluster_failed[of t oh rest E d e d1 "[]" "[]"] pending st by simp
    then show ?thesis by (intro r_into_rtranclp serving_store) simp_all
  next
    case (Inr t1)
    then have "tx_pending t1 = rest" using st pending by (auto simp: tx_statement_def Let_def split: prod.splits sum.splits)
    moreover have "tx_run E rest t1 d1 = (r, d')" using Cons.prems pending st Inr by simp
    ultimately have "(serving_step E a)\<^sup>*\<^sup>* ((d1, [t1]), ws) ((d', []), ws)" using Cons.hyps(1)[of t1 d1] by simp
    moreover have "cluster_step E (d, [t]) (d1, [t1])"
      using cluster_statement[of t oh rest E d t1 d1 "[]" "[]"] pending st Inr by (simp add: lock_free_def)
    then have "serving_step E a ((d, [t]), ws) ((d1, [t1]), ws)" by (intro serving_store) simp_all
    ultimately show ?thesis by (rule converse_rtranclp_into_rtranclp[rotated])
  qed
qed

lemma ingest_run:
  assumes "env_ok E" and "db_ok E d" and "is_store a = postgres_store E" and "body_ok body"
    and "ingest E a auth ct body d d = (r, counted, d')"
  shows "(serving_step E a)\<^sup>*\<^sup>* ((d, []), []) ((d', []), [])"
  using assms(5)
proof (cases rule: ingest_cases)
  case (applied source collection schema envs ps ar)
  have envs: "list_all envelope_ok envs" using applied(4) assms(4) by (simp add: body_ok_def)
  have ops: "list_all op_ok (map fst ps)" by (rule prepared_all_ok(1)[OF applied(6) envs])
  have names: "source_ok source" "collection_ok collection"
    using pg.authenticated_ok[OF assms(3) applied(1)] collection_name_new_ok[OF applied(2)] by auto
  have run: "tx_apply E source collection (map fst ps) d = (ar, d')"
    using applied(7) assms(3) tx_apply_is_pg_apply[OF assms(1,2) names ops] by simp
  show ?thesis
  proof (cases "traverse (hash_op E) (map fst ps)")
    case (Inl e)
    with run show ?thesis by (simp add: tx_apply_def)
  next
    case (Inr hashed)
    let ?t = "tx_begin source collection hashed d"
    have "serving_step E a ((d, []), []) ((d, []), [source])" using serving_authenticated[OF applied(1), of "[]" "[]"] by simp
    moreover have "serving_step E a ((d, []), [source]) ((d, [?t]), [])"
      using serving_ingest[OF _ applied(2,3,5,6) Inr, of d "[]" "[]" source "[]"] assms(4) applied(4) by simp
    moreover have "(serving_step E a)\<^sup>*\<^sup>* ((d, [?t]), []) ((d', []), [])"
      using run Inr by (intro tx_run_steps[of E ?t]) (simp add: tx_apply_def)
    ultimately show ?thesis by (meson converse_rtranclp_into_rtranclp)
  qed
qed simp

lemma delete_run:
  assumes "env_ok E" and "db_ok E d" and "is_store a = postgres_store E"
    and "delete_record E a auth ct it d d = (r, d')"
  shows "(serving_step E a)\<^sup>*\<^sup>* ((d, []), []) ((d', []), [])"
  using assms(4)
proof (cases rule: delete_cases)
  case (applied source collection i dr)
  let ?t = "tx_begin source collection [(OpDelete i, None)] d"
  let ?key = "record_key_new source collection i"
  have names: "source_ok source" "collection_ok collection" "op_ok (OpDelete i)"
    using pg.authenticated_ok[OF assms(3) applied(1)] collection_name_new_ok[OF applied(2)] record_id_new_ok[OF applied(4)] by auto
  have hashed: "hash_op E (OpDelete i) = Inr (OpDelete i, None)" by (simp add: hash_op_def)
  have del: "write_delete ?key d = (dr, d')" using applied(5) assms(3) by (simp add: pg_delete_def)
  obtain q d1 where one: "apply_op E source collection (OpDelete i, None) d = (q, d1)" by fastforce
  then have "d1 = d'" using del by (auto simp: split: prod.splits)
  have view: "tx_view ?t d = d" by (simp add: tx_view_def tx_begin_def)
  have same: "case q of Inl e \<Rightarrow> d1 = d\<lparr>db_seq_last := db_seq_last d1\<rparr> | Inr _ \<Rightarrow> True"
    using assms(1,2) names hashed one by (cases rule: apply_op_cases) auto
  have "tx_run E [(OpDelete i, None)] ?t d =
      (case apply_ops E source collection [(OpDelete i, None)] d of
         (Inl e, after) \<Rightarrow> (Inl e, d\<lparr>db_seq_last := db_seq_last after\<rparr>)
       | (Inr outcomes, after) \<Rightarrow> (Inr (tx_outcomes ?t @ outcomes), after))"
    using tx_run_applies[of E ?t d "[OpDelete i]" "[(OpDelete i, None)]"] assms(1,2) names hashed
    by (simp add: view)
  then have "\<exists>q'. tx_run E (tx_pending ?t) ?t d = (q', d')"
    using one same \<open>d1 = d'\<close> by (cases q) (simp_all add: map_ok_def)
  then have "(serving_step E a)\<^sup>*\<^sup>* ((d, [?t]), []) ((d', []), [])" using tx_run_steps by blast
  moreover have "serving_step E a ((d, []), []) ((d, []), [source])" using serving_authenticated[OF applied(1), of "[]" "[]"] by simp
  moreover have "serving_step E a ((d, []), [source]) ((d, [?t]), [])"
    using serving_delete[OF applied(2,3,4), of E d "[]" "[]" source "[]"] by simp
  ultimately show ?thesis by (meson converse_rtranclp_into_rtranclp)
qed simp


section \<open>What holds with requests in flight\<close>

text \<open>Some credential was issued for the source.\<close>

definition credentialed :: "db \<Rightarrow> source_name \<Rightarrow> bool" where
  "credentialed d source \<longleftrightarrow> (\<exists>k \<in> set (db_tokens d). tk_source k = source_str source)"

text \<open>A transaction of a credentialed source on a declared collection, whose operations were prepared with its
  schema and whose rows hold what they were prepared to.\<close>

definition tx_served :: "schema_set \<Rightarrow> db \<Rightarrow> txn \<Rightarrow> bool" where
  "tx_served schemas d t \<longleftrightarrow> credentialed d (tx_source t) \<and>
     (\<exists>schema. schema_set_get schemas (tx_collection t) = Some schema \<and>
        list_all (\<lambda>oh. op_conforms schema (fst oh)) (tx_pending t)) \<and>
     (\<forall>r \<in> set (tx_rows t). declared schemas (record_of r) \<and> in_collection (tx_source t) (tx_collection t) r)"

definition serving_ok :: "env \<Rightarrow> schema_set \<Rightarrow> in_flight \<Rightarrow> bool" where
  "serving_ok E schemas st \<longleftrightarrow>
     (let ((d, ts), ws) = st
      in cluster_ok E (d, ts) \<and> list_all (tx_served schemas d) ts \<and>
         list_all (\<lambda>source. source_ok source \<and> credentialed d source) ws \<and>
         (\<forall>x \<in> db_contents d. declared schemas x \<and> credentialed d (key_source (sr_key x))))"

lemma authenticated_credentialed:
  assumes "is_store a = postgres_store E" "authenticated E a auth d = Inr source"
  shows "credentialed d source"
proof -
  from assms obtain h where "pg_authenticate h d = Inr (Some source)"
    by (auto simp: authenticated_def result_simps)
  then obtain k where "k \<in> set (db_tokens d)" "source_name_new (tk_source k) = Inr source"
    by (auto simp: pg_authenticate_def transpose_result_def map_err_def dest!: find_SomeD split: option.splits sum.splits)
  moreover from this(2) have "tk_source k = source_str source" by (auto simp: source_name_new_def result_simps)
  ultimately show ?thesis by (auto simp: credentialed_def)
qed

lemma credentialed_tokens: "db_tokens d' = db_tokens d \<Longrightarrow> credentialed d' = credentialed d"
  by (simp add: fun_eq_iff credentialed_def)

lemma tx_served_tokens: "db_tokens d' = db_tokens d \<Longrightarrow> tx_served schemas d' = tx_served schemas d"
  by (simp add: fun_eq_iff tx_served_def credentialed_def)

lemma cluster_step_tokens: "cluster_step E (d, ts) (d', ts') \<Longrightarrow> db_tokens d' = db_tokens d"
  by (cases rule: cluster_step.cases)
     (auto simp: tx_statement_def tx_commit_def Let_def split: prod.splits sum.splits)

lemma written_row_declared:
  assumes E: "env_ok E" and row: "op_row E (op_key source collection op) op new" and op: "op_ok op" "op_conforms schema op"
    and schema: "schema_set_get schemas collection = Some schema"
  shows "declared schemas (record_of new)"
proof -
  have scope: "in_scope source collection (record_of new)"
    using op_row_at[OF row] by (simp add: in_scope_record_of)
  have result: "op_result (\<lambda>p w. e_jsonb E p = Some w) op (record_of new)" by (rule op_row_result[OF row])
  have "document_conforms schema (sr_payload (record_of new))"
  proof (cases op)
    case (OpUpsert i p)
    then have p: "json_ok p" "document_conforms schema p" "e_jsonb E p = Some (sr_payload (record_of new))"
      using op result by (simp_all add: op_conforms_def)
    have "pg_inv E (empty_db 0)" using E by (simp add: pg_inv_def)
    from pg.keeps_shape[OF this p(1,3)] p(2) show ?thesis by (auto intro: document_conforms_same_shape)
  next
    case (OpDelete i)
    with result show ?thesis by (simp add: document_conforms_def)
  qed
  with scope schema show ?thesis by (auto simp: declared_def in_scope_def)
qed

lemma tx_served_statement:
  assumes E: "env_ok E" and ok: "db_ok E d" and t: "tx_ok E d t" "tx_served schemas d t"
    and pending: "tx_pending t = oh # rest" and res: "tx_statement E oh t d = (Inr t', d')"
  shows "tx_served schemas d' t'"
proof -
  have op: "source_ok (tx_source t)" "collection_ok (tx_collection t)" "op_ok (fst oh)" "hash_op E (fst oh) = Inr oh"
    using t(1) pending by (simp_all add: tx_ok_def tx_valid_def)
  from t(2) pending obtain schema where schema: "schema_set_get schemas (tx_collection t) = Some schema" "op_conforms schema (fst oh)"
    and rest: "list_all (\<lambda>oh. op_conforms schema (fst oh)) rest"
    by (auto simp: tx_served_def)
  from E db_ok_view[OF ok t(1)] op res show ?thesis
  proof (cases rule: tx_statement_cases)
    case (unchanged a s)
    with t(2) pending rest schema show ?thesis by (simp add: tx_served_def after_statement_def credentialed_def)
  next
    case (changed a new)
    have "declared schemas (record_of new)" by (rule written_row_declared[OF E changed(5) op(3) schema(2,1)])
    with changed(1,2) op_row_at[OF changed(5)] t(2) pending rest schema show ?thesis
      by (auto simp: tx_served_def after_statement_def credentialed_def set_put_row)
  qed simp
qed

lemma commit_contents:
  assumes "tx_ok E d t" "x \<in> db_contents (tx_commit t d)"
  shows "x \<in> db_contents d \<or> x \<in> record_of ` set (tx_rows t)"
proof -
  have "distinct (map row_id (tx_rows t))" using assms(1) by (simp add: tx_ok_def)
  from set_overlay[OF this, of "db_rows d"] assms(2) show ?thesis by (auto simp: db_contents_def tx_commit_def)
qed

lemma commit_scope:
  assumes "tx_ok E d t" "\<And>r. r \<in> set (tx_rows t) \<Longrightarrow> in_collection s c r"
  shows "{x \<in> db_contents (tx_commit t d). \<not> in_scope s c x} = {x \<in> db_contents d. \<not> in_scope s c x}"
proof -
  have "distinct (map row_id (tx_rows t))" using assms(1) by (simp add: tx_ok_def)
  note rows = set_overlay[OF this, of "db_rows d"]
  have "row_id r \<notin> row_id ` set (tx_rows t)" if "\<not> in_collection s c r" for r
    using that assms(2) in_collection_row_id by (metis imageE)
  then show ?thesis using assms(2) by (auto simp: db_contents_def tx_commit_def rows in_scope_record_of)
qed

lemma serving_ok_store:
  assumes "cluster_step E (d, ts) (d', ts')" "length ts' \<le> length ts" "env_ok E" "serving_ok E schemas ((d, ts), ws)"
  shows "serving_ok E schemas ((d', ts'), ws)"
proof -
  have ok: "cluster_ok E (d, ts)" and served: "list_all (tx_served schemas d) ts"
    and ws: "list_all (\<lambda>source. source_ok source \<and> credentialed d source) ws"
    and recs: "\<forall>x \<in> db_contents d. declared schemas x \<and> credentialed d (key_source (sr_key x))"
    using assms(4) by (simp_all add: serving_ok_def)
  have ok': "cluster_ok E (d', ts')" by (rule cluster_step_ok[OF assms(1,3) ok])
  note tokens = cluster_step_tokens[OF assms(1)]
  have "list_all (tx_served schemas d) ts' \<and>
    (\<forall>x \<in> db_contents d'. declared schemas x \<and> credentialed d (key_source (sr_key x)))"
    using assms(1)
  proof (cases rule: cluster_step.cases)
    case (cluster_begin source collection ops hashed)
    with assms(2) show ?thesis by simp
  next
    case (cluster_statement t oh rest t' us vs)
    then have t: "db_ok E d" "tx_ok E d t" "tx_served schemas d t" using ok served by (simp_all add: cluster_ok_def)
    have "tx_served schemas d' t'" by (rule tx_served_statement[OF assms(3) t cluster_statement(3,4)])
    then show ?thesis using served recs statement_leaves_rows[OF cluster_statement(4)] cluster_statement(1,2)
      by (simp add: tx_served_tokens[OF tokens] db_contents_def)
  next
    case (cluster_failed t oh rest e us vs)
    then show ?thesis using served recs statement_leaves_rows[OF cluster_failed(4)] by (simp add: db_contents_def)
  next
    case (cluster_commit t us vs)
    then have t: "tx_ok E d t" "tx_served schemas d t" using ok served by (simp_all add: cluster_ok_def)
    have "declared schemas x \<and> credentialed d (key_source (sr_key x))" if "x \<in> db_contents d'" for x
    proof -
      from that commit_contents[OF t(1)] consider "x \<in> db_contents d" | r where "r \<in> set (tx_rows t)" "x = record_of r"
        unfolding cluster_commit(2) by blast
      then show ?thesis
      proof cases
        case (2 r)
        then have "in_collection (tx_source t) (tx_collection t) r" "declared schemas x" using t(2) by (simp_all add: tx_served_def)
        moreover from this(1) have "key_source (sr_key x) = tx_source t"
          using 2(2) in_scope_record_of[of "tx_source t" "tx_collection t" r] by (simp add: in_scope_def)
        ultimately show ?thesis using t(2) by (simp add: tx_served_def)
      qed (use recs in blast)
    qed
    with served cluster_commit show ?thesis by simp
  next
    case (cluster_abort us t vs)
    with served recs show ?thesis by simp
  next
    case (cluster_clock n)
    with served recs show ?thesis by (simp add: db_contents_def)
  qed
  with ok' ws show ?thesis by (simp add: serving_ok_def tx_served_tokens[OF tokens] credentialed_tokens[OF tokens])
qed

lemma serving_ok_begin:
  assumes "cluster_step E (d, ts) (d, ts @ [t])" "env_ok E" "serving_ok E schemas ((d, ts), us @ source # vs)"
    and "tx_served schemas d t"
  shows "serving_ok E schemas ((d, ts @ [t]), us @ vs)"
  using assms(3,4) cluster_step_ok[OF assms(1,2)] by (simp add: serving_ok_def)

lemma hashed_ops: "traverse (hash_op E) ops = Inr hashed \<Longrightarrow> map fst hashed = ops"
proof (induction ops arbitrary: hashed)
  case (Cons op ops)
  then obtain oh rest where "hash_op E op = Inr oh" "traverse (hash_op E) ops = Inr rest" "hashed = oh # rest"
    unfolding traverse_Cons_Inr by blast
  with Cons.IH hash_op_fst show ?case by simp
qed simp

lemma cluster_ok_tokens:
  assumes "cluster_ok E (d, ts)" "db_ok E d'" "db_rows d' = db_rows d" "db_seq_last d' = db_seq_last d"
  shows "cluster_ok E (d', ts)"
  using assms by (simp add: cluster_ok_def tx_ok_def)

lemma pg_token_effect:
  assumes "pg_store_token h source label d = (r, d')" "source_ok source" "cluster_ok E (d, ts)"
  shows "cluster_ok E (d', ts) \<and> db_contents d' = db_contents d \<and> set (db_tokens d) \<subseteq> set (db_tokens d')"
proof -
  have "d' = d \<or> (db_ok E d' \<and> db_rows d' = db_rows d \<and> db_seq_last d' = db_seq_last d \<and> set (db_tokens d) \<subseteq> set (db_tokens d'))"
  proof (cases "d' = d")
    case False
    then have new: "\<forall>t \<in> set (db_tokens d). tk_hash t \<noteq> token_hash_bytes h" and d': "d' = d\<lparr>db_tokens := db_tokens d @
        [\<lparr>tk_hash = token_hash_bytes h, tk_source = source_str source, tk_label = label, tk_created_at = db_now d, tk_revoked_at = None\<rparr>]\<rparr>"
      and form: "length (token_hash_bytes h) = 32" "label \<noteq> []"
      using assms(1) by (auto simp: pg_store_token_def split: if_splits)
    have "token_hash_bytes h \<notin> tk_hash ` set (db_tokens d)" using new by auto
    then have "db_ok E d'" using assms(2,3) form by (simp add: d' cluster_ok_def db_ok_def token_ok_def)
    then show ?thesis by (auto simp: d')
  qed simp
  then show ?thesis using assms(3) cluster_ok_tokens by (auto simp: db_contents_def)
qed

lemma credentialed_mono: "tk_source ` set (db_tokens d) \<subseteq> tk_source ` set (db_tokens d') \<Longrightarrow> credentialed d s \<Longrightarrow> credentialed d' s"
  unfolding credentialed_def by (metis (no_types, lifting) image_iff subset_iff)

lemma serving_ok_grow:
  assumes "serving_ok E schemas ((d, ts), ws)" "cluster_ok E (d', ts)" "db_contents d' = db_contents d"
    and "tk_source ` set (db_tokens d) \<subseteq> tk_source ` set (db_tokens d')"
  shows "serving_ok E schemas ((d', ts), ws)"
proof -
  note more_tokens = credentialed_mono[OF assms(4)]
  have "tx_served schemas d t \<Longrightarrow> tx_served schemas d' t" for t
    using more_tokens unfolding tx_served_def by blast
  then show ?thesis using assms(1-3) more_tokens by (auto simp: serving_ok_def list_all_iff)
qed

lemma serving_step_ok:
  assumes "serving_step E a st st'" "env_ok E" "is_store a = postgres_store E" "serving_ok E (is_schemas a) st"
  shows "serving_ok E (is_schemas a) st'"
  using assms
proof (induction rule: serving_step.induct)
  case (serving_authenticated auth d source ts ws)
  then show ?case using authenticated_credentialed pg.authenticated_ok by (simp add: serving_ok_def)
next
  case (serving_ingest envs ct collection schema ps hashed d ts us source vs)
  have envs: "list_all envelope_ok envs" using serving_ingest.hyps(1) by (simp add: body_ok_def)
  note ops = prepared_all_ok[OF serving_ingest.hyps(5) envs]
  have source: "source_ok source" "credentialed d source" using serving_ingest.prems(3) by (simp_all add: serving_ok_def)
  have "cluster_step E (d, ts) (d, ts @ [tx_begin source collection hashed d])"
    by (rule cluster_begin[OF source(1) collection_name_new_ok[OF serving_ingest.hyps(2)] ops(1) serving_ingest.hyps(6)])
  moreover have "list_all (\<lambda>oh. op_conforms schema (fst oh)) hashed"
    using ops(2) unfolding hashed_ops[OF serving_ingest.hyps(6), symmetric] by (simp add: list.pred_map comp_def)
  then have "tx_served (is_schemas a) d (tx_begin source collection hashed d)"
    using source serving_ingest.hyps(3) by (simp add: tx_served_def)
  ultimately show ?case using serving_ok_begin serving_ingest.prems(1,3) by blast
next
  case (serving_delete ct collection it i d ts us source vs)
  have source: "source_ok source" "credentialed d source" using serving_delete.prems(3) by (simp_all add: serving_ok_def)
  have "cluster_step E (d, ts) (d, ts @ [tx_begin source collection [(OpDelete i, None)] d])"
    using record_id_new_ok[OF serving_delete.hyps(3)]
    by (intro cluster_begin[OF source(1) collection_name_new_ok[OF serving_delete.hyps(1)], of "[OpDelete i]"])
       (simp_all add: hash_op_def)
  moreover have "tx_served (is_schemas a) d (tx_begin source collection [(OpDelete i, None)] d)"
    using source serving_delete.hyps(2) by (auto simp: tx_served_def schema_set_contains_def op_conforms_def)
  ultimately show ?case using serving_ok_begin serving_delete.prems(1,3) by blast
next
  case (serving_refused cl us source vs)
  then show ?case by (cases cl) (simp add: serving_ok_def)
next
  case (serving_token source h label d r d' ts ws)
  have "cluster_ok E (d, ts)" using serving_token.prems(3) by (simp add: serving_ok_def)
  from pg_token_effect[OF serving_token.hyps(2,1) this] serving_ok_grow[OF serving_token.prems(3)] show ?case
    by (simp add: image_mono)
next
  case (serving_revoke d ts ws label)
  have "cluster_ok E (d, ts)" using serving_revoke.prems(3) by (simp add: serving_ok_def)
  then have "cluster_ok E (revoke label d, ts)"
    by (rule cluster_ok_tokens) (use \<open>cluster_ok E (d, ts)\<close> db_ok_revoke in \<open>auto simp: cluster_ok_def revoke_def\<close>)
  moreover have "map tk_source (db_tokens (revoke label d)) = map tk_source (db_tokens d)" by (simp add: revoke_def)
  then have "tk_source ` set (db_tokens (revoke label d)) = tk_source ` set (db_tokens d)" by (metis set_map)
  moreover have "db_contents (revoke label d) = db_contents d" by (simp add: db_contents_def revoke_def)
  ultimately show ?case using serving_ok_grow[OF serving_revoke.prems(3)] by simp
next
  case (serving_store d ts d' ts' ws)
  then show ?case using serving_ok_store by blast
qed

lemma serving_run_ok:
  assumes "(serving_step E a)\<^sup>*\<^sup>* ((empty_db t0, []), []) st" "env_ok E" "is_store a = postgres_store E"
  shows "serving_ok E (is_schemas a) st"
  using assms(1)
proof (induction rule: rtranclp_induct)
  case base
  then show ?case by (simp add: serving_ok_def cluster_ok_def) (simp add: db_contents_def empty_db_def)
next
  case (step st st')
  show ?case by (rule serving_step_ok[OF step.hyps(2) assms(2,3) step.IH])
qed

section \<open>What the concurrent service promises\<close>

text \<open>C1: The public surface cannot leak, with any number of requests in flight: whatever is sent and by whom,
  however the statements and commits of the requests interleave, and whatever credentials are issued
  or revoked meanwhile, a listing, a feed page and an item carry only payloads of a declared collection
  that conform to its schema.\<close>

theorem concurrent_service_serves_declared_fields:
  assumes "env_ok E" and "is_store a = postgres_store E"
    and "(serving_step E a)\<^sup>*\<^sup>* ((empty_db t0, []), []) ((d, ts), ws)"
    and "as_store pub = postgres_store E" and "as_schemas pub = is_schemas a"
    and "list_collection E pub st ct q inm d0 d = Inr r \<or> changes E pub st ct cq inm d0 d = Inr r \<or>
      get_record E pub st ct it inm d = Inr r"
  shows "\<exists>schema. schema_set_get (as_schemas pub) (CollectionName ct) = Some schema \<and>
    (\<forall>w \<in> set (served_payloads (rs_body r)). document_conforms schema w)"
proof -
  have "serving_ok E (is_schemas a) ((d, ts), ws)" by (rule serving_run_ok[OF assms(3,1,2)])
  then have "pg_inv E d" "\<forall>x \<in> db_contents d. declared (as_schemas pub) x"
    using assms(1,5) by (simp_all add: serving_ok_def cluster_ok_def pg_inv_def)
  from pg.reads_declared[OF this assms(4,6)] show ?thesis .
qed

text \<open>C8: No record without a credential: with any number of requests in flight, every record that is committed
  belongs to a source some credential was issued for, and one step of the service changes records of
  one such source and one declared collection only.\<close>

theorem records_have_credentials:
  assumes "env_ok E" and "is_store a = postgres_store E"
    and "(serving_step E a)\<^sup>*\<^sup>* ((empty_db t0, []), []) ((d, ts), ws)"
    and "serving_step E a ((d, ts), ws) ((d', ts'), ws')"
  shows "(\<forall>x \<in> db_contents d. credentialed d (key_source (sr_key x))) \<and>
    (db_contents d' = db_contents d \<or>
      (\<exists>source collection. credentialed d source \<and> schema_set_contains (is_schemas a) collection \<and>
        {x \<in> db_contents d'. \<not> in_scope source collection x} = {x \<in> db_contents d. \<not> in_scope source collection x}))"
proof
  have inv: "serving_ok E (is_schemas a) ((d, ts), ws)" by (rule serving_run_ok[OF assms(3,1,2)])
  then show "\<forall>x \<in> db_contents d. credentialed d (key_source (sr_key x))" by (simp add: serving_ok_def)
  from assms(4) show "db_contents d' = db_contents d \<or>
      (\<exists>source collection. credentialed d source \<and> schema_set_contains (is_schemas a) collection \<and>
        {x \<in> db_contents d'. \<not> in_scope source collection x} = {x \<in> db_contents d. \<not> in_scope source collection x})"
  proof (cases rule: serving_step.cases)
    case (serving_store)
    have ok: "cluster_ok E (d, ts)" using inv by (simp add: serving_ok_def)
    from serving_store(2) assms(1) ok show ?thesis
    proof (cases rule: cluster_step_rows)
      case (2 t)
      then have t: "tx_ok E d t" "tx_served (is_schemas a) d t"
        using inv by (auto simp: serving_ok_def cluster_ok_def list_all_iff)
      have "{x \<in> db_contents d'. \<not> in_scope (tx_source t) (tx_collection t) x} =
          {x \<in> db_contents d. \<not> in_scope (tx_source t) (tx_collection t) x}"
        unfolding 2(2) by (rule commit_scope[OF t(1)]) (use t(2) in \<open>simp add: tx_served_def\<close>)
      moreover have "credentialed d (tx_source t)" "schema_set_contains (is_schemas a) (tx_collection t)"
        using t(2) by (auto simp: tx_served_def schema_set_contains_def)
      ultimately show ?thesis by blast
    qed (simp add: db_contents_def)
  next
    case (serving_token source h label r)
    with pg_token_effect[of h source label d r d' E ts] inv show ?thesis by (simp add: serving_ok_def)
  qed (simp_all add: db_contents_def revoke_def)
qed

section \<open>A record, and its deletion in flight\<close>

lemma shop_run: "(serving_step sample_env sample_ingest)\<^sup>*\<^sup>* ((empty_db 7, []), []) ((shop_after, []), [])"
proof -
  obtain resp counted where run: "ingest sample_env sample_ingest sample_auth (lit ''products'') (Inr shop_envelopes) shop_db shop_db =
      (Inr resp, counted, shop_after)"
    by (rule shop_ingested)
  obtain r where "pg_store_token sample_credential erp (lit ''outbox'') (empty_db 7) = (r, shop_db)"
    by (metis prod.collapse shop_db_def)
  then have "serving_step sample_env sample_ingest ((empty_db 7, []), []) ((shop_db, []), [])"
    by (intro serving_token[of erp]) simp_all
  moreover have "db_ok sample_env shop_db"
    using deployed_inv[OF shop_db_deployed sample_env_ok] by (simp add: pg_inv_def)
  from ingest_run[OF sample_env_ok this sample_ingest_simps(1) shop_envelopes_ok run]
  have "(serving_step sample_env sample_ingest)\<^sup>*\<^sup>* ((shop_db, []), []) ((shop_after, []), [])" .
  ultimately show ?thesis by (rule converse_rtranclp_into_rtranclp)
qed


definition shop_deletion :: txn where
  "shop_deletion = tx_begin erp products [(OpDelete (RecordId (lit ''SW1'')), None)] shop_after"

lemma shop_deletion_open:
  "(serving_step sample_env sample_ingest)\<^sup>*\<^sup>* ((empty_db 7, []), []) ((shop_after, [shop_deletion]), [])"
proof -
  have "is_ok (authenticated sample_env sample_ingest sample_auth shop_after) \<and>
      (case authenticated sample_env sample_ingest sample_auth shop_after of Inr s \<Rightarrow> s = erp | Inl _ \<Rightarrow> False)"
    by code_simp
  then have "authenticated sample_env sample_ingest sample_auth shop_after = Inr erp" by (auto split: sum.splits)
  from serving_authenticated[OF this, of "[]" "[]"]
  have "serving_step sample_env sample_ingest ((shop_after, []), []) ((shop_after, []), [erp])" by simp
  moreover have "collection_name_new (lit ''products'') = Inr products" "record_id_new (lit ''SW1'') = Inr (RecordId (lit ''SW1''))"
    by (simp_all add: products_def ident_eval)
  moreover have "schema_set_contains (is_schemas sample_ingest) products"
    by (simp add: sample_api_def api_state_new_def schema_set_contains_def schema_set_get_def bt_get_def)
  ultimately have "serving_step sample_env sample_ingest ((shop_after, []), [erp]) ((shop_after, [shop_deletion]), [])"
    using serving_delete[of "lit ''products''" products sample_ingest "lit ''SW1''" "RecordId (lit ''SW1'')" sample_env shop_after "[]" "[]" erp "[]"]
    by (simp add: shop_deletion_def)
  with \<open>serving_step sample_env sample_ingest ((shop_after, []), []) ((shop_after, []), [erp])\<close> shop_run show ?thesis
    by (meson rtranclp.rtrancl_into_rtrancl)
qed

lemma shop_item: "case get_record sample_env sample_api (lit ''erp'') (lit ''products'') (lit ''SW1'') None shop_after of
    Inl _ \<Rightarrow> False | Inr r \<Rightarrow> served_payloads (rs_body r) = [shop_released]"
  by code_simp

lemma concurrent_service_serves_declared_fields_witness:
  "\<exists>r schema. get_record sample_env sample_api (lit ''erp'') (lit ''products'') (lit ''SW1'') None shop_after = Inr r \<and>
     schema_set_get (as_schemas sample_api) products = Some schema \<and>
     served_payloads (rs_body r) = [shop_released] \<and> document_conforms schema shop_released"
proof -
  obtain r where r: "get_record sample_env sample_api (lit ''erp'') (lit ''products'') (lit ''SW1'') None shop_after = Inr r"
      "served_payloads (rs_body r) = [shop_released]"
    using shop_item by (auto split: sum.splits)
  have "\<exists>schema. schema_set_get (as_schemas sample_api) (CollectionName (lit ''products'')) = Some schema \<and>
      (\<forall>w \<in> set (served_payloads (rs_body r)). document_conforms schema w)"
    by (rule concurrent_service_serves_declared_fields[OF sample_env_ok _ shop_deletion_open _ _ disjI2[OF disjI2[OF r(1)]]]) simp_all
  with r show ?thesis by (auto simp: products_def)
qed

lemma records_have_credentials_witness:
  "serving_step sample_env sample_ingest ((shop_after, [shop_deletion]), []) ((shop_after, []), []) \<and>
   db_contents shop_after \<noteq> {} \<and> list_all (\<lambda>r. credentialed shop_after (SourceName (r_source r))) (db_rows shop_after)"
proof -
  have step: "serving_step sample_env sample_ingest ((shop_after, [shop_deletion]), []) ((shop_after, []), [])"
    using cluster_abort[of sample_env shop_after "[]" shop_deletion "[]"] by (intro serving_store) simp_all
  note owned = conjunct1[OF records_have_credentials[OF sample_env_ok sample_ingest_simps(1) shop_deletion_open step]]
  have "key_source (sr_key (record_of r)) = SourceName (r_source r)" for r by (simp add: record_of_def record_key_new_def)
  with owned have "list_all (\<lambda>r. credentialed shop_after (SourceName (r_source r))) (db_rows shop_after)"
    by (auto simp: db_contents_def list_all_iff)
  moreover have "db_rows shop_after \<noteq> []" by code_simp
  ultimately show ?thesis using step by (simp add: db_contents_def)
qed

end
