(* ===== verification/Routing.thy ===== *)
theory Routing
  imports Startup
begin

text \<open>
  From a method and a path to a handler: the merged route table of \<open>crates/server/src/lib.rs\<close>, looked up the
  way axum's router is documented to. A path is the list of its decoded segments. Which pattern a path
  goes to is axum's choice: \<open>pick\<close>.
\<close>

section \<open>The merged table\<close>

datatype endpoint = PublicRoute handler | IngestRoute ingest_handler

record 'g entry =
  en_method :: http_method
  en_path :: "segment list"
  en_endpoint :: endpoint
  en_limiter :: "'g option"

definition merged_routes :: "('s, 'g) wired \<Rightarrow> 'g entry list" where
  "merged_routes w =
     map (\<lambda>rt. \<lparr>en_method = Get, en_path = rt_path rt, en_endpoint = PublicRoute (rt_handler rt), en_limiter = rt_limiter rt\<rparr>)
       (wr_routes w) @
     map (\<lambda>(m, path, h). \<lparr>en_method = m, en_path = path, en_endpoint = IngestRoute h, en_limiter = None\<rparr>)
       (ir_routes (wr_ingest_routes w))"

text \<open>A parameter stands for one segment that is not empty.\<close>

fun segment_matches :: "segment \<Rightarrow> rstr \<Rightarrow> bool" where
  "segment_matches (Static s) x = (x = lit s)"
| "segment_matches (Param _) x = (x \<noteq> [])"

definition path_matches :: "segment list \<Rightarrow> rstr list \<Rightarrow> bool" where
  "path_matches p path = list_all2 segment_matches p path"

fun arguments :: "segment list \<Rightarrow> rstr list \<Rightarrow> rstr list" where
  "arguments (Static _ # p) (x # path) = arguments p path"
| "arguments (Param _ # p) (x # path) = x # arguments p path"
| "arguments _ _ = []"

text \<open>\<open>get\<close> routes answer HEAD as well.\<close>

definition method_accepted :: "http_method \<Rightarrow> http_method \<Rightarrow> bool" where
  "method_accepted allowed m \<longleftrightarrow> m = allowed \<or> (allowed = Get \<and> m = Head)"

text \<open>Where two patterns first differ in kind, the static segment has priority over the parameter.\<close>

fun more_static :: "segment list \<Rightarrow> segment list \<Rightarrow> bool" where
  "more_static (Static _ # p) (Param _ # q) = True"
| "more_static (Static _ # p) (Static _ # q) = more_static p q"
| "more_static (Param _ # p) (Param _ # q) = more_static p q"
| "more_static _ _ = False"

definition pick_ok :: "(segment list list \<Rightarrow> rstr list \<Rightarrow> segment list option) \<Rightarrow> bool" where
  "pick_ok pick \<longleftrightarrow>
     (\<forall>ps path. case pick ps path of
        None \<Rightarrow> \<forall>p \<in> set ps. \<not> path_matches p path
      | Some p \<Rightarrow> p \<in> set ps \<and> path_matches p path \<and> (\<forall>q \<in> set ps. path_matches q path \<longrightarrow> \<not> more_static q p))"

definition matched ::
    "(segment list list \<Rightarrow> rstr list \<Rightarrow> segment list option) \<Rightarrow> 'g entry list \<Rightarrow> rstr list \<Rightarrow> ('g entry \<times> rstr list) option" where
  "matched pick entries path =
     Option.bind (pick (map en_path entries) path)
       (\<lambda>p. map_option (\<lambda>e. (e, arguments p path)) (find (\<lambda>e. en_path e = p) entries))"

datatype routing = Unrouted | WrongMethod | Routed endpoint "rstr list"

definition routed ::
    "(segment list list \<Rightarrow> rstr list \<Rightarrow> segment list option) \<Rightarrow> 'g entry list \<Rightarrow> http_method \<Rightarrow> rstr list \<Rightarrow> routing" where
  "routed pick entries m path =
     (case matched pick entries path of
        None \<Rightarrow> Unrouted
      | Some (e, args) \<Rightarrow> if method_accepted (en_method e) m then Routed (en_endpoint e) args else WrongMethod)"

section \<open>Where every request goes\<close>

text \<open>The table read off the path, without patterns.\<close>

definition if_method :: "http_method \<Rightarrow> http_method \<Rightarrow> endpoint \<Rightarrow> rstr list \<Rightarrow> routing" where
  "if_method allowed m e args = (if method_accepted allowed m then Routed e args else WrongMethod)"

fun route_of :: "http_method \<Rightarrow> rstr list \<Rightarrow> routing" where
  "route_of m [a] = (if a = lit ''health'' then if_method Get m (PublicRoute Health) [] else Unrouted)"
| "route_of m [v, s, c] =
     (if v \<noteq> lit ''v1'' \<or> s = [] \<or> c = [] then Unrouted
      else if s = lit ''ingest'' then if_method Post m (IngestRoute Ingest) [c]
      else if_method Get m (PublicRoute ListCollection) [s, c])"
| "route_of m [v, s, c, i] =
     (if v \<noteq> lit ''v1'' \<or> s = [] \<or> c = [] \<or> i = [] then Unrouted
      else if s = lit ''ingest''
      then if i = lit ''digests'' then if_method Get m (IngestRoute Digests) [c]
           else if_method DeleteMethod m (IngestRoute DeleteRecord) [c, i]
      else if i = lit ''changes'' then if_method Get m (PublicRoute Changes) [s, c]
      else if i = lit ''manifest'' then if_method Get m (PublicRoute Manifest) [s, c]
      else if_method Get m (PublicRoute GetRecord) [s, c, i])"
| "route_of m _ = Unrouted"

definition route_paths :: "segment list list" where
  "route_paths =
     (let collection = [Static ''v1'', Param ''source'', Param ''collection''];
          ingest = [Static ''v1'', Static ''ingest'', Param ''collection'']
      in [[Static ''health''], collection, collection @ [Static ''changes''], collection @ [Static ''manifest''],
          collection @ [Param ''id''], ingest, ingest @ [Static ''digests''], ingest @ [Param ''id'']])"

lemma path_matches_simps [simp]:
  "path_matches [] path \<longleftrightarrow> path = []"
  "path_matches (s # p) path \<longleftrightarrow> (\<exists>x xs. path = x # xs \<and> segment_matches s x \<and> path_matches p xs)"
  by (auto simp: path_matches_def list_all2_Cons1)

lemma picked:
  assumes "pick_ok pick"
  shows "case pick ps path of
      None \<Rightarrow> \<forall>p \<in> set ps. \<not> path_matches p path
    | Some p \<Rightarrow> p \<in> set ps \<and> path_matches p path \<and> (\<forall>q \<in> set ps. path_matches q path \<longrightarrow> \<not> more_static q p)"
  using assms by (simp add: pick_ok_def)

lemma service_routes:
  assumes "service finish st schemas c = Inr w"
  obtains read feed where
    "merged_routes w =
      (let collection = [Static ''v1'', Param ''source'', Param ''collection''];
           ingest = [Static ''v1'', Static ''ingest'', Param ''collection'']
       in [\<lparr>en_method = Get, en_path = [Static ''health''], en_endpoint = PublicRoute Health, en_limiter = None\<rparr>,
           \<lparr>en_method = Get, en_path = collection, en_endpoint = PublicRoute ListCollection, en_limiter = Some read\<rparr>,
           \<lparr>en_method = Get, en_path = collection @ [Static ''changes''], en_endpoint = PublicRoute Changes, en_limiter = Some feed\<rparr>,
           \<lparr>en_method = Get, en_path = collection @ [Static ''manifest''], en_endpoint = PublicRoute Manifest, en_limiter = Some read\<rparr>,
           \<lparr>en_method = Get, en_path = collection @ [Param ''id''], en_endpoint = PublicRoute GetRecord, en_limiter = Some read\<rparr>,
           \<lparr>en_method = Post, en_path = ingest, en_endpoint = IngestRoute Ingest, en_limiter = None\<rparr>,
           \<lparr>en_method = Get, en_path = ingest @ [Static ''digests''], en_endpoint = IngestRoute Digests, en_limiter = None\<rparr>,
           \<lparr>en_method = DeleteMethod, en_path = ingest @ [Param ''id''], en_endpoint = IngestRoute DeleteRecord, en_limiter = None\<rparr>])"
  using assms
  by (auto simp: service_def router_def public_router_def ingest_router_def merged_routes_def result_simps Let_def
      split: if_splits)

lemma lits_differ [simp]:
  "lit ''ingest'' \<noteq> []" "lit ''changes'' \<noteq> []" "lit ''manifest'' \<noteq> []" "lit ''digests'' \<noteq> []"
  "lit ''changes'' \<noteq> lit ''manifest''" "lit ''manifest'' \<noteq> lit ''changes''"
  by simp_all

text \<open>The pattern a path goes to.\<close>

fun pattern_of :: "rstr list \<Rightarrow> segment list option" where
  "pattern_of [a] = (if a = lit ''health'' then Some (route_paths ! 0) else None)"
| "pattern_of [v, s, c] =
     (if v \<noteq> lit ''v1'' \<or> s = [] \<or> c = [] then None
      else Some (route_paths ! (if s = lit ''ingest'' then 5 else 1)))"
| "pattern_of [v, s, c, i] =
     (if v \<noteq> lit ''v1'' \<or> s = [] \<or> c = [] \<or> i = [] then None
      else if s = lit ''ingest'' then Some (route_paths ! (if i = lit ''digests'' then 6 else 7))
      else Some (route_paths ! (if i = lit ''changes'' then 2 else if i = lit ''manifest'' then 3 else 4)))"
| "pattern_of _ = None"

lemma pattern_best:
  "case pattern_of path of
     None \<Rightarrow> \<forall>p \<in> set route_paths. \<not> path_matches p path
   | Some b \<Rightarrow> b \<in> set route_paths \<and> path_matches b path \<and>
       (\<forall>p \<in> set route_paths. path_matches p path \<longrightarrow> p = b \<or> more_static b p)"
  by (cases path rule: pattern_of.cases) (simp_all add: route_paths_def Let_def del: lit_simps)

lemma picked_pattern:
  assumes "pick_ok pick"
  shows "pick route_paths path = pattern_of path"
proof (cases "pick route_paths path")
  case None
  with picked[OF assms, of route_paths path] have "\<forall>p \<in> set route_paths. \<not> path_matches p path" by simp
  with pattern_best[of path] have "pattern_of path = None" by (cases "pattern_of path") auto
  with None show ?thesis by simp
next
  case (Some p)
  with picked[OF assms, of route_paths path]
  have p: "p \<in> set route_paths" "path_matches p path" "\<forall>q \<in> set route_paths. path_matches q path \<longrightarrow> \<not> more_static q p"
    by simp_all
  with pattern_best[of path] have "pattern_of path = Some p" by (cases "pattern_of path") auto
  with Some show ?thesis by simp
qed

lemma service_paths: "service finish st schemas c = Inr w \<Longrightarrow> map en_path (merged_routes w) = route_paths"
  by (erule service_routes) (simp add: route_paths_def Let_def)

text \<open>The entry a path goes to, with its arguments; the data routes of the public surface have a limiter.\<close>

lemma service_matched:
  assumes "pick_ok pick" and "service finish st schemas c = Inr w"
  shows "(case matched pick (merged_routes w) path of
       None \<Rightarrow> (\<forall>m. route_of m path = Unrouted)
     | Some (e, args) \<Rightarrow> (\<forall>m. route_of m path = if_method (en_method e) m (en_endpoint e) args))"
  using assms(2)
proof (cases rule: service_routes)
  case (1 read feed)
  have pick: "pick (map en_path (merged_routes w)) path = pattern_of path"
    unfolding service_paths[OF assms(2)] by (rule picked_pattern[OF assms(1)])
  show ?thesis
    unfolding matched_def pick unfolding 1
    by (cases path rule: pattern_of.cases)
       (simp_all add: route_paths_def Let_def del: lit_simps)
qed

text \<open>C18: Every request goes where the table says: in a wired service the handler a method and a path reach, with the
  path's arguments, is the one read off the path segment by segment. In particular the ids \<open>changes\<close>,
  \<open>manifest\<close> and \<open>digests\<close> and the source \<open>ingest\<close> are taken by other routes.\<close>

theorem requests_are_routed_by_table:
  assumes "pick_ok pick" and "service finish st schemas c = Inr w"
  shows "routed pick (merged_routes w) m path = route_of m path"
  using service_matched[OF assms, of path] by (auto simp: routed_def if_method_def split: option.splits prod.splits)

section \<open>A router that keeps the rule\<close>

fun weight :: "segment list \<Rightarrow> nat" where
  "weight [] = 0"
| "weight (Static _ # p) = 2 ^ length p + weight p"
| "weight (Param _ # p) = weight p"

lemma weight_less: "weight p < 2 ^ length p"
  by (induction p rule: weight.induct) auto

lemma more_static_weight: "more_static q p \<Longrightarrow> length q = length p \<Longrightarrow> weight p < weight q"
proof (induction q p rule: more_static.induct)
  case (1 s p n q)
  then show ?case using weight_less[of q] by simp
qed auto

definition sample_pick :: "segment list list \<Rightarrow> rstr list \<Rightarrow> segment list option" where
  "sample_pick ps path =
     (let qs = filter (\<lambda>p. path_matches p path) ps
      in find (\<lambda>p. list_all (\<lambda>q. weight q \<le> weight p) qs) qs)"

lemma sample_pick_ok: "pick_ok sample_pick"
  unfolding pick_ok_def
proof (intro allI)
  fix ps path
  let ?qs = "filter (\<lambda>p. path_matches p path) ps"
  show "case sample_pick ps path of
        None \<Rightarrow> \<forall>p \<in> set ps. \<not> path_matches p path
      | Some p \<Rightarrow> p \<in> set ps \<and> path_matches p path \<and> (\<forall>q \<in> set ps. path_matches q path \<longrightarrow> \<not> more_static q p)"
  proof (cases "sample_pick ps path")
    case None
    have "?qs = []"
    proof (rule ccontr)
      assume "?qs \<noteq> []"
      then have "Max (weight ` set ?qs) \<in> weight ` set ?qs" by (intro Max_in) (simp_all del: set_filter)
      then obtain p where p: "p \<in> set ?qs" "weight p = Max (weight ` set ?qs)" by (metis imageE)
      then have "list_all (\<lambda>q. weight q \<le> weight p) ?qs" by (simp add: list_all_iff)
      with p(1) None show False by (auto simp: sample_pick_def Let_def find_None_iff)
    qed
    with None show ?thesis by (auto simp: filter_empty_conv)
  next
    case (Some p)
    then have p: "p \<in> set ?qs" "\<forall>q \<in> set ?qs. weight q \<le> weight p"
      by (auto simp: sample_pick_def Let_def list_all_iff dest!: find_SomeD)
    have "\<not> more_static q p" if q: "q \<in> set ps" "path_matches q path" for q
    proof
      assume "more_static q p"
      moreover have "length q = length p" using q p by (simp add: path_matches_def) (metis list_all2_lengthD)
      ultimately have "weight p < weight q" by (rule more_static_weight)
      with p(2) q show False by auto
    qed
    with Some p(1) show ?thesis by simp
  qed
qed

lemma requests_are_routed_by_table_witness:
  "\<exists>w. service sample_finish (postgres_store sample_env) (SchemaSet []) sample_config = Inr w \<and>
     routed sample_pick (merged_routes w) Get [lit ''v1'', lit ''erp'', lit ''products'', lit ''A''] =
       Routed (PublicRoute GetRecord) [lit ''erp'', lit ''products'', lit ''A''] \<and>
     routed sample_pick (merged_routes w) Get [lit ''v1'', lit ''erp'', lit ''products'', lit ''changes''] =
       Routed (PublicRoute Changes) [lit ''erp'', lit ''products''] \<and>
     routed sample_pick (merged_routes w) Get [lit ''v1'', lit ''ingest'', lit ''products''] = WrongMethod \<and>
     routed sample_pick (merged_routes w) DeleteMethod [lit ''v1'', lit ''ingest'', lit ''products'', lit ''digests''] = WrongMethod"
proof -
  obtain w where w: "service sample_finish (postgres_store sample_env) (SchemaSet []) sample_config = Inr w" by (rule sample_service)
  show ?thesis
    by (intro exI[of _ w] conjI w; subst requests_are_routed_by_table[OF sample_pick_ok w]; simp add: if_method_def method_accepted_def)
qed

end
