(* ===== verification/Whole_Service.thy ===== *)
theory Whole_Service
  imports Routing Service_Properties
begin

text \<open>
  One HTTP request to the wired service, from its path to its answer: route, limiter, method, handler. What
  axum's extractors make of the query string and the body, what the limiter says and which pattern a path
  goes to are arguments.
\<close>

section \<open>Answering a request\<close>

record 'b http_request =
  hq_method :: http_method
  hq_path :: "rstr list"
  hq_query :: "rstr option"
  hq_if_none_match :: "rstr option"
  hq_authorization :: "rstr option"
  hq_body :: 'b

text \<open>The extractors of the two query types and of a body under a limit, the router's choice and the limiter's
  verdict on this request.\<close>

record ('g, 'b) axum =
  ax_pick :: "segment list list \<Rightarrow> rstr list \<Rightarrow> segment list option"
  ax_changes_query :: "rstr option \<Rightarrow> rstr + changes_query"
  ax_digests_query :: "rstr option \<Rightarrow> rstr + digests_query"
  ax_body :: "64 word \<Rightarrow> 'b \<Rightarrow> bool \<times> rstr + envelope list"
  ax_limited :: "'g \<Rightarrow> governor_error option"

definition refused_response :: "governor_error \<Rightarrow> response" where
  "refused_response e = json_response (rf_status (refusal_of [] e)) (ErrorBody (rf_code (refusal_of [] e)) (MText (rf_message (refusal_of [] e))))"

text \<open>The handler of an endpoint. \<open>seen\<close> and \<open>s\<close> are the store at the first and at the later queries; arguments of
  another number are axum's own error and do not occur.\<close>

fun handle ::
    "env \<Rightarrow> ('s, 'g) wired \<Rightarrow> ('g, 'b) axum \<Rightarrow> 'b http_request \<Rightarrow> endpoint \<Rightarrow> rstr list \<Rightarrow> 's \<Rightarrow> 's \<Rightarrow> response \<times> 's" where
  "handle E w ax rq (PublicRoute Health) [] seen s = (health, s)"
| "handle E w ax rq (PublicRoute ListCollection) [st, ct] seen s =
     (respond (list_collection E (wr_public w) st ct (hq_query rq) (hq_if_none_match rq) seen s), s)"
| "handle E w ax rq (PublicRoute Changes) [st, ct] seen s =
     (respond (changes E (wr_public w) st ct (ax_changes_query ax (hq_query rq)) (hq_if_none_match rq) seen s), s)"
| "handle E w ax rq (PublicRoute Manifest) [st, ct] seen s =
     (respond (manifest_route E (wr_public w) st ct (hq_if_none_match rq) seen s), s)"
| "handle E w ax rq (PublicRoute GetRecord) [st, ct, it] seen s =
     (respond (get_record E (wr_public w) st ct it (hq_if_none_match rq) s), s)"
| "handle E w ax rq (IngestRoute Ingest) [ct] seen s =
     (case ingest E (wr_ingest w) (hq_authorization rq) ct (ax_body ax (ir_body_limit (wr_ingest_routes w)) (hq_body rq)) seen s of
        (r, counted, s') \<Rightarrow> (respond r, s'))"
| "handle E w ax rq (IngestRoute Digests) [ct] seen s =
     (respond (digests E (wr_ingest w) (hq_authorization rq) ct (ax_digests_query ax (hq_query rq)) seen s), s)"
| "handle E w ax rq (IngestRoute DeleteRecord) [ct, it] seen s =
     (case delete_record E (wr_ingest w) (hq_authorization rq) ct it seen s of (r, s') \<Rightarrow> (respond r, s'))"
| "handle E w ax rq _ _ seen s = (json_response 500 NoBody, s)"

text \<open>A route's limiter stands in front of its methods.\<close>

definition answer ::
    "env \<Rightarrow> ('s, 'g) wired \<Rightarrow> ('g, 'b) axum \<Rightarrow> 'b http_request \<Rightarrow> 's \<Rightarrow> 's \<Rightarrow> response \<times> 's" where
  "answer E w ax rq seen s =
     (case matched (ax_pick ax) (merged_routes w) (hq_path rq) of
        None \<Rightarrow> (json_response 404 NoBody, s)
      | Some (e, args) \<Rightarrow>
          (case Option.bind (en_limiter e) (ax_limited ax) of
             Some refused \<Rightarrow> (refused_response refused, s)
           | None \<Rightarrow>
               if method_accepted (en_method e) (hq_method rq) then handle E w ax rq (en_endpoint e) args seen s
               else (json_response 405 NoBody, s)))"

section \<open>The statuses a client can get\<close>

lemma error_status: "rs_status (error_response e) \<in> {400, 401, 404, 413, 500}"
  by (cases e) (simp_all add: json_response_def)

lemma cached_status [simp]: "rs_status (cached_response n E m t b) = n"
  by (simp add: cached_response_def json_response_def)

definition answered :: "api_error + response \<Rightarrow> bool" where
  "answered r \<longleftrightarrow> (\<forall>ok. r = Inr ok \<longrightarrow> rs_status ok \<in> {200, 304})"

lemma answered_status: "answered r \<Longrightarrow> rs_status (respond r) \<in> {200, 304, 400, 401, 404, 413, 500}"
  using error_status by (auto simp: answered_def respond_def split: sum.splits)

lemma reads_answered:
  "answered (list_collection E a st ct q inm d0 d)" "answered (changes E a st ct cq inm d0 d)"
  "answered (manifest_route E a st ct inm d0 d)" "answered (get_record E a st ct it inm d)"
  "answered (digests E b auth ct dq d0 d)"
  unfolding answered_def
  by (auto simp: list_collection_Inr changes_Inr manifest_Inr get_record_Inr not_modified_def Let_def
      split: if_splits)
     (auto simp: digests_def result_simps json_response_def Let_def)

lemma ingest_status: "ingest E a auth ct body seen s = (Inr ok, counted, s') \<Longrightarrow> rs_status ok = 200"
  by (erule ingest_cases) (auto simp: json_response_def split: sum.splits)

lemma delete_status: "delete_record E a auth ct it seen s = (Inr ok, s') \<Longrightarrow> rs_status ok = 200"
  by (erule delete_cases) auto

lemma writes_answered:
  "answered (fst (ingest E a auth ct body seen s))" "answered (fst (delete_record E a auth ct it seen s))"
  unfolding answered_def using ingest_status delete_status by (metis insertI1 prod.collapse)+

lemma handle_status: "rs_status (fst (handle E w ax rq e args seen s)) \<in> {200, 304, 400, 401, 404, 413, 500}"
  using answered_status[OF reads_answered(1)] answered_status[OF reads_answered(2)] answered_status[OF reads_answered(3)]
    answered_status[OF reads_answered(4)] answered_status[OF reads_answered(5)] answered_status[OF writes_answered(1)]
    answered_status[OF writes_answered(2)]
  by (cases "(E, w, ax, rq, e, args, seen, s)" rule: handle.cases)
     (simp_all add: split_beta health_def json_response_def)

text \<open>Either a handler was reached, the one the table names, or the store is as it was.\<close>

lemma answer_cases:
  assumes "answer E w ax rq seen s = (r, s')" "pick_ok (ax_pick ax)" "service finish st schemas c = Inr w"
  obtains (nowhere) "s' = s" "rs_status r \<in> {404, 405}"
  | (limited) g e where "s' = s" "ax_limited ax g = Some e" "r = refused_response e"
  | (handled) e args where "route_of (hq_method rq) (hq_path rq) = Routed e args" "handle E w ax rq e args seen s = (r, s')"
proof (cases "matched (ax_pick ax) (merged_routes w) (hq_path rq)")
  case None
  with assms(1) nowhere show ?thesis by (auto simp: answer_def json_response_def)
next
  case (Some ea)
  obtain e args where ea: "ea = (e, args)" by (cases ea)
  have route: "route_of (hq_method rq) (hq_path rq) = if_method (en_method e) (hq_method rq) (en_endpoint e) args"
    using service_matched[OF assms(2,3), of "hq_path rq"] Some ea by simp
  show ?thesis
  proof (cases "Option.bind (en_limiter e) (ax_limited ax)")
    case None
    with assms(1) Some ea route nowhere handled show ?thesis
      by (auto simp: answer_def json_response_def if_method_def split: if_splits)
  next
    case (Some refused)
    then obtain g where "ax_limited ax g = Some refused" by (auto simp: bind_eq_Some_conv)
    with Some assms(1) \<open>matched (ax_pick ax) (merged_routes w) (hq_path rq) = Some ea\<close> ea limited show ?thesis
      by (simp add: answer_def)
  qed
qed


section \<open>Who can write\<close>

lemma routed_to_ingest:
  "route_of m path = Routed (IngestRoute Ingest) [ct] \<Longrightarrow> m = Post \<and> path = [lit ''v1'', lit ''ingest'', ct]"
  "route_of m path = Routed (IngestRoute DeleteRecord) [ct, it] \<Longrightarrow>
     m = DeleteMethod \<and> path = [lit ''v1'', lit ''ingest'', ct, it]"
  by (cases "(m, path)" rule: route_of.cases; simp add: if_method_def method_accepted_def split: if_splits del: lit_simps)+


section \<open>A request without a credential\<close>

definition sample_axum :: "(unit, unit) axum" where
  "sample_axum = \<lparr>ax_pick = sample_pick, ax_changes_query = (\<lambda>_. Inr \<lparr>cq_since = None, cq_limit = None\<rparr>),
     ax_digests_query = (\<lambda>_. Inr \<lparr>dq_after = None, dq_limit = None\<rparr>), ax_body = (\<lambda>_ _. Inr shop_envelopes), ax_limited = (\<lambda>_. None)\<rparr>"

definition sample_request :: "http_method \<Rightarrow> rstr list \<Rightarrow> unit http_request" where
  "sample_request m path = \<lparr>hq_method = m, hq_path = path, hq_query = None, hq_if_none_match = None,
     hq_authorization = None, hq_body = ()\<rparr>"

lemma sample_axum_pick: "pick_ok (ax_pick sample_axum)"
  by (simp add: sample_axum_def sample_pick_ok)

lemma shop_wired:
  obtains w where "service sample_finish (postgres_store sample_env) (is_schemas sample_ingest) sample_config = Inr w"
  by (rule sample_service)



end
