(* ===== verification/Edge.thy ===== *)
theory Edge
  imports Whole_Service
begin

text \<open>
  The rest of \<open>crates/server/src/lib.rs\<close>: what browsers may do with the service (the CORS policy of \<open>Server\<close>),
  the log filter and the end of the process. What a browser does with a policy, the subscriber and the
  signal handlers are not under \<open>src\<close>.
\<close>

section \<open>Pages of other origins\<close>

text \<open>The headers of a request that a script would have to set.\<close>

definition script_headers :: "'b http_request \<Rightarrow> rstr list" where
  "script_headers rq =
     (case hq_authorization rq of None \<Rightarrow> [] | Some _ \<Rightarrow> [lit ''authorization'']) @
     (case hq_if_none_match rq of None \<Rightarrow> [] | Some _ \<Rightarrow> [lit ''if-none-match''])"

text \<open>What the Fetch standard lets a script of another origin send: a simple method or one the policy allows, with
  headers that are safelisted or that the policy allows.\<close>

definition browser_ok ::
    "(rstr \<Rightarrow> bool) \<Rightarrow> (cors_policy \<Rightarrow> http_method \<Rightarrow> rstr list \<Rightarrow> bool) \<Rightarrow> bool" where
  "browser_ok safelisted lets_send \<longleftrightarrow> \<not> safelisted (lit ''authorization'') \<and>
     (\<forall>p m hs. cp_any_origin p \<longrightarrow>
        (lets_send p m hs \<longleftrightarrow> m \<in> {Get, Head, Post} \<union> set (cp_methods p) \<and>
           (\<forall>h \<in> set hs. safelisted h \<or> h \<in> set (cp_request_headers p))))"

lemma cors_lets_send:
  "browser_ok safelisted lets_send \<Longrightarrow> lets_send cors m hs \<longleftrightarrow>
     m \<in> {Get, Head, Post} \<and> (\<forall>h \<in> set hs. safelisted h \<or> h = lit ''if-none-match'')"
  by (auto simp: browser_ok_def cors_def simp del: lit_simps)

lemma public_routes_are_read: "route_of m path = Routed (PublicRoute h) args \<Longrightarrow> m \<in> {Get, Head}"
  by (cases "(m, path)" rule: route_of.cases; simp add: if_method_def method_accepted_def split: if_splits del: lit_simps)

lemma anonymous_requests_write_nothing:
  assumes "answer E w ax rq seen s = (r, s')" and "hq_authorization rq = None"
  shows "s' = s"
proof -
  have "snd (handle E w ax rq e args seen s) = s" for e args
    using assms(2) by (cases "(E, w, ax, rq, e, args, seen, s)" rule: handle.cases)
      (simp_all add: ingest_def delete_record_def authenticated_def split: prod.splits)
  then show ?thesis
    using assms(1) by (auto simp: answer_def split: option.splits if_splits prod.splits)
      (metis snd_conv)+
qed

lemma public_routing:
  assumes "pick_ok (ax_pick ax)" and "service finish st schemas c = Inr w"
    and "routed (ax_pick ax) (merged_routes w) m path = Routed (PublicRoute h) args"
  shows "m \<in> {Get, Head}"
  using assms(3) service_matched[OF assms(1,2), of path] public_routes_are_read[of m path h args]
  by (auto simp: routed_def if_method_def split: option.splits prod.splits if_splits)



section \<open>The log filter\<close>

text \<open>\<open>RUST_LOG\<close>, if it is set and can be parsed, has precedence over the configured filter.\<close>

definition log_filter :: "'e + 'f \<Rightarrow> (rstr \<Rightarrow> 'f) \<Rightarrow> rstr \<Rightarrow> 'f" where
  "log_filter from_env parse filter_text = (case from_env of Inr f \<Rightarrow> f | Inl _ \<Rightarrow> parse filter_text)"

section \<open>The end of the process\<close>

text \<open>A signal cannot be listened for, or it arrives at some time, or never.\<close>

datatype signal_source = CannotListen | Arrives "nat option"

text \<open>When the two futures of \<open>shutdown\<close> are done. The result of listening for Ctrl-C is ignored and a handler for
  SIGTERM that cannot be installed is logged: in both cases the future is done at once. Only Unix has SIGTERM.\<close>

definition interrupt_done :: "signal_source \<Rightarrow> nat option" where
  "interrupt_done ctrl_c = (case ctrl_c of CannotListen \<Rightarrow> Some 0 | Arrives t \<Rightarrow> t)"

definition terminate_done :: "bool \<Rightarrow> signal_source \<Rightarrow> nat option" where
  "terminate_done unix sigterm = (if unix then (case sigterm of CannotListen \<Rightarrow> Some 0 | Arrives t \<Rightarrow> t) else None)"

datatype ending = Interrupted | Terminated

text \<open>\<open>select!\<close> goes on with the future that is done first, with either if both are: the endings that can be.\<close>

definition shutdown :: "bool \<Rightarrow> signal_source \<Rightarrow> signal_source \<Rightarrow> (nat \<times> ending) list" where
  "shutdown unix ctrl_c sigterm =
     (case (interrupt_done ctrl_c, terminate_done unix sigterm) of
        (None, None) \<Rightarrow> []
      | (Some i, None) \<Rightarrow> [(i, Interrupted)]
      | (None, Some t) \<Rightarrow> [(t, Terminated)]
      | (Some i, Some t) \<Rightarrow>
          (if i < t then [(i, Interrupted)] else if t < i then [(t, Terminated)] else [(i, Interrupted), (t, Terminated)]))"



end
