(* ===== verification/Batch_Progress.thy ===== *)
theory Batch_Progress
  imports Serial_Batches Batch_Properties
begin

text \<open>A batch makes progress on its own: only a lock on a record it names can hold it up.\<close>

text \<open>The lock an operation may take.\<close>

definition op_target :: "txn \<Rightarrow> ingest_op \<Rightarrow> rstr \<times> rstr \<times> rstr" where
  "op_target t op = (source_str (tx_source t), collection_str (tx_collection t), id_str (op_id op))"

definition unblocked :: "txn list \<Rightarrow> txn \<Rightarrow> bool" where
  "unblocked others t \<longleftrightarrow> (\<forall>oh \<in> set (tx_pending t). \<forall>u \<in> set others. op_target t (fst oh) \<notin> set (tx_locks u))"

lemma op_lock_target:
  assumes "\<And>new. w = Some new \<Longrightarrow> op_row E (op_key (tx_source t) (tx_collection t) op) op new"
  shows "set (op_lock t op w) \<subseteq> {op_target t op}"
proof (cases op)
  case (OpDelete i)
  show ?thesis
  proof (cases w)
    case (Some new)
    with op_row_at[OF assms[OF Some]] in_collection_id[of "tx_source t" "tx_collection t" new "id_str (op_id op)"] show ?thesis
      by (simp add: op_lock_def op_target_def OpDelete)
  qed (simp add: op_lock_def OpDelete)
qed (simp add: op_lock_def op_target_def key_row_id_def record_key_new_def)

text \<open>An unblocked statement of a storable operation with room in the sequence is a step.\<close>

lemma statement_steps:
  assumes E: "env_ok E" and ok: "cluster_ok E (d, us @ t # vs)" and pending: "tx_pending t = oh # rest"
    and storable: "op_storable E (fst oh)" and room: "db_seq_last d + 2 \<le> BIGINT_MAX" and free: "unblocked (us @ vs) t"
  shows "\<exists>t' d'. cluster_step E (d, us @ t # vs) (d', us @ t' # vs) \<and> tx_pending t' = rest \<and>
    tx_source t' = tx_source t \<and> tx_collection t' = tx_collection t \<and> tx_done t' = tx_done t @ [fst oh] \<and>
    db_seq_last d' \<le> db_seq_last d + 2 \<and> db_rows d' = db_rows d"
proof -
  have t: "db_ok E d" "tx_ok E d t" using ok by (simp_all add: cluster_ok_def)
  have op: "source_ok (tx_source t)" "collection_ok (tx_collection t)" "op_ok (fst oh)" "hash_op E (fst oh) = Inr oh"
    using t(2) pending by (simp_all add: tx_ok_def tx_valid_def)
  note view = db_ok_view[OF t]
  obtain r d' where run: "tx_statement E oh t d = (r, d')" by fastforce
  have same: "db_seq_last (tx_view t d) = db_seq_last d" by (simp add: tx_view_def)
  have small: "db_seq_last after \<le> db_seq_last d + 2 \<and> is_ok q"
    if "apply_op E (tx_source t) (tx_collection t) oh (tx_view t d) = (q, after)" for q after
    using E view op that
  proof (cases rule: apply_op_room)
    case (2 e)
    with storable room same show ?thesis by (auto simp: seq_room_def)
  qed (simp_all add: same)
  have lock: "lock_free (us @ vs) t (after_statement (fst oh) a w t)"
    if "set (op_lock t (fst oh) w) \<subseteq> {op_target t (fst oh)}" for a w
    using that free pending by (auto simp: lock_free_def unblocked_def after_statement_def)
  have fields: "tx_pending (after_statement (fst oh) a w t) = rest" "tx_source (after_statement (fst oh) a w t) = tx_source t"
    "tx_collection (after_statement (fst oh) a w t) = tx_collection t"
    "tx_done (after_statement (fst oh) a w t) = tx_done t @ [fst oh]" for a w
    using pending by (simp_all add: after_statement_def)
  from E view op run show ?thesis
  proof (cases rule: tx_statement_cases)
    case (refused e s after)
    with small show ?thesis by fastforce
  next
    case (unchanged a s)
    with small have "db_seq_last d' \<le> db_seq_last d + 2" by fastforce
    with cluster_statement[OF pending run[unfolded unchanged(1)] lock] op_lock_target[of None] fields statement_leaves_rows[OF run] show ?thesis by blast
  next
    case (changed a new)
    with small have "db_seq_last d' \<le> db_seq_last d + 2" by (fastforce simp: put_def)
    with cluster_statement[OF pending run[unfolded changed(1)] lock] op_lock_target[of "Some new" E t "fst oh"] changed(5) fields
      statement_leaves_rows[OF run] show ?thesis by blast
  qed
qed

lemma unblocked_runs:
  assumes E: "env_ok E"
  shows "cluster_ok E (d, us @ t # vs) \<Longrightarrow> list_all (\<lambda>oh. op_storable E (fst oh)) (tx_pending t) \<Longrightarrow>
    db_seq_last d + 2 * int (length (tx_pending t)) \<le> BIGINT_MAX \<Longrightarrow> unblocked (us @ vs) t \<Longrightarrow>
    \<exists>t' d'. (cluster_step E)\<^sup>*\<^sup>* (d, us @ t # vs) (d', us @ t' # vs) \<and> tx_pending t' = [] \<and>
      tx_done t' = tx_done t @ map fst (tx_pending t) \<and> db_rows d' = db_rows d"
proof (induction "tx_pending t" arbitrary: t d)
  case Nil
  then show ?case by (intro exI[of _ t] exI[of _ d]) simp
next
  case (Cons oh rest)
  then have pending: "tx_pending t = oh # rest" by simp
  from statement_steps[OF E Cons.prems(1) pending] Cons.prems(2-4) pending obtain t1 d1 where
      step: "cluster_step E (d, us @ t # vs) (d1, us @ t1 # vs)" and t1: "tx_pending t1 = rest" "tx_source t1 = tx_source t"
        "tx_collection t1 = tx_collection t" "tx_done t1 = tx_done t @ [fst oh]"
      and d1: "db_seq_last d1 \<le> db_seq_last d + 2" "db_rows d1 = db_rows d"
    by fastforce
  have "op_target t1 = op_target t" by (simp add: op_target_def t1 fun_eq_iff)
  then have "unblocked (us @ vs) t1" using Cons.prems(4) pending t1(1) by (simp add: unblocked_def)
  moreover have "cluster_ok E (d1, us @ t1 # vs)" by (rule cluster_step_ok[OF step E Cons.prems(1)])
  moreover have "db_seq_last d1 + 2 * int (length (tx_pending t1)) \<le> BIGINT_MAX" "list_all (\<lambda>oh. op_storable E (fst oh)) (tx_pending t1)"
    using Cons.prems(2,3) pending t1(1) d1(1) by simp_all
  ultimately obtain t' d' where "(cluster_step E)\<^sup>*\<^sup>* (d1, us @ t1 # vs) (d', us @ t' # vs)" "tx_pending t' = []"
      "tx_done t' = tx_done t1 @ map fst (tx_pending t1)" "db_rows d' = db_rows d1"
    using Cons.hyps(1)[of t1 d1] t1(1) by auto
  with step t1 d1(2) pending show ?case
    by (intro exI[of _ t'] exI[of _ d']) (auto intro: converse_rtranclp_into_rtranclp)
qed

text \<open>C27: A batch finishes whatever the others do or do not do: if nobody holds a lock on a record it names, its
  payloads can be kept and the sequence has two positions per operation, its remaining statements and its
  commit are steps that need no step of another sender, and it commits the batch that was sent.\<close>

theorem unblocked_batch_commits:
  assumes "env_ok E" and "db_ok E d0" and "(cluster_step E)\<^sup>*\<^sup>* (d0, []) (d, us @ t # vs)"
    and "list_all (\<lambda>oh. op_storable E (fst oh)) (tx_pending t)" and "unblocked (us @ vs) t"
    and "db_seq_last d + 2 * int (length (tx_pending t)) \<le> BIGINT_MAX"
  shows "\<exists>t' d'. (cluster_step E)\<^sup>*\<^sup>* (d, us @ t # vs) (d', us @ t' # vs) \<and>
    cluster_step E (d', us @ t' # vs) (tx_commit t' d', us @ vs) \<and>
    tx_done t' = tx_done t @ map fst (tx_pending t) \<and> db_rows d' = db_rows d"
proof -
  have "cluster_ok E (d0, [])" using assms(2) by (simp add: cluster_ok_def)
  then have "cluster_ok E (d, us @ t # vs)" using cluster_steps_top[OF assms(3,1)] by blast
  from unblocked_runs[OF assms(1) this assms(4,6,5)] show ?thesis using cluster_commit by blast
qed

lemma one_open_run:
  "(cluster_step sample_env)\<^sup>*\<^sup>* (empty_db 7, []) ((empty_db 7)\<lparr>db_seq_last := 1\<rparr>, [item_txn ''A'' 1, item_begun ''B''])"
proof -
  have "list_all (\<lambda>s. list_all op_ok [item_op s s] \<and> traverse (hash_op sample_env) [item_op s s] = Inr [item_hashed s]) [''A'', ''B'']"
    by code_simp
  then have "\<exists>ops hashed source collection. item_begun s = tx_begin source collection hashed (empty_db 7) \<and> source_ok source \<and>
      collection_ok collection \<and> list_all op_ok ops \<and> traverse (hash_op sample_env) ops = Inr hashed"
    if "s = ''A'' \<or> s = ''B''" for s
    using that sample_names_ok
    by (intro exI[of _ "[item_op s s]"] exI[of _ "[item_hashed s]"] exI[of _ erp] exI[of _ products])
       (auto simp: item_begun_def simp del: traverse.simps)
  then have "history sample_env (empty_db 7) [] (empty_db 7, [item_begun ''A'', item_begun ''B''])"
    by (intro begun_history) simp
  moreover have "schedule sample_env [0] ([], empty_db 7, [item_begun ''A'', item_begun ''B'']) =
      Some ([], (empty_db 7)\<lparr>db_seq_last := 1\<rparr>, [item_txn ''A'' 1, item_begun ''B''])"
    by code_simp
  ultimately show ?thesis using history_reachable schedule_history by blast
qed

text \<open>One sender has written and not committed; the other, on another record, does not wait for it.\<close>

lemma unblocked_batch_commits_witness:
  "\<exists>t' d'. (cluster_step sample_env)\<^sup>*\<^sup>* ((empty_db 7)\<lparr>db_seq_last := 1\<rparr>, [item_txn ''A'' 1, item_begun ''B'']) (d', [item_txn ''A'' 1, t']) \<and>
     cluster_step sample_env (d', [item_txn ''A'' 1, t']) (tx_commit t' d', [item_txn ''A'' 1]) \<and>
     tx_done t' = [item_op ''B'' ''B'']"
proof -
  let ?d1 = "(empty_db 7)\<lparr>db_seq_last := 1\<rparr>"
  have "unblocked ([item_txn ''A'' 1] @ []) (item_begun ''B'')"
    by (simp add: unblocked_def item_begun_def tx_begin_def op_target_def item_hashed_def item_txn_def sample_row_def
        key_row_id_def record_key_new_def)
  moreover have "list_all (\<lambda>oh. op_storable sample_env (fst oh)) (tx_pending (item_begun ''B''))"
    by (simp add: item_begun_def tx_begin_def item_hashed_def sample_env_def item_def)
  moreover have "db_seq_last ?d1 + 2 * int (length (tx_pending (item_begun ''B''))) \<le> BIGINT_MAX"
    by (simp add: item_begun_def tx_begin_def BIGINT_MAX_def)
  ultimately show ?thesis
    using unblocked_batch_commits[OF sample_env_ok empty_db_ok, of 7 ?d1 "[item_txn ''A'' 1]" "item_begun ''B''" "[]"] one_open_run
    by (auto simp: item_begun_def tx_begin_def item_hashed_def item_op_def)
qed

end
