(* ===== verification/Client_Walk.thy ===== *)
theory Client_Walk
  imports Public_Properties Http_Properties
begin

text \<open>
  A filtered listing as a client sees it: it sends the query string, follows \<open>next_cursor\<close> from body to body
  and stops where a body has none. From the text of the parameters (\<open>query.rs\<close>) over the values they are
  coerced to (\<open>filter.rs\<close>), the handler (\<open>public.rs\<close>) and the statement (\<open>postgres.rs\<close>) to the records.
\<close>

section \<open>What containment of \<open>jsonb\<close> documents means for a filter\<close>

text \<open>\<open>jsonb\<close> compares numbers by their value: \<open>eq\<close>. Scalars of different kinds are different.\<close>

fun same_scalar :: "(number \<Rightarrow> number \<Rightarrow> bool) \<Rightarrow> json \<Rightarrow> json \<Rightarrow> bool" where
  "same_scalar eq JNull w = (w = JNull)"
| "same_scalar eq (JBool b) w = (w = JBool b)"
| "same_scalar eq (JNumber m) w = (case w of JNumber n \<Rightarrow> eq m n | _ \<Rightarrow> False)"
| "same_scalar eq (JString s) w = (w = JString s)"
| "same_scalar eq _ w = False"

definition is_scalar :: "json \<Rightarrow> bool" where
  "is_scalar v \<longleftrightarrow> \<not> is_object v \<and> \<not> is_array v"

text \<open>The documented behaviour of \<open>@>\<close> with an object of scalars on the right, and of keeping such an object.\<close>

definition holds_at :: "(number \<Rightarrow> number \<Rightarrow> bool) \<Rightarrow> json \<Rightarrow> rstr \<Rightarrow> json \<Rightarrow> bool" where
  "holds_at eq payload k v =
     (case payload of JObject m \<Rightarrow> (case bt_get k m of None \<Rightarrow> False | Some w \<Rightarrow> same_scalar eq v w) | _ \<Rightarrow> False)"

definition containment_ok :: "(number \<Rightarrow> number \<Rightarrow> bool) \<Rightarrow> env \<Rightarrow> bool" where
  "containment_ok eq E \<longleftrightarrow> equivp eq \<and>
     (\<forall>n. list_all (is_scalar \<circ> snd) n \<longrightarrow>
        (\<forall>v. e_contains E v (JObject n) \<longleftrightarrow> (\<exists>m. v = JObject m) \<and> (\<forall>(k, x) \<in> set n. holds_at eq v k x)) \<and>
        (\<forall>w. e_jsonb E (JObject n) = Some w \<longrightarrow>
           (\<exists>n'. w = JObject n' \<and> list_all2 (\<lambda>a b. fst a = fst b \<and> same_scalar eq (snd a) (snd b)) n n')))"

lemma same_scalar_scalar: "same_scalar eq v w \<Longrightarrow> is_scalar v \<and> is_scalar w"
  by (cases v; cases w) (auto simp: is_scalar_def is_object_def is_array_def)

lemma same_scalar_swap: "equivp eq \<Longrightarrow> same_scalar eq a b \<Longrightarrow> same_scalar eq a c \<longleftrightarrow> same_scalar eq b c"
  by (cases a; cases b; cases c) (auto simp: equivp_def)

lemma holds_at_iff: "holds_at eq payload k v \<longleftrightarrow> (\<exists>m w. payload = JObject m \<and> bt_get k m = Some w \<and> same_scalar eq v w)"
  by (simp add: holds_at_def split: json.split option.split)

lemma holds_at_swap: "equivp eq \<Longrightarrow> same_scalar eq a b \<Longrightarrow> holds_at eq p k a \<longleftrightarrow> holds_at eq p k b"
  by (simp add: holds_at_iff same_scalar_swap[of eq a b])

lemma contains_kept:
  assumes "containment_ok eq E" and "list_all (is_scalar \<circ> snd) n" and "e_jsonb E (JObject n) = Some doc"
  shows "e_contains E v doc \<longleftrightarrow> (\<exists>m. v = JObject m) \<and> (\<forall>(k, x) \<in> set n. holds_at eq v k x)"
proof -
  have eq: "equivp eq" using assms(1) by (simp add: containment_ok_def)
  from assms have "\<exists>n'. doc = JObject n' \<and> list_all2 (\<lambda>a b. fst a = fst b \<and> same_scalar eq (snd a) (snd b)) n n'"
    unfolding containment_ok_def by blast
  then obtain n' where doc: "doc = JObject n'"
    and kept: "list_all2 (\<lambda>a b. fst a = fst b \<and> same_scalar eq (snd a) (snd b)) n n'"
    by blast
  from kept have sc: "list_all (is_scalar \<circ> snd) n'"
    by (induction rule: list_all2_induct) (auto dest: same_scalar_scalar)
  from kept have "(\<forall>(k, x) \<in> set n'. holds_at eq v k x) \<longleftrightarrow> (\<forall>(k, x) \<in> set n. holds_at eq v k x)"
    by (induction rule: list_all2_induct) (auto simp: holds_at_swap[OF eq])
  with assms(1) sc show ?thesis by (auto simp: containment_ok_def doc)
qed

section \<open>From the parameters to the records they select\<close>

text \<open>A record that every filter parameter holds for.\<close>

definition selected :: "(number \<Rightarrow> number \<Rightarrow> bool) \<Rightarrow> collection_schema \<Rightarrow> (rstr \<times> rstr) list \<Rightarrow> json \<Rightarrow> bool" where
  "selected eq schema params payload \<longleftrightarrow> is_object payload \<and>
     (\<forall>(k, raw) \<in> set params. case filter_pair schema (k, raw) of None \<Rightarrow> False | Some v \<Rightarrow> holds_at eq payload k v)"

lemma filter_parse_entries:
  assumes "filter_parse schema pairs = Inr flt"
  shows "filter_as_json flt = JObject (filter_entries flt)"
    and "(k, v) \<in> set (filter_entries flt) \<longleftrightarrow> (\<exists>raw. (k, raw) \<in> set pairs \<and> filter_pair schema (k, raw) = Some v)"
proof -
  have sorted: "bt_ok (filter_entries flt)" by (rule filter_parse_sorted[OF assms])
  then show "filter_as_json flt = JObject (filter_entries flt)" by (simp add: filter_as_json_def bt_extend_self)
  obtain vs where l: "list_all2 (\<lambda>p v. filter_pair schema p = Some v) pairs vs" and d: "distinct (map fst pairs)"
    and f: "filter_entries flt = bt_extend [] (zip (map fst pairs) vs)"
    using assms by (auto simp: filter_parse_ok)
  have len: "length pairs = length vs" by (rule list_all2_lengthD[OF l])
  have "(k, v) \<in> set (filter_entries flt) \<longleftrightarrow> map_of (rev (zip (map fst pairs) vs)) k = Some v"
    using bt.get_Some_iff[OF sorted, of k v] bt_get_extend[of "[]" k "zip (map fst pairs) vs"]
    by (simp add: f bt_get_def split: option.splits)
  also have "\<dots> \<longleftrightarrow> (k, v) \<in> set (zip (map fst pairs) vs)"
    using d len by (subst map_of_eq_Some_iff) (simp_all add: rev_map[symmetric])
  also have "\<dots> \<longleftrightarrow> (\<exists>raw. (k, raw) \<in> set pairs \<and> filter_pair schema (k, raw) = Some v)"
    using l by (induction rule: list_all2_induct) auto
  finally show "(k, v) \<in> set (filter_entries flt) \<longleftrightarrow> (\<exists>raw. (k, raw) \<in> set pairs \<and> filter_pair schema (k, raw) = Some v)" .
qed

lemma filter_parse_selects:
  assumes "containment_ok eq E" and "filter_parse schema pairs = Inr flt" and "e_jsonb E (filter_as_json flt) = Some doc"
  shows "e_contains E v doc \<longleftrightarrow> selected eq schema pairs v"
proof -
  note entries = filter_parse_entries[OF assms(2)]
  have scalars: "list_all (is_scalar \<circ> snd) (filter_entries flt)"
    unfolding list_all_iff
  proof (clarsimp)
    fix k x assume "(k, x) \<in> set (filter_entries flt)"
    then obtain spec raw where "coerce k spec raw = Inr x" using entries(2) by (auto simp: filter_pair_Some)
    then obtain ty where "accepts ty x" using coerce_typed by blast
    then show "is_scalar x"
      by (cases ty; cases x) (auto simp: is_scalar_def is_object_def is_array_def is_string_def is_number_def is_boolean_def)
  qed
  have total: "\<exists>x. filter_pair schema kr = Some x" if "kr \<in> set pairs" for kr
  proof -
    obtain vs where "list_all2 (\<lambda>p v. filter_pair schema p = Some v) pairs vs" using assms(2) by (auto simp: filter_parse_ok)
    then show ?thesis using that by (induction rule: list_all2_induct) auto
  qed
  have "(\<forall>(k, x) \<in> set (filter_entries flt). holds_at eq v k x) \<and> is_object v \<longleftrightarrow> selected eq schema pairs v"
    using total by (fastforce simp: selected_def entries(2) split: option.splits)
  moreover have "(\<exists>m. v = JObject m) \<longleftrightarrow> is_object v" by (cases v) (simp_all add: is_object_def)
  ultimately show ?thesis
    using contains_kept[OF assms(1) scalars, of doc v] assms(3) entries(1) by auto
qed

section \<open>Following the cursors over HTTP\<close>

text \<open>One request per state: the source may write between two pages.\<close>

fun http_walk :: "('s \<Rightarrow> 64 word option \<Rightarrow> api_error + response) \<Rightarrow> 's list \<Rightarrow> 64 word option \<Rightarrow> record_body list option" where
  "http_walk ask [] position = None"
| "http_walk ask (s # states) position =
     (case ask s position of
        Inl e \<Rightarrow> None
      | Inr r \<Rightarrow>
          (case rs_body r of
             PageJson p \<Rightarrow>
               (case pgb_next_cursor p of
                  None \<Rightarrow> Some (pgb_records p)
                | Some n \<Rightarrow> map_option ((@) (pgb_records p)) (http_walk ask states (Some n)))
           | _ \<Rightarrow> None))"

fun page_walk :: "('s \<Rightarrow> seq option \<Rightarrow> store_error + page) \<Rightarrow> 's list \<Rightarrow> seq option \<Rightarrow> stored_record list option" where
  "page_walk page [] after = None"
| "page_walk page (s # states) after =
     (case page s after of
        Inl e \<Rightarrow> None
      | Inr p \<Rightarrow>
          (case pg_next p of
             None \<Rightarrow> Some (pg_records p)
           | Some q \<Rightarrow> map_option ((@) (pg_records p)) (page_walk page states (Some q))))"

lemma page_walk_still: "page_walk page (replicate n s) after = walk (page s) n after"
  by (induction n arbitrary: after) (auto split: sum.splits option.splits)

lemma http_walk_pages:
  assumes "\<And>s position. s \<in> set states \<Longrightarrow> ask s position = map_err Internal (map_ok (\<lambda>p. cached_response 200 E age
      (tag s position) (PageJson (page_body_new E p (newest s)))) (page s (map_option seq_new position)))"
  shows "http_walk ask states position =
    map_option (map (record_body_of E)) (page_walk page states (map_option seq_new position))"
  using assms
proof (induction states arbitrary: position)
  case (Cons s states)
  have again: "map_option seq_new (Some (seq_get q)) = Some q" for q by (simp add: seq_new_def)
  have ask: "ask s position = map_err Internal (map_ok (\<lambda>p. cached_response 200 E age
      (tag s position) (PageJson (page_body_new E p (newest s)))) (page s (map_option seq_new position)))" for position
    by (rule Cons.prems) simp
  have IH: "http_walk ask states position =
      map_option (map (record_body_of E)) (page_walk page states (map_option seq_new position))" for position
    by (rule Cons.IH) (rule Cons.prems, simp)
  show ?case
  proof (cases "page s (map_option seq_new position)")
    case (Inr p)
    then show ?thesis
      using IH[of "map_option seq_get (pg_next p)"] again
      by (cases "pg_next p") (simp_all add: ask page_body_new_def option.map_comp comp_def)
  qed (simp add: ask)
qed simp

text \<open>Pages of one feed, each of the rows of the state it is asked in: what stays is read, and what is read was there.\<close>

lemma page_walk_feed:
  fixes at :: "'s \<Rightarrow> db"
  assumes E: "env_ok E" and b: "budget_valid b"
    and page: "\<And>d after. d \<in> set ds \<Longrightarrow> cursor_of after < 2 ^ 63 \<Longrightarrow> page d after = feed_page E s c P (cursor_of after) b (at d)"
    and ok: "\<And>d. d \<in> set ds \<Longrightarrow> db_ok E (at d)"
  shows "page_walk page ds after = Some rs \<Longrightarrow> cursor_of after < 2 ^ 63 \<Longrightarrow>
    (\<forall>r. (\<forall>d \<in> set ds. r \<in> set (db_rows (at d))) \<longrightarrow> in_collection s c r \<longrightarrow> P r \<longrightarrow> cursor_of after < r_seq r \<longrightarrow>
       record_of_row s c r \<in> set rs) \<and>
    (\<forall>x \<in> set rs. \<exists>d \<in> set ds. \<exists>r \<in> set (db_rows (at d)). in_collection s c r \<and> P r \<and> x = record_of_row s c r)"
  using page ok
proof (induction ds arbitrary: after rs)
  case (Cons d ds)
  let ?f = "feed s c P (cursor_of after) (db_rows (at d))"
  have d: "db_ok E (at d)" using Cons.prems(4) by simp
  have member: "r \<in> set ?f \<longleftrightarrow> r \<in> set (db_rows (at d)) \<and> in_collection s c r \<and> P r \<and> cursor_of after < r_seq r" for r
    by (auto simp: set_feed)
  have run: "page d after = feed_page E s c P (cursor_of after) b (at d)" using Cons.prems(2,3) by simp
  from E d b show ?case
  proof (cases rule: feed_page_step[where s = s and c = c and P = P and n = "cursor_of after"])
    case last
    then have "rs = map (record_of_row s c) ?f" using Cons.prems(1) run by simp
    then show ?thesis using member by auto
  next
    case (more k p)
    have part: "r \<in> set (take k ?f)" if "r \<in> set ?f" "\<not> p < r_seq r" for r
    proof -
      have "r \<notin> set (drop k ?f)" using that(2) unfolding more(4)[symmetric] by (auto simp: set_feed)
      then show ?thesis using that(1) set_append[of "take k ?f" "drop k ?f"] by auto
    qed
    from Cons.prems(1) run more(5) obtain rs' where
        rs': "page_walk page ds (Some (Seq (word_of_int p))) = Some rs'" and rs: "rs = map (record_of_row s c) (take k ?f) @ rs'"
      by auto
    have IH: "(\<forall>r. (\<forall>d \<in> set ds. r \<in> set (db_rows (at d))) \<longrightarrow> in_collection s c r \<longrightarrow> P r \<longrightarrow> p < r_seq r \<longrightarrow>
         record_of_row s c r \<in> set rs') \<and>
      (\<forall>x \<in> set rs'. \<exists>d \<in> set ds. \<exists>r \<in> set (db_rows (at d)). in_collection s c r \<and> P r \<and> x = record_of_row s c r)"
      using Cons.IH[OF rs'] more(2,3) Cons.prems(3,4) by simp
    have "record_of_row s c r \<in> set rs"
      if "\<forall>d' \<in> set (d # ds). r \<in> set (db_rows (at d'))" "in_collection s c r" "P r" "cursor_of after < r_seq r" for r
      using that IH part[of r] member[of r] by (cases "p < r_seq r") (auto simp: rs)
    moreover have "\<exists>d' \<in> set (d # ds). \<exists>r \<in> set (db_rows (at d')). in_collection s c r \<and> P r \<and> x = record_of_row s c r"
      if "x \<in> set rs" for x
      using that IH member by (auto simp: rs dest!: in_set_takeD)
    ultimately show ?thesis by blast
  qed
qed simp

text \<open>The query string a client sends: its parameters, and the cursor of the last body if there was one.\<close>

definition sends :: "env \<Rightarrow> (rstr \<times> rstr) list \<Rightarrow> (64 word option \<Rightarrow> rstr) \<Rightarrow> bool" where
  "sends E params query \<longleftrightarrow> (\<forall>position. e_form_parse E (query position) =
     params @ (case position of None \<Rightarrow> [] | Some n \<Rightarrow> [(lit ''cursor'', seq_to_string (Seq n))]))"

lemma list_params_loop_append:
  "list_params_loop (xs @ ys) ps = ok_then (list_params_loop xs ps) (list_params_loop ys)"
proof (induction xs arbitrary: ps)
  case (Cons kv xs)
  then show ?case
    by (cases kv) (auto simp: reject_repeat_def query_number_def ok_or_def result_simps simp del: lit_simps split: option.splits sum.splits)
qed (simp add: ok_then_def)

lemma list_params_loop_cursor:
  "lp_cursor ps = None \<Longrightarrow>
     list_params_loop [(lit ''cursor'', seq_to_string (Seq n))] ps = Inr (ps\<lparr>lp_cursor := Some n\<rparr>)"
proof -
  have "int (unat n) \<le> U64_MAX" using unsigned_less[of n, where ?'a = int] by (simp add: U64_MAX_def)
  then show "lp_cursor ps = None \<Longrightarrow> ?thesis"
    by (simp add: reject_repeat_def query_number_def ok_or_def seq_to_string_def parse_unsigned_dec ok_then_def)
qed

section \<open>The handler behind every page\<close>

text \<open>A client of a served collection whose parameters, without a cursor, are accepted; \<open>filters\<close> are those of
  them that name a field.\<close>

definition listing_client ::
    "env \<Rightarrow> db api_state \<Rightarrow> rstr \<Rightarrow> rstr \<Rightarrow> (64 word option \<Rightarrow> rstr) \<Rightarrow> source_name \<Rightarrow> collection_name \<Rightarrow>
     collection_schema \<Rightarrow> (rstr \<times> rstr) list \<Rightarrow> bool" where
  "listing_client E a st ct query source collection schema filters \<longleftrightarrow>
     as_store a = postgres_store E \<and> budget_ok (as_response_bytes a) \<and>
     source_name_new st = Inr source \<and> collection_name_new ct = Inr collection \<and>
     schema_set_get (as_schemas a) collection = Some schema \<and>
     (\<exists>params lp flt. sends E params query \<and> parse_list_params E (Some (query None)) = Inr lp \<and> lp_cursor lp = None \<and>
        filters = lp_filters lp \<and> filter_parse schema filters = Inr flt \<and> e_jsonb E (filter_as_json flt) \<noteq> None)"

lemma sends_parse:
  assumes "sends E params query" and "parse_list_params E (Some (query None)) = Inr lp" and "lp_cursor lp = None"
  shows "parse_list_params E (Some (query position)) = Inr (lp\<lparr>lp_cursor := position\<rparr>)"
proof -
  have "list_params_loop params list_params_default = Inr lp" using assms(1,2) by (simp add: sends_def parse_list_params_def)
  then show ?thesis
    using assms(1,3)
    by (cases position) (simp_all add: sends_def parse_list_params_def list_params_loop_append list_params_loop_cursor del: lit_simps list_params_loop.simps)
qed

text \<open>The walk over the handler is a walk over pages of the feed of what the filter selects.\<close>

lemma listing_walk:
  assumes "env_ok E" and "containment_ok eq E" and "listing_client E a st ct query source collection schema filters"
    and "\<And>d d'. (d, d') \<in> set ds \<Longrightarrow> db_ok E d \<and> db_ok E d'"
  shows "\<exists>b page. budget_valid b \<and>
    (\<forall>dd after. cursor_of after < 2 ^ 63 \<longrightarrow> page dd after = feed_page E source collection
       (\<lambda>r. r_deleted_at r = None \<and> selected eq schema filters (r_payload r)) (cursor_of after) b (snd dd)) \<and>
    http_walk (\<lambda>(d, d') position. list_collection E a st ct (Some (query position)) None d d') ds None =
       map_option (map (record_body_of E)) (page_walk page ds None)"
proof -
  from assms(3) obtain params lp flt doc where a: "as_store a = postgres_store E" "budget_ok (as_response_bytes a)"
    and names: "source_name_new st = Inr source" "collection_name_new ct = Inr collection"
      "schema_set_get (as_schemas a) collection = Some schema"
    and query: "sends E params query" "parse_list_params E (Some (query None)) = Inr lp" "lp_cursor lp = None"
    and flt: "filters = lp_filters lp" "filter_parse schema (lp_filters lp) = Inr flt" "e_jsonb E (filter_as_json flt) = Some doc"
    by (auto simp: listing_client_def)
  define b where "b = \<lparr>pb_records = page_limit_of (lp_limit lp), pb_bytes = as_response_bytes a\<rparr>"
  define page where "page = (\<lambda>dd :: db \<times> db. \<lambda>after. pg_list E source collection flt after b (snd dd))"
  define newest where "newest = (\<lambda>d. if top_position source collection d = 0 then None else Some (Seq (word_of_int (top_position source collection d))))"
  define tag where "tag = (\<lambda>d position. listing_validator E (newest d) (map_option seq_new position) (page_limit_of (lp_limit lp)) flt)"
  have ask: "list_collection E a st ct (Some (query position)) None d d' = map_err Internal (map_ok
      (\<lambda>p. cached_response 200 E (shared_max_age (cs_cache schema)) (tag d position) (PageJson (page_body_new E p (position_or_zero (newest d)))))
      (page (d, d') (map_option seq_new position)))" if "db_ok E d" for d d' position
  proof -
    have max_seq: "st_max_seq (as_store a) source collection d = Inr (newest d)" by (simp add: a pg_max_seq_top[OF that] newest_def)
    show ?thesis
      unfolding list_collection_def parse_path_def names sends_parse[OF query] find_schema_def
      by (simp add: names flt Let_def max_seq is_fresh_def ok_or_def)
        (cases "page (d, d') (map_option seq_new position)"; simp add: a page_def b_def tag_def)
  qed
  show ?thesis
  proof (intro exI conjI allI impI)
    show "budget_valid b" using a(2) by (simp add: budget_valid_def b_def page_limit_of_def split: option.split)
    show "page dd after = feed_page E source collection
       (\<lambda>r. r_deleted_at r = None \<and> selected eq schema filters (r_payload r)) (cursor_of after) b (snd dd)"
      if "cursor_of after < 2 ^ 63" for dd after
      by (simp add: page_def pg_list_page[OF that flt(3)] matches_def[abs_def] filter_parse_selects[OF assms(2) flt(2,3)] flt(1))
    show "http_walk (\<lambda>(d, d') position. list_collection E a st ct (Some (query position)) None d d') ds None =
       map_option (map (record_body_of E)) (page_walk page ds None)"
      using assms(4) ask
      by (subst http_walk_pages[where page = page and newest = "\<lambda>(d, d'). position_or_zero (newest d)"
            and age = "shared_max_age (cs_cache schema)" and tag = "\<lambda>(d, d') position. tag d position"]) auto
  qed
qed

section \<open>What a client reads\<close>

text \<open>C22: A filtered listing is read completely: a client that sends its parameters and follows \<open>next_cursor\<close> is
  given, in feed order and once each, the bodies of exactly the live records that hold for every filter
  parameter the value it was coerced to - whatever limit it asked for and however the pages were cut -
  and is done after at most one request per row and one more.\<close>

theorem filtered_listing_is_complete:
  assumes "env_ok E" and "containment_ok eq E" and "db_ok E d" and "length (db_rows d) < fuel"
    and "listing_client E a st ct query source collection schema filters"
  shows "http_walk (\<lambda>(d, d') position. list_collection E a st ct (Some (query position)) None d d') (replicate fuel (d, d)) None =
    Some (map (\<lambda>r. record_body_of E (record_of_row source collection r)) (sort_key r_seq
      (filter (\<lambda>r. live_in source collection r \<and> selected eq schema filters (r_payload r)) (db_rows d))))"
proof -
  let ?P = "\<lambda>r. r_deleted_at r = None \<and> selected eq schema filters (r_payload r)"
  let ?f = "feed source collection ?P 0 (db_rows d)"
  have f: "?f = sort_key r_seq (filter (\<lambda>r. live_in source collection r \<and> selected eq schema filters (r_payload r)) (db_rows d))"
    using assms(3) unfolding feed_def
    by (intro arg_cong[where f = "sort_key r_seq"] filter_cong) (auto simp: db_ok_def live_in_def)
  have still: "db_ok E e \<and> db_ok E e'" if "(e, e') \<in> set (replicate fuel (d, d))" for e e'
    using that assms(3) by simp
  have "length ?f < fuel" using le_less_trans[OF length_filter_le assms(4)] by (simp add: f)
  moreover obtain b page where b: "budget_valid b"
    and page: "\<And>dd after. cursor_of after < 2 ^ 63 \<Longrightarrow> page dd after = feed_page E source collection ?P (cursor_of after) b (snd dd)"
    and http: "http_walk (\<lambda>(d, d') position. list_collection E a st ct (Some (query position)) None d d') (replicate fuel (d, d)) None =
       map_option (map (record_body_of E)) (page_walk page (replicate fuel (d, d)) None)"
    using listing_walk[OF assms(1,2,5), of "replicate fuel (d, d)"] still by blast
  ultimately have "walk (page (d, d)) fuel None = Some (map (record_of_row source collection) ?f)"
    using walk_feed[OF assms(1,3) b, of "page (d, d)" source collection ?P None fuel] by (simp add: page cursor_of_def)
  then show ?thesis unfolding http page_walk_still f by (simp add: comp_def)
qed

text \<open>C23: While the source writes between and during the requests, a listing that is read to its end still misses
  nothing that stays: the body of every selected live row that is there at every request is in it, and
  nothing else is in it than bodies of rows that were live and selected at one of the requests.\<close>

theorem listing_misses_nothing_that_stays:
  assumes "env_ok E" and "containment_ok eq E" and "\<And>d d'. (d, d') \<in> set ds \<Longrightarrow> db_ok E d \<and> db_ok E d'"
    and "listing_client E a st ct query source collection schema filters"
    and "http_walk (\<lambda>(d, d') position. list_collection E a st ct (Some (query position)) None d d') ds None = Some bodies"
  shows "(\<forall>r. (\<forall>(d, d') \<in> set ds. r \<in> set (db_rows d')) \<longrightarrow> live_in source collection r \<longrightarrow> selected eq schema filters (r_payload r) \<longrightarrow>
       record_body_of E (record_of_row source collection r) \<in> set bodies) \<and>
    (\<forall>x \<in> set bodies. \<exists>(d, d') \<in> set ds. \<exists>r \<in> set (db_rows d').
       live_in source collection r \<and> selected eq schema filters (r_payload r) \<and> x = record_body_of E (record_of_row source collection r))"
proof -
  let ?P = "\<lambda>r. r_deleted_at r = None \<and> selected eq schema filters (r_payload r)"
  obtain b page where b: "budget_valid b"
    and page: "\<And>dd after. cursor_of after < 2 ^ 63 \<Longrightarrow> page dd after = feed_page E source collection ?P (cursor_of after) b (snd dd)"
    and http: "http_walk (\<lambda>(d, d') position. list_collection E a st ct (Some (query position)) None d d') ds None =
       map_option (map (record_body_of E)) (page_walk page ds None)"
    using listing_walk[OF assms(1,2,4,3)] by blast
  from assms(5) http obtain rs where rs: "page_walk page ds None = Some rs" "bodies = map (record_body_of E) rs" by auto
  have ok: "db_ok E (snd dd)" if "dd \<in> set ds" for dd using that assms(3)[of "fst dd" "snd dd"] by simp
  have one: "1 \<le> r_seq r" if "dd \<in> set ds" "r \<in> set (db_rows (snd dd))" for dd r using ok[OF that(1)] that(2) by (auto simp: db_ok_def)
  have "ds \<noteq> []" using rs by auto
  then obtain dd where dd: "dd \<in> set ds" by (cases ds) auto
  have start: "cursor_of None < 2 ^ 63" "cursor_of None = 0" by (simp_all add: cursor_of_def)
  note walked = page_walk_feed[OF assms(1) b, of ds page source collection ?P snd None rs, OF page ok rs(1) start(1), unfolded start(2)]
  show ?thesis
  proof (intro conjI allI ballI impI)
    fix r assume r: "\<forall>(d, d') \<in> set ds. r \<in> set (db_rows d')" "live_in source collection r" "selected eq schema filters (r_payload r)"
    then have stays: "\<forall>dd \<in> set ds. r \<in> set (db_rows (snd dd))" by auto
    then have "0 < r_seq r" using one[OF dd, of r] dd by auto
    then show "record_body_of E (record_of_row source collection r) \<in> set bodies"
      using walked stays r(2,3) by (simp add: rs(2) live_in_def)
  next
    fix x assume "x \<in> set bodies"
    then obtain y where "y \<in> set rs" "x = record_body_of E y" by (auto simp: rs(2))
    with walked obtain e r where "e \<in> set ds" "r \<in> set (db_rows (snd e))" "in_collection source collection r" "?P r"
        "y = record_of_row source collection r"
      by blast
    with \<open>x = _\<close> show "\<exists>(d, d') \<in> set ds. \<exists>r \<in> set (db_rows d').
       live_in source collection r \<and> selected eq schema filters (r_payload r) \<and> x = record_body_of E (record_of_row source collection r)"
      by (intro bexI[of _ e]) (auto simp: live_in_def split: prod.split)
  qed
qed

section \<open>A client of the sample shop\<close>

definition sample_filter_params :: "(rstr \<times> rstr) list" where
  "sample_filter_params = [(lit ''filter[sku]'', lit ''B''), (lit ''limit'', lit ''1'')]"

definition sample_query :: "64 word option \<Rightarrow> rstr" where
  "sample_query position = lit ''filter[sku]=B&limit=1'' @
     (case position of None \<Rightarrow> [] | Some n \<Rightarrow> lit ''&cursor='' @ seq_to_string (Seq n))"

lemma sample_containment: "containment_ok (=) sample_env"
proof -
  have scalar: "same_scalar (=) v w \<longleftrightarrow> w = v" if "is_scalar v" for v w
    using that by (cases v; cases w) (auto simp: is_scalar_def is_object_def is_array_def)
  have kept: "list_all2 (\<lambda>a b. fst a = fst b \<and> same_scalar (=) (snd a) (snd b)) n n" if "list_all (is_scalar \<circ> snd) n" for n :: "(rstr \<times> json) list"
    using that by (induction n) (auto simp: scalar)
  have holds: "holds_at (=) (JObject m) k x \<longleftrightarrow> bt_get k m = Some x" if "is_scalar x" for m k x
    by (simp add: holds_at_iff scalar[OF that])
  have contains: "e_contains sample_env v (JObject n) \<longleftrightarrow> (\<exists>m. v = JObject m) \<and> (\<forall>(k, x) \<in> set n. holds_at (=) v k x)"
    if "list_all (is_scalar \<circ> snd) n" for v n
  proof (cases v)
    case (JObject m)
    from that have "\<forall>kx \<in> set n. is_scalar (snd kx)" by (simp add: list_all_iff)
    then have "(\<forall>kx \<in> set n. bt_get (fst kx) m = Some (snd kx)) \<longleftrightarrow> (\<forall>kx \<in> set n. holds_at (=) (JObject m) (fst kx) (snd kx))"
      by (simp add: holds)
    then show ?thesis by (simp add: JObject sample_env_def list_all_iff split_beta)
  qed (simp_all add: sample_env_def)
  have same: "e_jsonb sample_env v = Some w \<Longrightarrow> w = v" for v w by (simp add: sample_env_def split: if_splits)
  show ?thesis
    unfolding containment_ok_def by (intro conjI allI impI identity_equivp contains) (auto dest!: same intro: kept)
qed

lemma sample_sends: "sends sample_env sample_filter_params sample_query"
  unfolding sends_def
proof
  fix position
  have digits: "c \<notin> set (dec n)" if "c < 48" for c n using dec_chars[of c n] that by (auto simp: not_le[symmetric])
  have parts: "38 \<notin> set (lit ''filter[sku]=B'')" "38 \<notin> set (lit ''limit=1'')" "61 \<notin> set (lit ''filter[sku]'')" "61 \<notin> set (lit ''limit'')"
    "61 \<notin> set (lit ''cursor'')" "38 \<notin> set (lit ''cursor='')" by code_simp+
  show "e_form_parse sample_env (sample_query position) =
     sample_filter_params @ (case position of None \<Rightarrow> [] | Some n \<Rightarrow> [(lit ''cursor'', seq_to_string (Seq n))])"
  proof (cases position)
    case None
    show ?thesis unfolding None by code_simp
  next
    case (Some n)
    have amp: "38 \<notin> set (lit ''cursor='' @ dec (unat n))" using parts digits[of 38] by auto
    have "sample_query position = lit ''filter[sku]=B'' @ 38 # lit ''limit=1'' @ 38 # lit ''cursor='' @ dec (unat n)"
      by (simp add: sample_query_def Some seq_to_string_def)
    then have pieces: "split_on 38 (sample_query position) = [lit ''filter[sku]=B'', lit ''limit=1'', lit ''cursor='' @ dec (unat n)]"
      by (simp only: split_on_append[OF parts(1)] split_on_append[OF parts(2)] split_on_no_sep[OF amp])
    have "lit ''cursor='' @ dec (unat n) = lit ''cursor'' @ 61 # dec (unat n)" by simp
    then have last: "split_on 61 (lit ''cursor='' @ dec (unat n)) = [lit ''cursor'', dec (unat n)]"
      using split_on_no_sep[of 61 "dec (unat n)"] split_on_append[OF parts(5), of "dec (unat n)"] digits[of 61] dec_chars[of 61 "unat n"] by fastforce
    have first: "split_on 61 (lit ''filter[sku]=B'') = [lit ''filter[sku]'', lit ''B'']" "split_on 61 (lit ''limit=1'') = [lit ''limit'', lit ''1'']"
      by code_simp+
    show ?thesis
      by (simp add: sample_env_def pieces[unfolded Some] first last sample_filter_params_def Some seq_to_string_def del: lit_simps)
  qed
qed

lemma sample_client:
  "listing_client sample_env sample_api (lit ''erp'') (lit ''products'') sample_query erp products shop_schema [(lit ''sku'', lit ''B'')]"
proof -
  have "parse_list_params sample_env (Some (sample_query None)) = Inr \<lparr>lp_limit = Some 1, lp_cursor = None, lp_filters = [(lit ''sku'', lit ''B'')]\<rparr>"
    by code_simp
  moreover have "filter_parse shop_schema [(lit ''sku'', lit ''B'')] = Inr (Filter [(lit ''sku'', JString (lit ''B''))])"
    "e_jsonb sample_env (filter_as_json (Filter [(lit ''sku'', JString (lit ''B''))])) \<noteq> None"
    "source_name_new (lit ''erp'') = Inr erp" "collection_name_new (lit ''products'') = Inr products"
    "schema_set_get (as_schemas sample_api) products = Some shop_schema"
    by code_simp+
  moreover have "budget_ok (as_response_bytes sample_api)" by (simp add: sample_api_def api_state_new_def)
  ultimately show ?thesis
    unfolding listing_client_def using sample_sends by (simp add: sample_api_def api_state_new_def) blast
qed

lemma filtered_listing_is_complete_witness:
  "\<exists>x. http_walk (\<lambda>(d, d') position. list_collection sample_env sample_api (lit ''erp'') (lit ''products'') (Some (sample_query position)) None d d')
     (replicate 3 (sample_db, sample_db)) None = Some [x] \<and> rb_id x = lit ''B''"
proof -
  have "length (db_rows sample_db) < 3" by (simp add: sample_db_def)
  note whole = filtered_listing_is_complete[OF sample_env_ok sample_containment sample_db_ok this sample_client]
  have "filter (\<lambda>r. live_in erp products r \<and> selected (=) shop_schema [(lit ''sku'', lit ''B'')] (r_payload r)) (db_rows sample_db) = [sample_row ''B'' 2]"
    by code_simp
  then show ?thesis unfolding whole by (simp add: record_body_of_def sample_row_def proposed_row_def record_key_new_def)
qed

text \<open>Between the two requests of a walk with one record per page, A is deleted and B stays.\<close>

definition sample_deleted_db :: db where
  "sample_deleted_db = snd (pg_apply sample_env erp products [OpDelete (RecordId (lit ''A''))] sample_db)"

lemma listing_misses_nothing_that_stays_witness:
  "\<exists>bodies. http_walk (\<lambda>(d, d') position. list_collection sample_env sample_api (lit ''erp'') (lit ''products'') (Some (sample_query position)) None d d')
     [(sample_db, sample_deleted_db), (sample_deleted_db, sample_deleted_db)] None = Some bodies \<and>
     record_body_of sample_env (record_of_row erp products (sample_row ''B'' 2)) \<in> set bodies"
proof -
  let ?ask = "\<lambda>(d, d') position. list_collection sample_env sample_api (lit ''erp'') (lit ''products'') (Some (sample_query position)) None d d'"
  let ?ds = "[(sample_db, sample_deleted_db), (sample_deleted_db, sample_deleted_db)]"
  have "fst (pg_apply sample_env erp products [OpDelete (RecordId (lit ''A''))] sample_db) = Inr [ATombstoned (Seq 3)]" by code_simp
  then have run: "pg_apply sample_env erp products [OpDelete (RecordId (lit ''A''))] sample_db = (Inr [ATombstoned (Seq 3)], sample_deleted_db)"
    by (simp add: sample_deleted_db_def prod_eq_iff)
  have "list_all op_ok [OpDelete (RecordId (lit ''A''))]" by (simp add: ident_eval)
  from pg_apply_ok[OF sample_env_ok sample_db_ok sample_names_ok this run] have deleted: "db_ok sample_env sample_deleted_db" .
  have oks: "db_ok sample_env d \<and> db_ok sample_env d'" if "(d, d') \<in> set ?ds" for d d'
    using that deleted sample_db_ok by auto
  have "http_walk ?ask ?ds None \<noteq> None" by code_simp
  then obtain bodies where walk: "http_walk ?ask ?ds None = Some bodies" by blast
  have "sample_row ''B'' 2 \<in> set (db_rows sample_deleted_db)" "live_in erp products (sample_row ''B'' 2)"
    "selected (=) shop_schema [(lit ''sku'', lit ''B'')] (r_payload (sample_row ''B'' 2))"
    by code_simp+
  with listing_misses_nothing_that_stays[OF sample_env_ok sample_containment oks sample_client walk] walk show ?thesis by auto
qed

end
