(* ===== verification/Http_Replica.thy ===== *)
theory Http_Replica
  imports Concurrent_Reads
begin

text \<open>
  A consumer that replicates a collection over HTTP: it asks the change feed (\<open>public.rs\<close>) for what follows
  the last \<open>next_cursor\<close> it was given and applies the bodies (\<open>response.rs\<close>) to its copy, while batches of
  many senders are in flight. It sees texts and numbers, no types of the service.
\<close>

section \<open>The consumer\<close>

record http_replica =
  hr_cursor :: "64 word option"
  hr_copy :: "rstr \<Rightarrow> (json \<times> rstr) option"

definition new_http_replica :: http_replica where
  "new_http_replica = \<lparr>hr_cursor = None, hr_copy = (\<lambda>_. None)\<rparr>"

definition consume_change :: "(rstr \<Rightarrow> (json \<times> rstr) option) \<Rightarrow> change_body \<Rightarrow> rstr \<Rightarrow> (json \<times> rstr) option" where
  "consume_change copy ch =
     copy(chb_id ch := (if chb_deleted ch then None else Some (chb_payload ch, chb_content_hash ch)))"

definition pull_body :: "changes_body \<Rightarrow> http_replica \<Rightarrow> http_replica" where
  "pull_body cb hr =
     \<lparr>hr_cursor = (case csb_next_cursor cb of None \<Rightarrow> hr_cursor hr | Some n \<Rightarrow> Some n),
      hr_copy = foldl consume_change (hr_copy hr) (csb_changes cb)\<rparr>"

text \<open>A request with the consumer's cursor; \<open>seen\<close> is the store at its first query.\<close>

definition ask_feed ::
    "env \<Rightarrow> db api_state \<Rightarrow> rstr \<Rightarrow> rstr \<Rightarrow> 16 word option \<Rightarrow> http_replica \<Rightarrow> db \<Rightarrow> db \<Rightarrow> changes_body option" where
  "ask_feed E a st ct limit hr seen d =
     (case changes E a st ct (Inr \<lparr>cq_since = hr_cursor hr, cq_limit = limit\<rparr>) None seen d of
        Inl e \<Rightarrow> None
      | Inr r \<Rightarrow> (case rs_body r of ChangesJson cb \<Rightarrow> Some cb | _ \<Rightarrow> None))"

inductive http_feed_step ::
    "env \<Rightarrow> db api_state \<Rightarrow> rstr \<Rightarrow> rstr \<Rightarrow> cluster \<times> http_replica \<Rightarrow> cluster \<times> http_replica \<Rightarrow> bool" for E a st ct where
  http_writes: "cluster_step E cl cl' \<Longrightarrow> http_feed_step E a st ct (cl, hr) (cl', hr)"
| http_pulls: "ask_feed E a st ct limit hr seen d = Some cb \<Longrightarrow>
    no_position_passed (SourceName st) (CollectionName ct) (cursor_of (map_option Seq (hr_cursor (pull_body cb hr)))) ts \<Longrightarrow>
    http_feed_step E a st ct ((d, ts), hr) ((d, ts), pull_body cb hr)"

section \<open>What a replica looks like over HTTP\<close>

definition over_http :: "env \<Rightarrow> replica \<Rightarrow> http_replica" where
  "over_http E rp = \<lparr>hr_cursor = map_option seq_get (rp_cursor rp),
     hr_copy = (\<lambda>i. map_option (\<lambda>(p, h). (p, e_hex E h)) (rp_content rp i))\<rparr>"

lemma over_http_new: "over_http E new_replica = new_http_replica"
  by (simp add: over_http_def new_replica_def new_http_replica_def)

lemma over_http_consume:
  "foldl consume_change (\<lambda>i. map_option (\<lambda>(p, h). (p, e_hex E h)) (m i)) (map (change_body_of E) rs) =
     (\<lambda>i. map_option (\<lambda>(p, h). (p, e_hex E h)) (foldl consume m rs i))"
proof (induction rs arbitrary: m)
  case (Cons r rs)
  have "consume_change (\<lambda>i. map_option (\<lambda>(p, h). (p, e_hex E h)) (m i)) (change_body_of E r) =
      (\<lambda>i. map_option (\<lambda>(p, h). (p, e_hex E h)) (consume m r i))"
    by (auto simp: consume_change_def change_body_of_def consume_def hash_to_hex_def)
  with Cons show ?case by simp
qed simp

lemma over_http_pull: "pull_body (changes_body_new E p newest) (over_http E rp) = over_http E (pull_page p rp)"
  by (cases "pg_next p") (simp_all add: pull_body_def changes_body_new_def pull_page_def over_http_def over_http_consume)

lemma ask_feed_page:
  assumes "as_store a = postgres_store E" "budget_ok (as_response_bytes a)" "ask_feed E a st ct limit (over_http E rp) seen d = Some cb"
  obtains b p newest where "budget_valid b" "pg_changes E (SourceName st) (CollectionName ct) (rp_cursor rp) b d = Inr p"
    "cb = changes_body_new E p newest"
proof -
  have again: "map_option seq_new (map_option seq_get q) = q" for q by (cases q) (simp_all add: seq_new_def)
  from assms(3) obtain r where run: "changes E a st ct (Inr \<lparr>cq_since = hr_cursor (over_http E rp), cq_limit = limit\<rparr>) None seen d = Inr r"
    and body: "rs_body r = ChangesJson cb"
    by (auto simp: ask_feed_def split: sum.splits body.splits)
  from run body show thesis
    by (auto simp: changes_Inr Let_def collection_request_def assms(1) over_http_def again is_fresh_def
        source_ident.new_Inr_iff collection_ident.new_Inr_iff
        intro!: that[of "\<lparr>pb_records = page_limit_of limit, pb_bytes = as_response_bytes a\<rparr>"])
      (simp add: budget_valid_def assms(2) page_limit_of_def split: option.split)
qed

lemma http_run_simulated:
  assumes "as_store a = postgres_store E" "budget_ok (as_response_bytes a)"
    and "(http_feed_step E a st ct)\<^sup>*\<^sup>* ((d0, []), new_http_replica) (cl, hr)"
  shows "\<exists>rp. hr = over_http E rp \<and> (feed_step E (SourceName st) (CollectionName ct))\<^sup>*\<^sup>* ((d0, []), new_replica) (cl, rp)"
  using assms(3)
proof (induction "(cl, hr)" arbitrary: cl hr rule: rtranclp_induct)
  case base
  then show ?case by (intro exI[of _ new_replica]) (simp add: over_http_new)
next
  case (step st')
  obtain cl0 hr0 where st': "st' = (cl0, hr0)" by (cases st')
  with step.hyps(3) obtain rp where rp: "hr0 = over_http E rp"
    and run: "(feed_step E (SourceName st) (CollectionName ct))\<^sup>*\<^sup>* ((d0, []), new_replica) (cl0, rp)" by blast
  from step.hyps(2)[unfolded st'] show ?case
  proof (cases rule: http_feed_step.cases)
    case http_writes
    with run rp show ?thesis by (auto intro: rtranclp.rtrancl_into_rtrancl feed_writes)
  next
    case (http_pulls limit seen d cb ts)
    obtain b p newest where page: "budget_valid b" "pg_changes E (SourceName st) (CollectionName ct) (rp_cursor rp) b d = Inr p"
      and cb: "cb = changes_body_new E p newest"
      using ask_feed_page[OF assms(1,2)] http_pulls(4) unfolding rp by blast
    have hr: "hr = over_http E (pull_page p rp)" using http_pulls(3) by (simp add: rp cb over_http_pull)
    have "map_option Seq (map_option seq_get q) = q" for q by (cases q) simp_all
    then have "no_position_passed (SourceName st) (CollectionName ct) (cursor_of (rp_cursor (pull_page p rp))) ts"
      using http_pulls(5) unfolding http_pulls(3)[symmetric] hr by (simp add: over_http_def)
    from feed_pulls[OF page this] run http_pulls(1,2) hr show ?thesis
      by (auto intro: rtranclp.rtrancl_into_rtrancl)
  qed
qed

section \<open>Convergence\<close>

text \<open>C2: Replication over HTTP is correct with batches of many senders in flight: if no pull moves the cursor past
  a position that an open transaction still holds in the collection, then a pull whose body offers no
  cursor leaves the consumer with exactly the committed live records, each with its released payload and
  the hex of its content hash, however statements, commits, aborts and requests interleave and whatever
  limits the consumer asked for.\<close>

theorem http_replica_converges:
  assumes "env_ok E" and "db_ok E d0" and "as_store a = postgres_store E" and "budget_ok (as_response_bytes a)"
    and "(http_feed_step E a st ct)\<^sup>*\<^sup>* ((d0, []), new_http_replica) ((d, ts), hr)"
    and "ask_feed E a st ct limit hr seen d = Some cb" and "csb_next_cursor cb = None"
  shows "hr_copy (pull_body cb hr) =
    (\<lambda>i. map_option (\<lambda>(payload, hash). (payload, e_hex E hash)) (live (SourceName st) (CollectionName ct) d i))"
proof -
  obtain rp where rp: "hr = over_http E rp"
    and run: "(feed_step E (SourceName st) (CollectionName ct))\<^sup>*\<^sup>* ((d0, []), new_replica) ((d, ts), rp)"
    using http_run_simulated[OF assms(3-5)] by blast
  obtain b p newest where page: "budget_valid b" "pg_changes E (SourceName st) (CollectionName ct) (rp_cursor rp) b d = Inr p"
    and cb: "cb = changes_body_new E p newest"
    using ask_feed_page[OF assms(3,4)] assms(6) unfolding rp by blast
  have "pg_next p = None" using assms(7) by (simp add: cb changes_body_new_def)
  from replica_converges_with_open_transactions[OF assms(1,2) run page this] show ?thesis
    by (simp add: rp cb over_http_pull) (simp add: over_http_def)
qed

text \<open>The run of the witness above, over HTTP: two pulls of one record while B is open.\<close>

lemma http_replica_converges_witness:
  "\<exists>cb hr. ask_feed sample_env sample_api (lit ''erp'') (lit ''products'') (Some 1) hr (tx_commit (item_txn ''A'' 1) both_open)
       (tx_commit (item_txn ''A'' 1) both_open) = Some cb \<and>
     hr_cursor hr = Some 1 \<and> csb_changes cb = [] \<and>
     hr_copy (pull_body cb hr) (lit ''A'') = Some (item ''A'', sample_hex (sample_digest (sample_jcs (item ''A''))))"
proof -
  let ?d = "tx_commit (item_txn ''A'' 1) both_open" and ?ts = "[item_txn ''B'' 2]"
  let ?ask = "\<lambda>hr. ask_feed sample_env sample_api (lit ''erp'') (lit ''products'') (Some 1) hr ?d ?d"
  have names: "SourceName (lit ''erp'') = erp" "CollectionName (lit ''products'') = products" by (simp_all add: erp_def products_def)
  have budget: "budget_ok (as_response_bytes sample_api)" by (simp add: sample_api_def api_state_new_def)
  have "?ask new_http_replica \<noteq> None" by code_simp
  then obtain cb1 where cb1: "?ask new_http_replica = Some cb1" by blast
  let ?hr = "pull_body cb1 new_http_replica"
  have "map_option csb_next_cursor (?ask new_http_replica) = Some (Some 1)" by code_simp
  then have one: "hr_cursor ?hr = Some 1" unfolding cb1 by (simp add: pull_body_def)
  have "cluster_step sample_env (both_open, [item_txn ''A'' 1, item_txn ''B'' 2]) (?d, ?ts)"
    using item_commits[of both_open "[]" "''A''" 1 ?ts] by simp
  with both_open_run have "(cluster_step sample_env)\<^sup>*\<^sup>* (empty_db 7, []) (?d, ?ts)" by (rule rtranclp.rtrancl_into_rtrancl)
  then have "(http_feed_step sample_env sample_api (lit ''erp'') (lit ''products''))\<^sup>*\<^sup>* ((empty_db 7, []), new_http_replica) ((?d, ?ts), new_http_replica)"
    by (induction rule: rtranclp_induct) (auto intro: rtranclp.rtrancl_into_rtrancl http_writes)
  moreover have "no_position_passed (SourceName (lit ''erp'')) (CollectionName (lit ''products'')) (cursor_of (map_option Seq (hr_cursor ?hr))) ?ts"
    by (simp add: one no_position_passed_def item_txn_def sample_row_def cursor_of_def)
  then have "http_feed_step sample_env sample_api (lit ''erp'') (lit ''products'') ((?d, ?ts), new_http_replica) ((?d, ?ts), ?hr)"
    by (rule http_pulls[OF cb1])
  ultimately have run: "(http_feed_step sample_env sample_api (lit ''erp'') (lit ''products''))\<^sup>*\<^sup>* ((empty_db 7, []), new_http_replica) ((?d, ?ts), ?hr)"
    by (rule rtranclp.rtrancl_into_rtrancl)
  have second: "Option.bind (?ask new_http_replica) (\<lambda>cb. map_option (\<lambda>cb'. (csb_next_cursor cb', csb_changes cb')) (?ask (pull_body cb new_http_replica)))
      = Some (None, [])" by code_simp
  then obtain cb2 where cb2: "?ask ?hr = Some cb2" "csb_next_cursor cb2 = None" "csb_changes cb2 = []" unfolding cb1 by auto
  have "live erp products ?d (lit ''A'') = Some (item ''A'', sample_digest (sample_jcs (item ''A'')))" by code_simp
  with http_replica_converges[OF sample_env_ok empty_db_ok sample_api_store budget run cb2(1,2)]
  have "hr_copy (pull_body cb2 ?hr) (lit ''A'') = Some (item ''A'', e_hex sample_env (sample_digest (sample_jcs (item ''A''))))"
    by (simp add: names del: lit_simps)
  with cb2 one show ?thesis by (intro exI[of _ cb2] exI[of _ ?hr]) (simp add: sample_env_def)
qed

end
