(* ===== verification/Text_Forms.thy ===== *)
theory Text_Forms
  imports Schema_Facts Content_Hash Query_Filter
begin

text \<open>
  The text forms of the core types: \<open>Display\<close>, \<open>FromStr\<close>, \<open>TryFrom<String>\<close>, \<open>Into<String>\<close>, \<open>AsRef\<close> and
  \<open>Borrow\<close> of \<open>ident.rs\<close>, \<open>schema.rs\<close> and \<open>hash.rs\<close>. serde reads and writes these types through
  \<open>try_from\<close> and \<open>into\<close>, so a text form is what crosses the wire and what stands in a schema file.
\<close>

section \<open>The conversions\<close>

text \<open>The five conversions the macro \<open>ident_type!\<close> writes for a type with this constructor and this text.\<close>

record 'n conversions =
  cv_display :: "'n \<Rightarrow> rstr"
  cv_from_str :: "rstr \<Rightarrow> ident_error + 'n"
  cv_try_from :: "rstr \<Rightarrow> ident_error + 'n"
  cv_into :: "'n \<Rightarrow> rstr"
  cv_as_ref :: "'n \<Rightarrow> rstr"

definition ident_conversions :: "(rstr \<Rightarrow> ident_error + 'n) \<Rightarrow> ('n \<Rightarrow> rstr) \<Rightarrow> 'n conversions" where
  "ident_conversions new text =
     \<lparr>cv_display = text, cv_from_str = (\<lambda>v. new v), cv_try_from = (\<lambda>v. new v), cv_into = text, cv_as_ref = text\<rparr>"

definition source_conversions :: "source_name conversions" where
  "source_conversions = ident_conversions source_name_new source_str"

definition collection_conversions :: "collection_name conversions" where
  "collection_conversions = ident_conversions collection_name_new collection_str"

definition record_id_conversions :: "record_id conversions" where
  "record_id_conversions = ident_conversions record_id_new id_str"

definition field_name_try_from :: "rstr \<Rightarrow> ident_error + field_name" where
  "field_name_try_from v = field_name_new v"

definition field_name_into_string :: "field_name \<Rightarrow> rstr" where
  "field_name_into_string f = field_str f"

definition field_name_borrow :: "field_name \<Rightarrow> rstr" where
  "field_name_borrow f = field_str f"

definition field_name_to_string :: "field_name \<Rightarrow> rstr" where
  "field_name_to_string f = field_str f"

definition field_name_from_str :: "rstr \<Rightarrow> ident_error + field_name" where
  "field_name_from_str v = field_name_new v"

definition scalar_type_to_string :: "scalar_type \<Rightarrow> rstr" where
  "scalar_type_to_string t = lit (scalar_as_str t)"

definition id_path_try_from :: "rstr \<Rightarrow> schema_error + id_path" where
  "id_path_try_from v = id_path_from_str v"

definition id_path_into_string :: "id_path \<Rightarrow> rstr" where
  "id_path_into_string p = id_path_to_string p"

definition sort_key_into_string :: "sort_key \<Rightarrow> rstr" where
  "sort_key_into_string k = sort_key_to_string k"

definition hash_display :: "env \<Rightarrow> contenthash \<Rightarrow> rstr" where
  "hash_display E h = hash_to_hex E h"

definition hash_try_from :: "env \<Rightarrow> rstr \<Rightarrow> hash_parse_error + contenthash" where
  "hash_try_from E v = hash_from_str E v"

definition hash_into_string :: "env \<Rightarrow> contenthash \<Rightarrow> rstr" where
  "hash_into_string E h = hash_to_hex E h"

definition drop_reason_to_string :: "drop_reason \<Rightarrow> rstr" where
  "drop_reason_to_string reason =
     (case reason of
        UnknownKey \<Rightarrow> lit ''not declared by the schema''
      | TypeMismatch expected found \<Rightarrow> lit ''declared as '' @ lit expected @ lit '', but a '' @ lit found @ lit '' arrived'')"

text \<open>A filter as a map: the entries, collected.\<close>

definition map_of_filter :: "query_filter \<Rightarrow> (rstr, json) btree" where
  "map_of_filter f = bt_extend [] (filter_entries f)"

section \<open>The contract of a text form\<close>

text \<open>What is valid is read back from its text. An exact form has no other spellings.\<close>

locale text_form =
  fixes display :: "'a \<Rightarrow> rstr"
    and parse :: "rstr \<Rightarrow> 'e + 'a"
    and valid :: "'a \<Rightarrow> bool"
  assumes parse_display: "valid x \<Longrightarrow> parse (display x) = Inr x"
    and parse_valid: "parse s = Inr x \<Longrightarrow> valid x"
begin

lemma display_inj: "valid x \<Longrightarrow> valid y \<Longrightarrow> display x = display y \<longleftrightarrow> x = y"
  by (metis parse_display sum.inject(2))

lemma normal_form: "parse s = Inr x \<Longrightarrow> parse (display x) = Inr x"
  by (simp add: parse_display parse_valid)

end

locale exact_form =
  fixes display :: "'a \<Rightarrow> rstr"
    and parse :: "rstr \<Rightarrow> 'e + 'a"
    and valid :: "'a \<Rightarrow> bool"
  assumes parse_iff: "parse s = Inr x \<longleftrightarrow> valid x \<and> display x = s"
begin

lemma one_spelling: "parse s = Inr x \<Longrightarrow> parse t = Inr x \<Longrightarrow> s = t"
  by (simp add: parse_iff)

end

sublocale exact_form \<subseteq> text_form display parse valid
  by unfold_locales (simp_all add: parse_iff)

lemma conversions_simps:
  "cv_display (ident_conversions new text) = text" "cv_from_str (ident_conversions new text) = new"
  "cv_try_from (ident_conversions new text) = new" "cv_into (ident_conversions new text) = text"
  "cv_as_ref (ident_conversions new text) = text"
  by (simp_all add: ident_conversions_def)

interpretation source_text: exact_form "cv_display source_conversions" "cv_from_str source_conversions" source_ok
  by unfold_locales (auto simp: source_conversions_def conversions_simps source_ok_def dest: source_ident.new_as_str)

interpretation collection_text: exact_form "cv_display collection_conversions" "cv_from_str collection_conversions" collection_ok
  by unfold_locales (auto simp: collection_conversions_def conversions_simps collection_ok_def dest: collection_ident.new_as_str)

interpretation record_id_text: exact_form "cv_display record_id_conversions" "cv_from_str record_id_conversions" record_id_ok
  by unfold_locales (auto simp: record_id_conversions_def conversions_simps record_id_ok_def dest: record_ident.new_as_str)

interpretation field_text: exact_form field_name_to_string field_name_from_str field_ok
  by unfold_locales (auto simp: field_name_to_string_def field_name_from_str_def field_ok_def field_name_new_iff)

text \<open>A sort key that was read: a field named \<open>seq\<close> cannot be told from the feed position.\<close>

definition sort_key_ok :: "sort_key \<Rightarrow> bool" where
  "sort_key_ok k = (case k of SortSeq \<Rightarrow> True | SortField f \<Rightarrow> field_ok f \<and> field_str f \<noteq> lit ''seq'')"

interpretation sort_text: exact_form sort_key_to_string sort_key_try_from sort_key_ok
proof unfold_locales
  fix s k
  show "sort_key_try_from s = Inr k \<longleftrightarrow> sort_key_ok k \<and> sort_key_to_string k = s"
    by (cases k) (auto simp: sort_key_try_from_def sort_key_ok_def field_ok_def field_name_new_iff result_simps simp del: lit_simps)
qed

section \<open>Id paths\<close>

lemma split_on_join: "split_on c s = p # ps \<Longrightarrow> s = p @ concat (map (\<lambda>q. c # q) ps)"
proof (induction s arbitrary: p ps)
  case (Cons x s)
  obtain q qs where q: "split_on c s = q # qs" by (cases "split_on c s") auto
  from Cons.IH[OF q] have "s = q @ concat (map (\<lambda>q. c # q) qs)" .
  with Cons.prems show ?case unfolding split_on.simps q by (cases "x = c") auto
qed simp

lemma traverse_field_names:
  "traverse field_name_new ps = Inr segs \<Longrightarrow> ps = map field_str segs \<and> list_all field_ok segs"
  by (auto simp: traverse_ok_iff list_all2_conv_all_nth list_all_length field_ok_def field_name_new_iff intro!: nth_equalityI)

text \<open>The text without its \<open>$.\<close>, which is read as the same path unless it begins with another one.\<close>

definition id_path_bare :: "id_path \<Rightarrow> rstr" where
  "id_path_bare p = drop 2 (id_path_to_string p)"

lemma id_path_to_string_bare: "id_path_ok p \<Longrightarrow> id_path_to_string p = lit ''$.'' @ id_path_bare p"
  by (cases "segments p") (simp_all add: id_path_ok_def id_path_bare_def id_path_to_string_def)

lemma id_path_from_str_iff:
  "id_path_from_str s = Inr p \<longleftrightarrow>
     id_path_ok p \<and> (s = id_path_to_string p \<or> s = id_path_bare p \<and> \<not> starts_with (lit ''$.'') s)"
proof
  assume read: "id_path_from_str s = Inr p"
  define bare where "bare = (case strip_prefix (lit ''$.'') s of Some rest \<Rightarrow> rest | None \<Rightarrow> s)"
  from read have segs: "traverse field_name_new (split_on 46 bare) = Inr (segments p)" "segments p \<noteq> []"
    by (auto simp: id_path_from_str_def bare_def result_simps id_path_new_def simp del: lit_simps split: if_splits)
  note names = traverse_field_names[OF segs(1)]
  obtain f fs where p: "p = IdPath (f # fs)" using segs(2) by (cases p; cases "segments p") auto
  with names have "split_on 46 bare = field_str f # map field_str fs" by simp
  from split_on_join[OF this] have "bare = id_path_bare p"
    by (simp add: id_path_bare_def id_path_to_string_def p comp_def)
  moreover have ok: "id_path_ok p" using names segs(2) by (simp add: id_path_ok_def)
  ultimately show "id_path_ok p \<and> (s = id_path_to_string p \<or> s = id_path_bare p \<and> \<not> starts_with (lit ''$.'') s)"
    using id_path_to_string_bare[OF ok]
    by (cases "strip_prefix (lit ''$.'') s")
      (auto simp: bare_def starts_with_def strip_prefix_Some_iff simp del: lit_simps)
next
  assume ok: "id_path_ok p \<and> (s = id_path_to_string p \<or> s = id_path_bare p \<and> \<not> starts_with (lit ''$.'') s)"
  have "id_path_from_str (id_path_bare p) = id_path_from_str (id_path_to_string p)" if "\<not> starts_with (lit ''$.'') (id_path_bare p)"
    using that ok by (simp add: id_path_from_str_def id_path_to_string_bare starts_with_def del: lit_simps)
  with ok show "id_path_from_str s = Inr p" using id_path_roundtrip by auto
qed

interpretation id_path_text: text_form id_path_into_string id_path_try_from id_path_ok
  by unfold_locales (auto simp: id_path_into_string_def id_path_try_from_def id_path_roundtrip id_path_from_str_iff)

section \<open>Content hashes, positions, and looking up by text\<close>

lemma hash_text:
  assumes "hash_env_ok E"
  shows "text_form (hash_into_string E) (hash_try_from E) hash_ok"
  using hash_hex_roundtrip[OF assms] hash_from_str_ok[OF assms]
  by unfold_locales (auto simp: hash_into_string_def hash_try_from_def)

lemma position_text: "parse_unsigned (2 ^ 64 - 1) (seq_to_string q) = Some (unat (seq_get q))"
  using unsigned_less[of "seq_get q", where ?'a = int] by (simp add: seq_to_string_def parse_unsigned_dec)

text \<open>What \<open>BTreeMap::get\<close> finds for a text among keys of another type that borrow as text.\<close>

definition get_borrowed :: "('k \<Rightarrow> rstr) \<Rightarrow> rstr \<Rightarrow> ('k, 'v) btree \<Rightarrow> 'v option" where
  "get_borrowed borrow k m = map_of (map (\<lambda>(n, v). (borrow n, v)) m) k"

lemma get_by_borrow: "get_borrowed field_name_borrow k m = bt_get (FieldName k) m"
proof (induction m)
  case (Cons nv m)
  then show ?case by (cases nv; cases "fst nv") (auto simp: get_borrowed_def bt_get_def field_name_borrow_def)
qed (simp add: get_borrowed_def bt_get_def)

lemma borrow_order: "field_name_borrow a \<le> field_name_borrow b \<longleftrightarrow> a \<le> b"
  by (simp add: field_name_borrow_def less_eq_field_name_def)



text \<open>The entries of a parsed filter are a map already.\<close>

lemma map_of_filter_parsed: "filter_parse schema pairs = Inr f \<Longrightarrow> map_of_filter f = filter_entries f"
  by (simp add: map_of_filter_def bt_extend_self filter_parse_sorted)

end
