(* ===== verification/Spec2Isabelle.thy ===== *)
theory Spec2Isabelle
  imports Http_Properties Store_Properties Digest_Walk Item_Cache Concurrent_Service Edge Batch_Progress Client_Walk Http_Replica Text_Forms
begin

text \<open>
  Hydrant takes records from source systems over an authenticated ingest surface, keeps what a
  collection definition releases of them in PostgreSQL, and serves it publicly: listings, single records,
  a change feed and a manifest, with cache validators. This development models the four crates under
  \<open>src/crates\<close> as HOL functions and proves what makes them correct.

  \<^bold>\<open>The program's parts and their theories\<close>

  \<^item> \<open>core/src/ident.rs\<close>: \<open>Ident\<close>. The two identifier grammars, the three identifier types (the macro is
    the locale \<open>ident_type\<close>), \<open>Seq\<close>, \<open>RecordKey\<close>.
  \<^item> \<open>core/src/schema.rs\<close>: \<open>Schema\<close>. Field names and specifications, their declared forms, id paths, sort
    keys, collection definitions and the set of them. \<open>core/src/projection.rs\<close>: \<open>Projection\<close>, the engine
    next to the reference \<open>released\<close> and \<open>report\<close>. \<open>core/src/filter.rs\<close>: \<open>Query_Filter\<close>. The text forms of
    all these types are in \<open>Text_Forms\<close>.
  \<^item> \<open>core/src/hash.rs\<close>: \<open>Content_Hash\<close>. \<open>store/src/record.rs\<close>, \<open>token.rs\<close>, \<open>store.rs\<close>, \<open>error.rs\<close>:
    \<open>Records\<close>, \<open>Token\<close>, \<open>Store\<close>. The \<open>Store\<close> trait is a record of operations on a state.
  \<^item> \<open>store/src/postgres.rs\<close> and \<open>store/migrations\<close>: \<open>Postgres\<close>. The tables are lists of rows, the feed
    sequence is a number, every SQL statement is a function of the database, refusals included.
    \<open>Transactions\<close> has the same statements inside transactions that interleave.
  \<^item> \<open>api/src\<close>: \<open>Http\<close> (errors, bodies, validators, listing query, rate limits, metrics), \<open>Public_Api\<close>
    (\<open>public.rs\<close>, \<open>state.rs\<close>), \<open>Ingest_Api\<close> (\<open>ingest.rs\<close>). A handler is a function of the shared state,
    of the request as axum decoded it and of one store state per query it makes, because other requests
    may write between two queries of a handler.
  \<^item> \<open>server/src\<close>: \<open>Server\<close> (configuration, schema loading, wiring, CORS policy, layers, issuing a
    credential), \<open>Startup\<close> (\<open>main.rs\<close>: the two commands, with connecting to and migrating the store) and
    \<open>Edge\<close> (log filter and end of the process). A process is the database and the log of what it has
    asked of the world outside.

  \<open>Prelude\<close>, \<open>Rust_Str\<close>, \<open>BTree_Map\<close> and \<open>Json\<close> are what the code uses of the language, its standard
  library and \<open>serde_json\<close>; \<open>Externals\<close> is the record of third-party functions.

  \<^bold>\<open>How values are modelled\<close>

  \<open>Result\<close> is a sum with the error on the left. Integers keep their width as words, except that row
  positions and times are \<open>int\<close> under the range of a bigint, which the database invariant carries.
  A \<open>String\<close> is the list of its scalar values and \<open>len\<close> counts their UTF-8 bytes. Maps are the lists of
  their entries in key order, since the code iterates them.

  \<^bold>\<open>Interfaces\<close>

  \<open>ordered_map\<close> (what a map promises), \<open>ident_type\<close> (what an identifier type promises), \<open>text_form\<close> and
  \<open>exact_form\<close> (what a type promises about its text; the second gives the first),
  \<open>record_store\<close> (what the HTTP layer relies on when it is given a \<open>Store\<close>) and \<open>cached_reads\<close> (what a
  cache relies on) are locales. \<open>record_store\<close> is interpreted for the PostgreSQL store (\<open>pg\<close> in
  \<open>Store_Contract\<close>) and gives \<open>cached_reads\<close> where writes are visible at once; \<open>open_tx\<close> in
  \<open>Concurrent_Reads\<close> is the instance with open transactions. The lemmas about the handlers
  (\<open>Conditional\<close>, \<open>Service\<close>) are proved inside the locales and reach the program through these.

  \<^bold>\<open>What is shown\<close>

  \<^item> Projection (\<open>Projection_Facts\<close>): the engine computes the reference; what it keeps conforms to the
    declared fields at every depth, is part of what was sent and is the largest such part.
  \<^item> Writing (\<open>Postgres_Facts\<close>, \<open>Apply_Facts\<close>, \<open>Batch_Refinement\<close>, \<open>Batch_Properties\<close>,
    \<open>Store_Properties\<close>): every operation is a run of \<open>db_step\<close>; the invariant \<open>db_ok\<close> is kept; a batch
    refines the fold of its operations over a map from ids to documents; it is atomic, it can be
    repeated, its positions are fresh; tombstones hold nothing; the manifest tells collections apart.
  \<^item> Reading (\<open>Feed\<close>, \<open>Replication\<close>, \<open>Digest_Walk\<close>): pages are bounded prefixes; the walks along the
    cursors end and read everything once; a replica that follows the feed converges.
  \<^item> A client of a listing (\<open>Client_Walk\<close>): from the query string to the bodies, a filter selects the live
    records with the values asked for, and following \<open>next_cursor\<close> reads all of them; while the source
    writes, what stays is not missed.
  \<^item> Text forms (\<open>Text_Forms\<close>): what is written is read back, and names have one spelling.
  \<^item> Concurrency (\<open>Transactions\<close>, \<open>Concurrent_Reads\<close>, \<open>Serial_Batches\<close>,
    \<open>Batch_Progress\<close>): a transaction run alone is
    \<open>apply\<close>; any interleaving of statements, commits and aborts keeps the database consistent; what is
    committed is what the committed batches make one after another, in the order of their commits, if
    none of their deletes missed; a replica converges as long as no pull passes a position that is still
    open, and a 304 is right as long as the answer it repeats was not given above an open position.
    \<open>missed_delete_is_not_serial\<close>, \<open>feed_misses_late_commit\<close> and \<open>late_commit_is_hidden\<close> show that the
    conditions are needed. A batch nobody blocks commits by its own steps; \<open>batches_can_deadlock\<close> is what
    the locks cost.
  \<^item> The service with requests in flight (\<open>Concurrent_Service\<close>): requests authenticate, begin, write and
    commit in any order while credentials are issued and revoked; only declared fields are served and
    every record has a source that a credential was issued for. A request alone is one such run.
  \<^item> Caching (\<open>Validators\<close>, \<open>Conditional\<close>, \<open>Public_Properties\<close>, \<open>Item_Cache\<close>): validators determine kind,
    position and slice; a 304 is sent only for what the client holds, with what an item's validator leaves out.
  \<^item> The service (\<open>Service\<close>, \<open>Service_Properties\<close>, \<open>Request_Properties\<close>, \<open>Http_Properties\<close>,
    \<open>Schema_Facts\<close>, \<open>Server_Properties\<close>): in every state that requests can reach, only declared fields
    are served; a sender writes only under its own source; answers say what was done; configuration,
    definitions and credentials are accepted only when they are safe to run with.
  \<^item> One request (\<open>Routing\<close>, \<open>Whole_Service\<close>): where a method and a path go, which statuses come back, and that
    nothing but an authenticated ingest request changes a record. In \<open>Edge\<close>: a page of another origin can
    read what is public and cannot write; the service runs until a signal arrives, but ends at once where it
    cannot listen for SIGTERM.
  \<^item> The binary (\<open>Startup\<close>): a service that is not ready does not listen; an issued credential works until
    its label is revoked.

  \<open>Sample\<close> and \<open>Sample_Store\<close> are the concrete inputs of the witnesses.

  \<^bold>\<open>Parameters\<close>

  The record \<open>env\<close> holds the functions of \<open>serde_jcs\<close>, \<open>sha2\<close>, \<open>hmac\<close>, \<open>hex\<close>, \<open>time\<close>, \<open>http\<close>, the query
  string decoder and of PostgreSQL's \<open>jsonb\<close> and collation. \<open>env_ok\<close> states their documented behaviour
  (lengths, inverses, what \<open>jsonb\<close> keeps, a strict total collation) and \<open>sample_env\<close> satisfies it. That
  hashes do not collide is never in \<open>env_ok\<close>; the two theorems that need it for the documents at hand say so.
  The documented behaviour of containment (\<open>@>\<close>) is \<open>containment_ok\<close>, that of a browser under a CORS policy
  is \<open>browser_ok\<close>; only the theorems about filters and about other origins use them.
  The governor, figment, the file system, the YAML decoder, the pool, the migrator, the listener, the server
  loop and the operating system's randomness are arguments of the definitions that use them (the record
  \<open>outside\<close> of \<open>Startup\<close>).

  \<^bold>\<open>Bounds\<close>

  The recursions are structural or have a measure. Fuel appears only in the walks of a consumer, where
  one more than the number of rows, or of ids, is shown to be enough; \<open>http_walk\<close> makes one request per
  state of a list. Page sizes are bounded by the code's
  own limits (1000 records, 4 MiB), the sequence by the range of a bigint, where it refuses.

  \<^bold>\<open>Not modelled\<close>

  serde's derived decoding and rendering (the model starts and ends at the types it produces), axum's
  extractors and its choice among matching patterns (arguments; \<open>pick_ok\<close> is the documented rule), what the tower-http
  layers do, sockets, TLS, the delivery of signals, tracing, the Prometheus exporter, argument parsing, what the pool
  and the migrator do inside, the payload index (it changes how fast a query is, not what it returns) and
  failures of the connection to the database after it was opened. A transaction that waits for a lock is
  one that takes no step; that PostgreSQL ends a deadlock is a step that aborts.
\<close>

end
